theory Spec2Isabelle
  imports Main "HOL-Library.Word" "HOL-Library.Sublist"
begin

section \<open>Data model of sync.c\<close>

text \<open>
  \<^verbatim>\<open>typedef uint16 CycleCtr\<close>: a 16-bit unsigned counter; \<open>+\<close> on \<open>16 word\<close> wraps
  around as the C increment does.
\<close>

type_synonym CycleCtr = "16 word"

text \<open>
  The values of the \<^verbatim>\<open>SyncRequestHandler\<close> enum that index \<^verbatim>\<open>syncsw[]\<close>, and the
  request types \<^verbatim>\<open>RememberSyncRequest\<close> distinguishes.
\<close>

datatype SyncRequestHandler =
    SYNC_HANDLER_MD
  | SYNC_HANDLER_CLOG
  | SYNC_HANDLER_COMMIT_TS
  | SYNC_HANDLER_MULTIXACT_OFFSET
  | SYNC_HANDLER_MULTIXACT_MEMBER

datatype SyncRequestType =
    SYNC_REQUEST
  | SYNC_UNLINK_REQUEST
  | SYNC_FORGET_REQUEST
  | SYNC_FILTER_REQUEST

text \<open>
  \<^verbatim>\<open>FileTag\<close> is declared in sync.h: the handler discriminant and the handler-specific
  fields. It is a plain value, compared bytewise as a hash key, which is equality of
  the record.
\<close>

record FileTag =
  handler :: SyncRequestHandler
  forknum :: int
  rnode :: "nat \<times> nat \<times> nat"
  segno :: nat

text \<open>
  \<^verbatim>\<open>PendingFsyncEntry\<close> and \<^verbatim>\<open>PendingUnlinkEntry\<close>, field for field (the fields carry a
  prefix because two records of one theory cannot share field names).
\<close>

record PendingFsyncEntry =
  pf_tag :: FileTag
  pf_cycle_ctr :: CycleCtr
  pf_canceled :: bool

record PendingUnlinkEntry =
  pu_tag :: FileTag
  pu_cycle_ctr :: CycleCtr

text \<open>
  \<^verbatim>\<open>InflightSyncEntry\<close> (sync.h). The pointer \<^verbatim>\<open>hash_entry\<close> into the pending-ops table
  is the key of the entry it points to: dynahash never moves an entry, so the pointer
  and the key name the same entry for as long as the entry lives. The list node is the
  position of the value in \<open>inflightSyncs\<close> or \<open>retrySyncs\<close>.
\<close>

record InflightSyncEntry =
  if_tag :: FileTag
  if_hash_entry :: FileTag
  if_handler_data :: nat
  if_path :: string
  if_retry_count :: nat
  if_start_time :: "64 word"

datatype elevel = DEBUG1 | WARNING | ERROR | PANIC

text \<open>
  One asynchronous flush the streaming writer still owes a completion for: the
  in-flight entry, and the result (success, errno) its completion will report.
\<close>

type_synonym PendingIo = "InflightSyncEntry \<times> bool \<times> int"

text \<open>
  The process-global state of sync.c. \<^verbatim>\<open>sync_state_global\<close> is the only
  \<^verbatim>\<open>SyncState\<close>, so its fields stand here directly. \<open>pendingOps\<close> is \<open>None\<close> while the
  C pointer is NULL; the table itself is the list of its entries in the order
  \<^verbatim>\<open>hash_seq_search\<close> returns them (one entry per tag). \<open>pgsw\<close> is \<open>None\<close> while the
  pointer is NULL, and otherwise holds the flushes whose completion is outstanding.
  \<open>CheckpointStats\<close>' three sync fields, the two settings the code reads
  (\<^verbatim>\<open>enableFsync\<close>, \<^verbatim>\<open>log_checkpoints\<close>) and the observable effects follow: the calls
  made to the handlers' sync and unlink operations, the number of calls of
  \<^verbatim>\<open>AbsorbSyncRequests\<close>, the number of clock readings, and the messages reported
  below \<^verbatim>\<open>ERROR\<close>. The C \<^verbatim>\<open>int\<close>s \<open>processed\<close> and \<open>ckpt_sync_rels\<close> are unbounded
  integers here: \<^verbatim>\<open>processed++\<close> overflows (undefined behaviour in C) only in a pass of
  more than \<open>2^31 - 1\<close> flushes, which is outside the model.
\<close>

record proc =
  pendingOps :: "PendingFsyncEntry list option"
  pendingUnlinks :: "PendingUnlinkEntry list"
  inflightSyncs :: "InflightSyncEntry list"
  retrySyncs :: "InflightSyncEntry list"
  sync_cycle_ctr :: CycleCtr
  checkpoint_cycle_ctr :: CycleCtr
  sync_in_progress :: bool
  absorb_counter :: int
  pgsw :: "PendingIo list option"
  processed :: int
  longest :: "64 word"
  total_elapsed :: "64 word"
  ckpt_sync_rels :: int
  ckpt_longest_sync :: "64 word"
  ckpt_agg_sync_time :: "64 word"
  enableFsync :: bool
  log_checkpoints :: bool
  sync_calls :: "InflightSyncEntry list"
  unlink_calls :: "FileTag list"
  absorb_calls :: nat
  clock_reads :: nat
  server_log :: "(elevel \<times> string) list"

text \<open>
  What stops a function before its end: \<^verbatim>\<open>elog\<close>/\<^verbatim>\<open>ereport\<close> at \<^verbatim>\<open>ERROR\<close> or above
  (control leaves the function), a failed \<^verbatim>\<open>Assert\<close>, or a crash (a call through a
  NULL function pointer, a read through a NULL or dangling pointer). The state at
  that moment comes with it: an \<^verbatim>\<open>ERROR\<close> leaves the globals as they were changed
  so far.
\<close>

datatype failure = Elog elevel string | AssertFailed string | Crash string

type_synonym result = "(failure \<times> proc) + proc"

fun and_then :: "result \<Rightarrow> (proc \<Rightarrow> result) \<Rightarrow> result" where
  "and_then (Inl f) k = Inl f"
| "and_then (Inr s) k = k s"

fun state_of :: "result \<Rightarrow> proc" where
  "state_of (Inl f) = snd f"
| "state_of (Inr s) = s"

text \<open>
  What a handler's \<^verbatim>\<open>sync_syncfiletag\<close> does with one submission. The handlers
  (md.c, clog.c, ...) and the streaming writer are not part of sync.c; the handler
  starts an asynchronous flush and arranges for \<^verbatim>\<open>SyncRequestCompleted\<close> to be
  called. \<open>so_drained\<close> completions of earlier submissions are delivered while the
  writer makes room (oldest first), then this submission either completes before the
  handler returns (\<open>so_inline\<close>) or stays outstanding until
  \<^verbatim>\<open>pg_streaming_write_wait_all\<close>; \<open>so_success\<close> and \<open>so_errno\<close> are what its
  completion reports.
\<close>

record sync_outcome =
  so_drained :: nat
  so_inline :: bool
  so_success :: bool
  so_errno :: int

type_synonym sync_fn = "nat \<Rightarrow> InflightSyncEntry \<Rightarrow> sync_outcome"
type_synonym unlink_fn = "nat \<Rightarrow> FileTag \<Rightarrow> int \<times> int"
type_synonym matches_fn = "FileTag \<Rightarrow> FileTag \<Rightarrow> bool"

text \<open>
  \<^verbatim>\<open>struct SyncOps\<close>: a member the table leaves out is a NULL pointer, \<open>None\<close>.
\<close>

record SyncOps =
  sync_syncfiletag :: "sync_fn option"
  sync_unlinkfiletag :: "unlink_fn option"
  sync_filetagmatches :: "matches_fn option"

text \<open>
  Everything sync.c calls but does not define. The handler functions take the number
  of earlier calls as their first argument, so that a file may answer differently
  each time: \<open>mdunlinkfiletag E n t\<close> is the pair (return value, errno) of the
  \<open>n\<close>-th unlink call. \<open>absorb_oracle E n\<close> is the batch of requests the \<open>n\<close>-th call
  of \<^verbatim>\<open>AbsorbSyncRequests\<close> finds in the shared queue, \<open>clock E n\<close> the \<open>n\<close>-th reading
  of the clock in microseconds. \<open>file_possibly_deleted\<close> is the macro
  \<^verbatim>\<open>FILE_POSSIBLY_DELETED\<close> of fd.h and \<open>data_sync_retry\<close> the setting
  \<^verbatim>\<open>data_sync_elevel\<close> reads.
\<close>

record env =
  mdsyncfiletag :: sync_fn
  mdunlinkfiletag :: unlink_fn
  mdfiletagmatches :: matches_fn
  clogsyncfiletag :: sync_fn
  committssyncfiletag :: sync_fn
  multixactoffsetssyncfiletag :: sync_fn
  multixactmemberssyncfiletag :: sync_fn
  absorb_oracle :: "nat \<Rightarrow> (FileTag \<times> SyncRequestType) list"
  clock :: "nat \<Rightarrow> 64 word"
  file_possibly_deleted :: "int \<Rightarrow> bool"
  data_sync_retry :: bool

definition FSYNCS_PER_ABSORB :: int where
  "FSYNCS_PER_ABSORB = 10"

definition UNLINKS_PER_ABSORB :: int where
  "UNLINKS_PER_ABSORB = 10"

definition ENOENT :: int where
  "ENOENT = 2"

text \<open>The table \<^verbatim>\<open>syncsw[]\<close>: only the magnetic-disk handler can unlink and match.\<close>

definition syncsw :: "env \<Rightarrow> SyncRequestHandler \<Rightarrow> SyncOps" where
  "syncsw E h =
     (case h of
        SYNC_HANDLER_MD \<Rightarrow>
          \<lparr>sync_syncfiletag = Some (mdsyncfiletag E),
           sync_unlinkfiletag = Some (mdunlinkfiletag E),
           sync_filetagmatches = Some (mdfiletagmatches E)\<rparr>
      | SYNC_HANDLER_CLOG \<Rightarrow>
          \<lparr>sync_syncfiletag = Some (clogsyncfiletag E),
           sync_unlinkfiletag = None, sync_filetagmatches = None\<rparr>
      | SYNC_HANDLER_COMMIT_TS \<Rightarrow>
          \<lparr>sync_syncfiletag = Some (committssyncfiletag E),
           sync_unlinkfiletag = None, sync_filetagmatches = None\<rparr>
      | SYNC_HANDLER_MULTIXACT_OFFSET \<Rightarrow>
          \<lparr>sync_syncfiletag = Some (multixactoffsetssyncfiletag E),
           sync_unlinkfiletag = None, sync_filetagmatches = None\<rparr>
      | SYNC_HANDLER_MULTIXACT_MEMBER \<Rightarrow>
          \<lparr>sync_syncfiletag = Some (multixactmemberssyncfiletag E),
           sync_unlinkfiletag = None, sync_filetagmatches = None\<rparr>)"

section \<open>The pending-ops table\<close>

text \<open>
  \<^verbatim>\<open>hash_search\<close> with \<^verbatim>\<open>HASH_FIND\<close> and \<^verbatim>\<open>HASH_REMOVE\<close> (\<open>None\<close> is the NULL it returns
  when the key is absent), and a write through the entry pointer.
\<close>

definition hash_find :: "FileTag \<Rightarrow> PendingFsyncEntry list \<Rightarrow> PendingFsyncEntry option" where
  "hash_find t ops = find (\<lambda>e. pf_tag e = t) ops"

definition hash_remove :: "FileTag \<Rightarrow> PendingFsyncEntry list \<Rightarrow> PendingFsyncEntry list option" where
  "hash_remove t ops =
     (case hash_find t ops of
        None \<Rightarrow> None
      | Some e \<Rightarrow> Some (filter (\<lambda>x. pf_tag x \<noteq> t) ops))"

definition hash_store :: "PendingFsyncEntry \<Rightarrow> PendingFsyncEntry list \<Rightarrow> PendingFsyncEntry list" where
  "hash_store e ops = map (\<lambda>x. if pf_tag x = pf_tag e then e else x) ops"

section \<open>RememberSyncRequest\<close>

text \<open>
  The test of the \<^verbatim>\<open>SYNC_FILTER_REQUEST\<close> loops,
  \<^verbatim>\<open>entry->tag.handler == ftag->handler && syncsw[ftag->handler].sync_filetagmatches(ftag, &entry->tag)\<close>:
  the second operand is evaluated only when the handlers agree, and is a call through
  a NULL pointer (\<open>None\<close>) when the handler has no matches function.
\<close>

definition filter_matches :: "env \<Rightarrow> FileTag \<Rightarrow> FileTag \<Rightarrow> bool option" where
  "filter_matches E ftag cand =
     (if handler cand = handler ftag
      then (case sync_filetagmatches (syncsw E (handler ftag)) of
              None \<Rightarrow> None
            | Some m \<Rightarrow> Some (m ftag cand))
      else Some False)"

fun cancel_matching :: "env \<Rightarrow> FileTag \<Rightarrow> PendingFsyncEntry list \<Rightarrow> PendingFsyncEntry list option" where
  "cancel_matching E ftag [] = Some []"
| "cancel_matching E ftag (e # es) =
     (case filter_matches E ftag (pf_tag e) of
        None \<Rightarrow> None
      | Some b \<Rightarrow>
          (case cancel_matching E ftag es of
             None \<Rightarrow> None
           | Some es' \<Rightarrow> Some ((if b then e\<lparr>pf_canceled := True\<rparr> else e) # es')))"

fun remove_matching :: "env \<Rightarrow> FileTag \<Rightarrow> PendingUnlinkEntry list \<Rightarrow> PendingUnlinkEntry list option" where
  "remove_matching E ftag [] = Some []"
| "remove_matching E ftag (e # es) =
     (case filter_matches E ftag (pu_tag e) of
        None \<Rightarrow> None
      | Some b \<Rightarrow>
          (case remove_matching E ftag es of
             None \<Rightarrow> None
           | Some es' \<Rightarrow> Some (if b then es' else e # es')))"

definition RememberSyncRequest :: "env \<Rightarrow> FileTag \<Rightarrow> SyncRequestType \<Rightarrow> proc \<Rightarrow> result" where
  "RememberSyncRequest E ftag ty st =
     (case pendingOps st of
        None \<Rightarrow> Inl (AssertFailed ''pendingOps'', st)
      | Some ops \<Rightarrow>
          (case ty of
             SYNC_FORGET_REQUEST \<Rightarrow>
               (case hash_find ftag ops of
                  None \<Rightarrow> Inr st
                | Some e \<Rightarrow>
                    Inr (st\<lparr>pendingOps := Some (hash_store (e\<lparr>pf_canceled := True\<rparr>) ops)\<rparr>))
           | SYNC_FILTER_REQUEST \<Rightarrow>
               (case cancel_matching E ftag ops of
                  None \<Rightarrow> Inl (Crash ''sync_filetagmatches'', st)
                | Some ops' \<Rightarrow>
                    (case remove_matching E ftag (pendingUnlinks st) of
                       None \<Rightarrow> Inl (Crash ''sync_filetagmatches'', st\<lparr>pendingOps := Some ops'\<rparr>)
                     | Some us' \<Rightarrow>
                         Inr (st\<lparr>pendingOps := Some ops', pendingUnlinks := us'\<rparr>)))
           | SYNC_UNLINK_REQUEST \<Rightarrow>
               Inr (st\<lparr>pendingUnlinks :=
                          pendingUnlinks st @
                            [\<lparr>pu_tag = ftag, pu_cycle_ctr = checkpoint_cycle_ctr st\<rparr>]\<rparr>)
           | SYNC_REQUEST \<Rightarrow>
               (case hash_find ftag ops of
                  None \<Rightarrow>
                    Inr (st\<lparr>pendingOps :=
                               Some (ops @ [\<lparr>pf_tag = ftag, pf_cycle_ctr = sync_cycle_ctr st,
                                             pf_canceled = False\<rparr>])\<rparr>)
                | Some e \<Rightarrow>
                    if pf_canceled e
                    then Inr (st\<lparr>pendingOps :=
                                    Some (hash_store
                                            (e\<lparr>pf_cycle_ctr := sync_cycle_ctr st,
                                               pf_canceled := False\<rparr>) ops)\<rparr>)
                    else Inr st)))"

section \<open>AbsorbSyncRequests\<close>

text \<open>
  Modelled from the spec: \<^verbatim>\<open>AbsorbSyncRequests\<close> is defined in checkpointer.c, which is
  not among the sources. The spec: it "drains the inter-process queue, invoking
  RememberRequest for each item". The batch drained by a call is the environment's.
\<close>

fun remember_all :: "env \<Rightarrow> (FileTag \<times> SyncRequestType) list \<Rightarrow> proc \<Rightarrow> result" where
  "remember_all E [] st = Inr st"
| "remember_all E (r # rs) st =
     and_then (RememberSyncRequest E (fst r) (snd r) st) (remember_all E rs)"

definition AbsorbSyncRequests :: "env \<Rightarrow> proc \<Rightarrow> result" where
  "AbsorbSyncRequests E st =
     remember_all E (absorb_oracle E (absorb_calls st))
       (st\<lparr>absorb_calls := absorb_calls st + 1\<rparr>)"

section \<open>SyncPreCheckpoint\<close>

definition SyncPreCheckpoint :: "proc \<Rightarrow> proc" where
  "SyncPreCheckpoint st = st\<lparr>checkpoint_cycle_ctr := checkpoint_cycle_ctr st + 1\<rparr>"

section \<open>SyncRequestCompleted and call_syncfiletag\<close>

text \<open>
  Modelled from the spec: \<^verbatim>\<open>data_sync_elevel\<close> is defined in fd.c, which is not among
  the sources. The spec: the severity is "typically ERROR, promoted to PANIC under
  strict mode".
\<close>

definition data_sync_elevel :: "env \<Rightarrow> elevel \<Rightarrow> elevel" where
  "data_sync_elevel E lev = (if data_sync_retry E then lev else PANIC)"

text \<open>
  \<^verbatim>\<open>dlist_delete_from\<close> takes the entry out of \<open>inflightSyncs\<close>. On success the
  statistics are updated and the owning table entry is removed through
  \<^verbatim>\<open>hash_entry\<close>. On failure \<^verbatim>\<open>ereport\<close> at \<^verbatim>\<open>data_sync_elevel(ERROR)\<close> does not
  return, so the two statements that schedule the retry run only after the
  \<^verbatim>\<open>DEBUG1\<close> report. The messages are the format strings (without their quotes).
\<close>

definition SyncRequestCompleted ::
    "env \<Rightarrow> InflightSyncEntry \<Rightarrow> bool \<Rightarrow> int \<Rightarrow> proc \<Rightarrow> result" where
  "SyncRequestCompleted E inflight_entry success err st0 =
     (let st = st0\<lparr>inflightSyncs := remove1 inflight_entry (inflightSyncs st0)\<rparr> in
      if success then
        (let elapsed = clock E (clock_reads st) - if_start_time inflight_entry;
             st1 = st\<lparr>clock_reads := clock_reads st + 1,
                      longest := (if elapsed > longest st then elapsed else longest st),
                      total_elapsed := total_elapsed st + elapsed,
                      processed := processed st + 1\<rparr>;
             st2 = (if log_checkpoints st1
                    then st1\<lparr>server_log := server_log st1 @
                           [(DEBUG1, ''checkpoint sync: number=%d file=%s time=%.3f ms'')]\<rparr>
                    else st1)
         in case pendingOps st2 of
              None \<Rightarrow> Inl (Crash ''pendingOps'', st2)
            | Some ops \<Rightarrow>
                (case hash_remove (if_hash_entry inflight_entry) ops of
                   None \<Rightarrow> Inl (Elog ERROR ''pendingOps corrupted'', st2)
                 | Some ops' \<Rightarrow> Inr (st2\<lparr>pendingOps := Some ops'\<rparr>)))
      else if \<not> file_possibly_deleted E err \<or> if_retry_count inflight_entry > 0
      then Inl (Elog (data_sync_elevel E ERROR) ''could not fsync file %s: %m'', st)
      else Inr (st\<lparr>server_log := server_log st @
                        [(DEBUG1, ''could not fsync file %s but retrying: %m'')],
                    retrySyncs := retrySyncs st @
                        [inflight_entry\<lparr>if_retry_count := if_retry_count inflight_entry + 1\<rparr>]\<rparr>))"

text \<open>
  The streaming writer delivers the oldest \<open>n\<close> outstanding completions, each by a call
  of \<^verbatim>\<open>SyncRequestCompleted\<close>.
\<close>

fun complete_ios :: "env \<Rightarrow> nat \<Rightarrow> proc \<Rightarrow> result" where
  "complete_ios E 0 st = Inr st"
| "complete_ios E (Suc n) st =
     (case pgsw st of
        None \<Rightarrow> Inr st
      | Some [] \<Rightarrow> Inr st
      | Some (io # ios) \<Rightarrow>
          and_then
            (SyncRequestCompleted E (fst io) (fst (snd io)) (snd (snd io)) (st\<lparr>pgsw := Some ios\<rparr>))
            (complete_ios E n))"

text \<open>
  Modelled from the spec: the handlers' sync functions and the streaming writer are
  defined outside sync.c. The spec: the handler is "responsible for opening the file,
  starting the asynchronous flush, and arranging for RequestCompleted to be invoked on
  termination"; submissions "may block when the window is full; during such a block
  the writer drains completions". The call is recorded in \<open>sync_calls\<close>.
\<close>

definition finish_submission :: "env \<Rightarrow> InflightSyncEntry \<Rightarrow> sync_outcome \<Rightarrow> proc \<Rightarrow> result" where
  "finish_submission E e out st =
     (if so_inline out
      then SyncRequestCompleted E e (so_success out) (so_errno out) st
      else (case pgsw st of
              None \<Rightarrow> Inl (Crash ''pgsw'', st)
            | Some ios \<Rightarrow>
                Inr (st\<lparr>pgsw := Some (ios @ [(e, so_success out, so_errno out)])\<rparr>)))"

definition run_sync_handler :: "env \<Rightarrow> sync_fn \<Rightarrow> InflightSyncEntry \<Rightarrow> proc \<Rightarrow> result" where
  "run_sync_handler E f e st =
     (let out = f (length (sync_calls st)) e in
      and_then (complete_ios E (so_drained out) (st\<lparr>sync_calls := sync_calls st @ [e]\<rparr>))
        (finish_submission E e out))"

definition call_syncfiletag :: "env \<Rightarrow> InflightSyncEntry \<Rightarrow> proc \<Rightarrow> result" where
  "call_syncfiletag E inflight_entry st =
     (let e = inflight_entry\<lparr>if_start_time := clock E (clock_reads st)\<rparr>;
          st1 = st\<lparr>inflightSyncs := inflightSyncs st @ [e],
                   clock_reads := clock_reads st + 1\<rparr>
      in case sync_syncfiletag (syncsw E (handler (if_tag e))) of
           None \<Rightarrow> Inl (Crash ''sync_syncfiletag'', st1)
         | Some f \<Rightarrow> run_sync_handler E f e st1)"

text \<open>
  Modelled from the spec: \<^verbatim>\<open>pg_streaming_write_wait_all\<close> is the streaming writer's
  "await all outstanding submissions".
\<close>

definition pg_streaming_write_wait_all :: "env \<Rightarrow> proc \<Rightarrow> result" where
  "pg_streaming_write_wait_all E st =
     (case pgsw st of
        None \<Rightarrow> Inl (Crash ''pgsw'', st)
      | Some ios \<Rightarrow> complete_ios E (length ios) st)"

section \<open>RetrySyncRequests\<close>

text \<open>
  One turn of the \<^verbatim>\<open>while\<close> loop of \<^verbatim>\<open>RetrySyncRequests\<close>, for the entry popped from
  the head of \<open>retrySyncs\<close>. Reading \<^verbatim>\<open>hash_entry->canceled\<close> of an entry that is no
  longer in the table is a read through a dangling pointer.
\<close>

definition retry_one :: "env \<Rightarrow> InflightSyncEntry \<Rightarrow> proc \<Rightarrow> result" where
  "retry_one E inflight_entry st =
     (case pendingOps st of
        None \<Rightarrow> Inl (Crash ''pendingOps'', st)
      | Some ops \<Rightarrow>
          (case hash_find (if_hash_entry inflight_entry) ops of
             None \<Rightarrow> Inl (Crash ''hash_entry'', st)
           | Some he \<Rightarrow>
               if pf_canceled he
               then (case hash_remove (pf_tag he) ops of
                       None \<Rightarrow> Inl (Elog ERROR ''pendingOps corrupted'', st)
                     | Some ops' \<Rightarrow> Inr (st\<lparr>pendingOps := Some ops'\<rparr>))
               else if \<not> if_retry_count inflight_entry \<le> 5
               then Inl (AssertFailed ''inflight_entry->retry_count <= 5'', st)
               else call_syncfiletag E inflight_entry st))"

function retry_loop :: "env \<Rightarrow> proc \<Rightarrow> result" where
  "retry_loop E st =
     (case retrySyncs st of
        [] \<Rightarrow> Inr st
      | inflight_entry # rest \<Rightarrow>
          (case retry_one E inflight_entry (st\<lparr>retrySyncs := rest\<rparr>) of
             Inl f \<Rightarrow> Inl f
           | Inr st' \<Rightarrow> retry_loop E st'))"
  by pat_completeness auto

definition RetrySyncRequests :: "env \<Rightarrow> proc \<Rightarrow> result" where
  "RetrySyncRequests E st =
     (if retrySyncs st = [] then Inr st
      else and_then (AbsorbSyncRequests E st)
             (\<lambda>s. retry_loop E (s\<lparr>absorb_counter := FSYNCS_PER_ABSORB\<rparr>)))"

section \<open>ProcessSyncRequests\<close>

text \<open>
  The body of the scan over the table, for the entry with tag \<open>t\<close>. The counter is
  decremented and tested, and the entry's \<^verbatim>\<open>canceled\<close> flag is read only after the
  absorb, through the entry pointer. \<^verbatim>\<open>MemoryContextAlloc\<close> leaves \<^verbatim>\<open>start_time\<close>
  unset; \<^verbatim>\<open>call_syncfiletag\<close> writes it before anything reads it.
\<close>

definition absorb_tick :: "env \<Rightarrow> proc \<Rightarrow> result" where
  "absorb_tick E st =
     (let st1 = st\<lparr>absorb_counter := absorb_counter st - 1\<rparr> in
      if absorb_counter st1 \<le> 0
      then and_then (AbsorbSyncRequests E st1)
             (\<lambda>s. Inr (s\<lparr>absorb_counter := FSYNCS_PER_ABSORB\<rparr>))
      else Inr st1)"

definition sync_or_remove :: "env \<Rightarrow> FileTag \<Rightarrow> proc \<Rightarrow> result" where
  "sync_or_remove E t st =
     (case pendingOps st of
        None \<Rightarrow> Inl (Crash ''pendingOps'', st)
      | Some ops \<Rightarrow>
          (case hash_find t ops of
             None \<Rightarrow> Inl (Crash ''entry'', st)
           | Some entry \<Rightarrow>
               if \<not> enableFsync st \<or> pf_canceled entry
               then (case hash_remove (pf_tag entry) ops of
                       None \<Rightarrow> Inl (Elog ERROR ''pendingOps corrupted'', st)
                     | Some ops' \<Rightarrow> Inr (st\<lparr>pendingOps := Some ops'\<rparr>))
               else call_syncfiletag E
                      \<lparr>if_tag = pf_tag entry, if_hash_entry = pf_tag entry,
                       if_handler_data = 0, if_path = [], if_retry_count = 0,
                       if_start_time = 0\<rparr> st))"

definition sync_loop_body :: "env \<Rightarrow> FileTag \<Rightarrow> proc \<Rightarrow> result" where
  "sync_loop_body E t st =
     (case pendingOps st of
        None \<Rightarrow> Inl (Crash ''pendingOps'', st)
      | Some ops \<Rightarrow>
          (case hash_find t ops of
             None \<Rightarrow> Inr st
           | Some entry \<Rightarrow>
               if pf_cycle_ctr entry = sync_cycle_ctr st then Inr st
               else if pf_cycle_ctr entry + 1 \<noteq> sync_cycle_ctr st
               then Inl (AssertFailed ''(CycleCtr) (entry->cycle_ctr + 1) == sync_cycle_ctr'', st)
               else and_then (absorb_tick E st) (sync_or_remove E t)))"

text \<open>
  The scan \<^verbatim>\<open>hash_seq_init\<close>/\<^verbatim>\<open>hash_seq_search\<close> visits the entries that are in the
  table when it starts, in table order. An entry entered during the scan carries the
  new \<open>sync_cycle_ctr\<close>, so a visit to it is the \<^verbatim>\<open>continue\<close> and changes nothing:
  whether the scan returns it or not, the state is the same. No entry the scan has
  yet to reach is removed (the body removes the current entry, a completion the entry
  of a submission made earlier), so every tag of the list is found when its turn
  comes.
\<close>

fun sync_loop :: "env \<Rightarrow> FileTag list \<Rightarrow> proc \<Rightarrow> result" where
  "sync_loop E [] st = Inr st"
| "sync_loop E (t # ts) st =
     (case sync_loop_body E t st of
        Inl f \<Rightarrow> Inl f
      | Inr st' \<Rightarrow> sync_loop E ts st')"

definition hash_seq_tags :: "proc \<Rightarrow> FileTag list" where
  "hash_seq_tags st = (case pendingOps st of None \<Rightarrow> [] | Some ops \<Rightarrow> map pf_tag ops)"

text \<open>The \<^verbatim>\<open>for\<close> loop that calls \<^verbatim>\<open>RetrySyncRequests\<close> while \<open>failures < 5\<close>.\<close>

function retry_bank :: "env \<Rightarrow> nat \<Rightarrow> proc \<Rightarrow> result" where
  "retry_bank E failures st =
     (if failures < 5
      then (case RetrySyncRequests E st of
              Inl f \<Rightarrow> Inl f
            | Inr st' \<Rightarrow> retry_bank E (failures + 1) st')
      else Inr st)"
  by pat_completeness auto
termination
  by (relation "measure (\<lambda>(E, failures, st). 5 - failures)") auto

text \<open>
  The end of the pass: the two emptiness checks, the release of the streaming writer,
  the export of the statistics and the clearing of the flag.
\<close>

definition finish_pass :: "proc \<Rightarrow> result" where
  "finish_pass st =
     (if inflightSyncs st \<noteq> [] then Inl (Elog PANIC ''inflight sync requests corrupted'', st)
      else if retrySyncs st \<noteq> [] then Inl (Elog PANIC ''inflight sync requests corrupted'', st)
      else Inr (st\<lparr>pgsw := None,
                   ckpt_sync_rels := processed st,
                   ckpt_longest_sync := longest st,
                   ckpt_agg_sync_time := total_elapsed st,
                   sync_in_progress := False\<rparr>))"

text \<open>
  From the stale-counter check to the start of the scan. The \<^verbatim>\<open>elog(PANIC)\<close> stands
  before the loop that resets the counters, so that loop is never reached.
\<close>

definition begin_pass :: "proc \<Rightarrow> result" where
  "begin_pass st =
     (if sync_in_progress st then Inl (Elog PANIC ''not implemented right now'', st)
      else
        (let st1 = st\<lparr>processed := 0, longest := 0, total_elapsed := 0\<rparr>;
             st2 = (case pgsw st1 of None \<Rightarrow> st1\<lparr>pgsw := Some []\<rparr> | Some w \<Rightarrow> st1)
         in Inr (st2\<lparr>sync_cycle_ctr := sync_cycle_ctr st2 + 1,
                     sync_in_progress := True,
                     absorb_counter := FSYNCS_PER_ABSORB\<rparr>)))"

text \<open>
  \<^verbatim>\<open>ProcessSyncRequests\<close> up to the end of the retry loop, and the whole function.
\<close>

definition sync_pass :: "env \<Rightarrow> proc \<Rightarrow> result" where
  "sync_pass E st =
     (case pendingOps st of
        None \<Rightarrow> Inl (Elog ERROR ''cannot sync without a pendingOps table'', st)
      | Some ops \<Rightarrow>
          and_then (AbsorbSyncRequests E st)
            (\<lambda>s1. and_then (begin_pass s1)
               (\<lambda>s2. and_then (sync_loop E (hash_seq_tags s2) s2)
                  (\<lambda>s3. and_then (pg_streaming_write_wait_all E s3) (retry_bank E 0)))))"

definition ProcessSyncRequests :: "env \<Rightarrow> proc \<Rightarrow> result" where
  "ProcessSyncRequests E st = and_then (sync_pass E st) finish_pass"

section \<open>SyncPostCheckpoint\<close>

text \<open>
  One turn of the loop for the head entry, which is not of the current cycle: the
  handler's unlink (a call through NULL for a handler without one), the warning unless
  the error is \<^verbatim>\<open>ENOENT\<close>, the removal of the head, and the absorb when the local
  counter \<open>c\<close> runs out.
\<close>

definition unlink_one :: "env \<Rightarrow> int \<Rightarrow> PendingUnlinkEntry \<Rightarrow> proc \<Rightarrow> result" where
  "unlink_one E c entry st =
     (case sync_unlinkfiletag (syncsw E (handler (pu_tag entry))) of
        None \<Rightarrow> Inl (Crash ''sync_unlinkfiletag'', st)
      | Some u \<Rightarrow>
          (let r = u (length (unlink_calls st)) (pu_tag entry);
               st1 = st\<lparr>unlink_calls := unlink_calls st @ [pu_tag entry]\<rparr>;
               st2 = (if fst r < 0 \<and> snd r \<noteq> ENOENT
                      then st1\<lparr>server_log := server_log st1 @
                             [(WARNING, ''could not remove file %s: %m'')]\<rparr>
                      else st1);
               st3 = st2\<lparr>pendingUnlinks := tl (pendingUnlinks st2)\<rparr>
           in if c - 1 \<le> 0 then AbsorbSyncRequests E st3 else Inr st3))"

function unlink_loop :: "env \<Rightarrow> int \<Rightarrow> proc \<Rightarrow> result" where
  "unlink_loop E c st =
     (case pendingUnlinks st of
        [] \<Rightarrow> Inr st
      | entry # rest \<Rightarrow>
          if pu_cycle_ctr entry = checkpoint_cycle_ctr st then Inr st
          else (case unlink_one E c entry st of
                  Inl f \<Rightarrow> Inl f
                | Inr st' \<Rightarrow>
                    unlink_loop E (if c - 1 \<le> 0 then UNLINKS_PER_ABSORB else c - 1) st'))"
  by pat_completeness auto

definition SyncPostCheckpoint :: "env \<Rightarrow> proc \<Rightarrow> result" where
  "SyncPostCheckpoint E st = unlink_loop E UNLINKS_PER_ABSORB st"

section \<open>Initial state and examples\<close>

text \<open>
  The state a process starts with: the static initialisers of sync.c (both counters 0,
  both lists empty, no table, \<^verbatim>\<open>sync_in_progress = false\<close>), and the defaults of the two
  settings.
\<close>

definition startup :: proc where
  "startup =
     \<lparr>pendingOps = None, pendingUnlinks = [], inflightSyncs = [], retrySyncs = [],
      sync_cycle_ctr = 0, checkpoint_cycle_ctr = 0, sync_in_progress = False,
      absorb_counter = 0, pgsw = None, processed = 0, longest = 0, total_elapsed = 0,
      ckpt_sync_rels = 0, ckpt_longest_sync = 0, ckpt_agg_sync_time = 0,
      enableFsync = True, log_checkpoints = False,
      sync_calls = [], unlink_calls = [], absorb_calls = 0, clock_reads = 0,
      server_log = []\<rparr>"

text \<open>
  \<^verbatim>\<open>InitSync\<close>: the table is created in a standalone process and in the checkpointer.
\<close>

definition InitSync :: "bool \<Rightarrow> bool \<Rightarrow> proc \<Rightarrow> proc" where
  "InitSync IsUnderPostmaster AmCheckpointerProcess st =
     (if \<not> IsUnderPostmaster \<or> AmCheckpointerProcess
      then st\<lparr>pendingOps := Some [], pendingUnlinks := []\<rparr>
      else st)"

definition checkpointer :: proc where
  "checkpointer = InitSync True True startup"

text \<open>Two segments of one relation, and a segment of a relation of another database.\<close>

definition tag1 :: FileTag where
  "tag1 = \<lparr>handler = SYNC_HANDLER_MD, forknum = 0, rnode = (1663, 5, 16384), segno = 0\<rparr>"

definition tag2 :: FileTag where
  "tag2 = \<lparr>handler = SYNC_HANDLER_MD, forknum = 0, rnode = (1663, 5, 16384), segno = 1\<rparr>"

definition tag3 :: FileTag where
  "tag3 = \<lparr>handler = SYNC_HANDLER_MD, forknum = 0, rnode = (1663, 7, 16390), segno = 0\<rparr>"

text \<open>
  An environment in which nothing goes wrong: every flush completes before the handler
  returns, every unlink succeeds, a filter request matches the files of its database,
  the shared queue is always empty and the clock advances by a millisecond per
  reading.
\<close>

definition sync_succeeds :: sync_fn where
  "sync_succeeds n e = \<lparr>so_drained = 0, so_inline = True, so_success = True, so_errno = 0\<rparr>"

definition quiet_env :: env where
  "quiet_env =
     \<lparr>mdsyncfiletag = sync_succeeds,
      mdunlinkfiletag = (\<lambda>n t. (0, 0)),
      mdfiletagmatches = (\<lambda>ftag cand. fst (snd (rnode ftag)) = fst (snd (rnode cand))),
      clogsyncfiletag = sync_succeeds,
      committssyncfiletag = sync_succeeds,
      multixactoffsetssyncfiletag = sync_succeeds,
      multixactmemberssyncfiletag = sync_succeeds,
      absorb_oracle = (\<lambda>n. []),
      clock = (\<lambda>n. 1000 * of_nat n),
      file_possibly_deleted = (\<lambda>err. err = ENOENT),
      data_sync_retry = False\<rparr>"

text \<open>
  No entry on the in-flight queue or the retry queue has failed more than five times
  (the bound \<^verbatim>\<open>RetrySyncRequests\<close> asserts).
\<close>

definition retry_bounded :: "proc \<Rightarrow> bool" where
  "retry_bounded st \<longleftrightarrow>
     (\<forall>x \<in> set (inflightSyncs st) \<union> set (retrySyncs st). if_retry_count x \<le> 5)"

text \<open>
  The part of the state that nothing between the start of the scan and the end of the
  retry loop writes: the two cycle counters, \<open>sync_in_progress\<close>, the exported
  statistics, the settings and the record of unlink calls.
\<close>

definition pass_masked :: "proc \<Rightarrow> proc" where
  "pass_masked st =
     st\<lparr>pendingOps := None, pendingUnlinks := [], inflightSyncs := [], retrySyncs := [],
        absorb_counter := 0, pgsw := None, processed := 0, longest := 0, total_elapsed := 0,
        sync_calls := [], absorb_calls := 0, clock_reads := 0, server_log := []\<rparr>"

text \<open>
  \<open>raises_only F r\<close>: if \<open>r\<close> is a failure, it is one that \<open>F\<close> admits. The failures
  that only \<^verbatim>\<open>ProcessSyncRequests\<close> itself raises (in its prologue, its scan and its
  epilogue) are set apart from those of the functions it calls.
\<close>

definition raises_only :: "(failure \<Rightarrow> bool) \<Rightarrow> result \<Rightarrow> bool" where
  "raises_only F r = (case r of Inl x \<Rightarrow> F (fst x) | Inr s \<Rightarrow> True)"

definition cycle_assertion :: failure where
  "cycle_assertion = AssertFailed ''(CycleCtr) (entry->cycle_ctr + 1) == sync_cycle_ctr''"

definition queues_corrupted :: failure where
  "queues_corrupted = Elog PANIC ''inflight sync requests corrupted''"

definition inner_failure :: "failure \<Rightarrow> bool" where
  "inner_failure f \<longleftrightarrow>
     f \<noteq> cycle_assertion \<and> f \<noteq> queues_corrupted \<and>
     f \<noteq> Elog PANIC ''not implemented right now'' \<and>
     f \<noteq> Elog ERROR ''cannot sync without a pendingOps table''"

text \<open>
  Scenario S1: fsync requests for two files are registered and nothing else happens.
\<close>

definition two_requests :: proc where
  "two_requests =
     checkpointer\<lparr>pendingOps :=
       Some [\<lparr>pf_tag = tag1, pf_cycle_ctr = 0, pf_canceled = False\<rparr>,
             \<lparr>pf_tag = tag2, pf_cycle_ctr = 0, pf_canceled = False\<rparr>]\<rparr>"

text \<open>
  An environment in which the first flush fails at once with \<^verbatim>\<open>ENOENT\<close> and every
  later flush is accepted but its completion stays outstanding.
\<close>

definition stuck_env :: env where
  "stuck_env =
     quiet_env\<lparr>mdsyncfiletag :=
       (\<lambda>n e. if n = 0
               then \<lparr>so_drained = 0, so_inline = True, so_success = False, so_errno = ENOENT\<rparr>
               else \<lparr>so_drained = 0, so_inline = False, so_success = True, so_errno = 0\<rparr>)\<rparr>"

definition one_request :: proc where
  "one_request =
     checkpointer\<lparr>pendingOps :=
       Some [\<lparr>pf_tag = tag1, pf_cycle_ctr = 0, pf_canceled = False\<rparr>]\<rparr>"

text \<open>
  An environment in which every flush fails at once with \<^verbatim>\<open>EIO\<close> (5), and
  \<^verbatim>\<open>data_sync_retry\<close> is on, so that the failure is an \<^verbatim>\<open>ERROR\<close> the process survives.
\<close>

definition failing_env :: env where
  "failing_env =
     quiet_env\<lparr>mdsyncfiletag :=
                 (\<lambda>n e. \<lparr>so_drained = 0, so_inline = True, so_success = False, so_errno = 5\<rparr>),
               data_sync_retry := True\<rparr>"

text \<open>
  The state in which the failed pass of \<open>failing_env\<close> over \<open>one_request\<close> leaves the
  process: the flush of the one file was tried and failed, \<open>sync_in_progress\<close> is
  still set.
\<close>

definition interrupted :: proc where
  "interrupted =
     one_request\<lparr>sync_cycle_ctr := 1, sync_in_progress := True, absorb_counter := 9,
       pgsw := Some [],
       sync_calls :=
         [\<lparr>if_tag = tag1, if_hash_entry = tag1, if_handler_data = 0, if_path = [],
           if_retry_count = 0, if_start_time = 0\<rparr>],
       absorb_calls := 1, clock_reads := 1\<rparr>"

text \<open>
  The entries of the table (none while there is no table), and the two conditions on
  their counters: every entry carries the current \<open>sync_cycle_ctr\<close> (the state between
  passes), or the current one or its predecessor (the state during a scan).
\<close>

definition table :: "proc \<Rightarrow> PendingFsyncEntry list" where
  "table st = (case pendingOps st of None \<Rightarrow> [] | Some ops \<Rightarrow> ops)"

definition all_current :: "proc \<Rightarrow> bool" where
  "all_current st \<longleftrightarrow> (\<forall>e \<in> set (table st). pf_cycle_ctr e = sync_cycle_ctr st)"

definition cycle_ok :: "proc \<Rightarrow> bool" where
  "cycle_ok st \<longleftrightarrow>
     (\<forall>e \<in> set (table st).
        pf_cycle_ctr e = sync_cycle_ctr st \<or> pf_cycle_ctr e + 1 = sync_cycle_ctr st)"

text \<open>
  A state at the start of a scan: a canceled entry and a live one from before the
  pass, and an entry that carries the new \<open>sync_cycle_ctr\<close>.
\<close>

definition scanning :: proc where
  "scanning =
     checkpointer\<lparr>pendingOps :=
       Some [\<lparr>pf_tag = tag1, pf_cycle_ctr = 0, pf_canceled = True\<rparr>,
             \<lparr>pf_tag = tag2, pf_cycle_ctr = 0, pf_canceled = False\<rparr>,
             \<lparr>pf_tag = tag3, pf_cycle_ctr = 1, pf_canceled = False\<rparr>],
       sync_cycle_ctr := 1, sync_in_progress := True, absorb_counter := 10,
       pgsw := Some []\<rparr>"

text \<open>
  The part of the state that neither a completion nor a submission writes.
\<close>

definition flush_masked :: "proc \<Rightarrow> proc" where
  "flush_masked st =
     st\<lparr>pendingOps := None, inflightSyncs := [], retrySyncs := [], pgsw := None,
        processed := 0, longest := 0, total_elapsed := 0, sync_calls := [],
        clock_reads := 0, server_log := []\<rparr>"

text \<open>
  \<open>shrunk T q st\<close>: the table of \<open>st\<close> has only entries of the table \<open>T\<close>, unchanged,
  and the retry queue of \<open>st\<close> starts with \<open>q\<close>.
\<close>

definition shrunk :: "PendingFsyncEntry list \<Rightarrow> InflightSyncEntry list \<Rightarrow> proc \<Rightarrow> bool" where
  "shrunk T q st \<longleftrightarrow>
     (\<forall>t he. hash_find t (table st) = Some he \<longrightarrow> hash_find t T = Some he) \<and>
     (\<exists>new. retrySyncs st = q @ new)"

text \<open>
  Scenario S4: the flush of the file fails at once with \<^verbatim>\<open>ENOENT\<close>, and the absorb of
  the retry phase (the second call of \<^verbatim>\<open>AbsorbSyncRequests\<close> of the pass) finds a
  filter request for the file's database in the queue.
\<close>

definition file_gone_env :: env where
  "file_gone_env =
     quiet_env\<lparr>mdsyncfiletag :=
                 (\<lambda>n e. \<lparr>so_drained = 0, so_inline = True, so_success = False,
                          so_errno = ENOENT\<rparr>),
               absorb_oracle := (\<lambda>n. if n = 1 then [(tag1, SYNC_FILTER_REQUEST)] else [])\<rparr>"


text \<open>
  The state of that pass when the retry loop is entered: the failed flush is on the
  retry queue.
\<close>

definition file_gone_retry :: proc where
  "file_gone_retry =
     one_request\<lparr>sync_cycle_ctr := 1, sync_in_progress := True, absorb_counter := 9,
       pgsw := Some [],
       retrySyncs :=
         [\<lparr>if_tag = tag1, if_hash_entry = tag1, if_handler_data = 0, if_path = [],
           if_retry_count = 1, if_start_time = 0\<rparr>],
       sync_calls :=
         [\<lparr>if_tag = tag1, if_hash_entry = tag1, if_handler_data = 0, if_path = [],
           if_retry_count = 0, if_start_time = 0\<rparr>],
       absorb_calls := 1, clock_reads := 1,
       server_log := [(DEBUG1, ''could not fsync file %s but retrying: %m'')]\<rparr>"

text \<open>
  An entry of the unlink list that was queued before the last \<^verbatim>\<open>SyncPreCheckpoint\<close>, as
  the loop of \<^verbatim>\<open>SyncPostCheckpoint\<close> tests it.
\<close>

definition old_entry :: "proc \<Rightarrow> PendingUnlinkEntry \<Rightarrow> bool" where
  "old_entry st e = (pu_cycle_ctr e \<noteq> checkpoint_cycle_ctr st)"

text \<open>
  The warnings that unlinking the entries \<open>es\<close> in turn writes, when the first of the
  calls is the \<open>n\<close>-th call of an unlink function: one for each call that fails with an
  error other than \<^verbatim>\<open>ENOENT\<close>.
\<close>

fun unlink_warnings :: "env \<Rightarrow> nat \<Rightarrow> PendingUnlinkEntry list \<Rightarrow> (elevel \<times> string) list" where
  "unlink_warnings E n [] = []"
| "unlink_warnings E n (e # es) =
     (case sync_unlinkfiletag (syncsw E (handler (pu_tag e))) of
        None \<Rightarrow> []
      | Some u \<Rightarrow>
          (if fst (u n (pu_tag e)) < 0 \<and> snd (u n (pu_tag e)) \<noteq> ENOENT
           then [(WARNING, ''could not remove file %s: %m'')] else []))
     @ unlink_warnings E (Suc n) es"

text \<open>
  The unlink list after a checkpoint: ten segments of a dropped relation, queued
  before the checkpoint began, and a file of another database queued during it. In
  \<open>unlink_env\<close> the second unlink finds its file gone, the third fails with
  \<^verbatim>\<open>EACCES\<close>, and one more unlink request is waiting in the shared queue.
\<close>

definition dropped_segments :: "PendingUnlinkEntry list" where
  "dropped_segments =
     map (\<lambda>n. \<lparr>pu_tag = tag1\<lparr>segno := n\<rparr>, pu_cycle_ctr = 0\<rparr>) [0, 1, 2, 3, 4, 5, 6, 7, 8, 9]"

definition after_checkpoint :: proc where
  "after_checkpoint =
     checkpointer\<lparr>checkpoint_cycle_ctr := 1,
       pendingUnlinks := dropped_segments @ [\<lparr>pu_tag = tag3, pu_cycle_ctr = 1\<rparr>]\<rparr>"

definition unlink_env :: env where
  "unlink_env =
     quiet_env\<lparr>mdunlinkfiletag :=
                 (\<lambda>n t. if n = 1 then (- 1, ENOENT) else if n = 2 then (- 1, 13) else (0, 0)),
               absorb_oracle :=
                 (\<lambda>n. if n = 0 then [(tag3\<lparr>segno := 1\<rparr>, SYNC_UNLINK_REQUEST)] else [])\<rparr>"

text \<open>
  The same list when an eleventh old entry is a file of the other database, and that
  database is dropped while the list is walked: the filter request is in the shared
  queue at the first absorb.
\<close>

definition before_purge :: proc where
  "before_purge =
     checkpointer\<lparr>checkpoint_cycle_ctr := 1,
       pendingUnlinks := dropped_segments @ [\<lparr>pu_tag = tag3, pu_cycle_ctr = 0\<rparr>]\<rparr>"

definition purge_env :: env where
  "purge_env =
     quiet_env\<lparr>absorb_oracle := (\<lambda>n. if n = 0 then [(tag3, SYNC_FILTER_REQUEST)] else [])\<rparr>"


section \<open>pgstat_send_bgwriter (pgstat_global.c)\<close>

text \<open>
  The message structures are declared in pgstat.h, which is not among the sources:
  \<^verbatim>\<open>PgStat_MsgHdr\<close> is the message type and the size, \<^verbatim>\<open>PgStat_MsgBgWriter\<close> is
  the header and the three counters of the background writer (\<^verbatim>\<open>PgStat_Counter\<close> is
  \<^verbatim>\<open>int64\<close>).
\<close>

record PgStat_MsgHdr =
  m_type :: nat
  m_size :: nat

record PgStat_MsgBgWriter =
  m_hdr :: PgStat_MsgHdr
  m_buf_written_clean :: "64 word"
  m_maxwritten_clean :: "64 word"
  m_buf_alloc :: "64 word"

text \<open>
  The part of the process state that \<^verbatim>\<open>pgstat_send_bgwriter\<close> reads and writes: the
  global \<^verbatim>\<open>PendingBgWriterStats\<close>, whether the statistics system is up (what
  \<^verbatim>\<open>pgstat_assert_is_up\<close> asserts), and the messages handed to \<^verbatim>\<open>pgstat_send\<close>, in
  order, each as it was at the call.
\<close>

record pgstat =
  PendingBgWriterStats :: PgStat_MsgBgWriter
  pgstat_is_up :: bool
  pgstat_send_calls :: "PgStat_MsgBgWriter list"

text \<open>
  What pgstat.h and pgstat.c provide, as parameters: the number of the message type,
  and \<^verbatim>\<open>pgstat_setheader\<close>, which is given the type and a pointer to the header alone.
\<close>

record pgstat_ops =
  PGSTAT_MTYPE_BGWRITER :: nat
  pgstat_setheader :: "nat \<Rightarrow> PgStat_MsgHdr \<Rightarrow> PgStat_MsgHdr"

text \<open>\<^verbatim>\<open>static const PgStat_MsgBgWriter all_zeroes\<close>: static storage, so every field is 0.\<close>

definition all_zeroes :: PgStat_MsgBgWriter where
  "all_zeroes =
     \<lparr>m_hdr = \<lparr>m_type = 0, m_size = 0\<rparr>, m_buf_written_clean = 0, m_maxwritten_clean = 0,
      m_buf_alloc = 0\<rparr>"

text \<open>
  \<^verbatim>\<open>memcmp\<close> over the whole structure is the equality of all fields, the header's
  included. The header is set in place, \<^verbatim>\<open>pgstat_send\<close> is given the pointer to the
  global, and \<^verbatim>\<open>MemSet\<close> then clears the global.
\<close>

definition pgstat_send_bgwriter :: "pgstat_ops \<Rightarrow> pgstat \<Rightarrow> (failure \<times> pgstat) + pgstat" where
  "pgstat_send_bgwriter P st =
     (if \<not> pgstat_is_up st then Inl (AssertFailed ''pgstat_assert_is_up'', st)
      else if PendingBgWriterStats st = all_zeroes then Inr st
      else
        (let st1 = st\<lparr>PendingBgWriterStats :=
                        (PendingBgWriterStats st)\<lparr>m_hdr :=
                           pgstat_setheader P (PGSTAT_MTYPE_BGWRITER P)
                             (m_hdr (PendingBgWriterStats st))\<rparr>\<rparr>;
             st2 = st1\<lparr>pgstat_send_calls := pgstat_send_calls st1 @ [PendingBgWriterStats st1]\<rparr>
         in Inr (st2\<lparr>PendingBgWriterStats := all_zeroes\<rparr>)))"

text \<open>
  The background writer after it has allocated seven buffers and cleaned two, and the
  header functions of pgstat.c with 4 for the message type.
\<close>

definition bgwriter_busy :: pgstat where
  "bgwriter_busy =
     \<lparr>PendingBgWriterStats = all_zeroes\<lparr>m_buf_written_clean := 2, m_buf_alloc := 7\<rparr>,
      pgstat_is_up = True, pgstat_send_calls = []\<rparr>"

definition pgstat_c :: pgstat_ops where
  "pgstat_c = \<lparr>PGSTAT_MTYPE_BGWRITER = 4, pgstat_setheader = (\<lambda>mtype hdr. hdr\<lparr>m_type := mtype\<rparr>)\<rparr>"

text \<open>
  \<open>tracked ts st\<close>, during a pass: the table has one entry per tag, and every entry
  that does not carry the current \<open>sync_cycle_ctr\<close> is still to be visited by the scan
  (its tag is in \<open>ts\<close>), or in flight, or waiting for a retry.
\<close>

definition tracked :: "FileTag list \<Rightarrow> proc \<Rightarrow> bool" where
  "tracked ts st \<longleftrightarrow>
     distinct (map pf_tag (table st)) \<and>
     (\<forall>e \<in> set (table st).
        pf_cycle_ctr e = sync_cycle_ctr st \<or> pf_tag e \<in> set ts \<or>
        pf_tag e \<in> if_hash_entry ` set (inflightSyncs st) \<or>
        pf_tag e \<in> if_hash_entry ` set (retrySyncs st))"

text \<open>
  What holds of the state between the calls of the functions of sync.c: a pass has
  failed, or the table has one entry per tag and every entry carries the current
  \<open>sync_cycle_ctr\<close>.
\<close>

definition settled :: "proc \<Rightarrow> bool" where
  "settled st \<longleftrightarrow>
     sync_in_progress st \<or> (all_current st \<and> distinct (map pf_tag (table st)))"


text \<open>
  \<open>accounted base ts st\<close>, during a scan that began with the calls \<open>base\<close> made: the
  table has one entry per tag, and every entry that does not carry the current
  \<open>sync_cycle_ctr\<close> is still to be visited (its tag is in \<open>ts\<close>) or has been submitted
  since: a call of a handler's sync function was made for it.
\<close>

definition accounted :: "InflightSyncEntry list \<Rightarrow> FileTag list \<Rightarrow> proc \<Rightarrow> bool" where
  "accounted base ts st \<longleftrightarrow>
     distinct (map pf_tag (table st)) \<and>
     (\<exists>cs. sync_calls st = base @ cs \<and>
        (\<forall>e \<in> set (table st).
           pf_cycle_ctr e = sync_cycle_ctr st \<or> pf_tag e \<in> set ts \<or>
           pf_tag e \<in> if_hash_entry ` set cs))"

section \<open>Basic facts\<close>

lemma and_then_Inr_iff:
  "and_then r k = Inr s \<longleftrightarrow> (\<exists>m. r = Inr m \<and> k m = Inr s)"
  by (cases r) auto

lemma remove_matching_eq:
  "remove_matching E ftag us = Some us' \<Longrightarrow>
     us' = filter (\<lambda>e. filter_matches E ftag (pu_tag e) = Some False) us"
  by (induction us arbitrary: us') (auto split: option.splits if_splits)

lemma cancel_matching_eq:
  "cancel_matching E ftag ops = Some ops' \<Longrightarrow>
     ops' = map (\<lambda>e. if filter_matches E ftag (pf_tag e) = Some True
                      then e\<lparr>pf_canceled := True\<rparr> else e) ops"
  by (induction ops arbitrary: ops') (auto split: option.splits if_splits)

definition requests_masked :: "proc \<Rightarrow> proc" where
  "requests_masked st = st\<lparr>pendingOps := None, pendingUnlinks := [], absorb_calls := 0\<rparr>"

lemma requests_masked_fields:
  assumes "requests_masked st' = requests_masked st"
  shows "inflightSyncs st' = inflightSyncs st" "retrySyncs st' = retrySyncs st"
    "sync_cycle_ctr st' = sync_cycle_ctr st" "checkpoint_cycle_ctr st' = checkpoint_cycle_ctr st"
    "sync_in_progress st' = sync_in_progress st" "absorb_counter st' = absorb_counter st"
    "pgsw st' = pgsw st" "processed st' = processed st" "longest st' = longest st"
    "total_elapsed st' = total_elapsed st" "ckpt_sync_rels st' = ckpt_sync_rels st"
    "ckpt_longest_sync st' = ckpt_longest_sync st" "ckpt_agg_sync_time st' = ckpt_agg_sync_time st"
    "enableFsync st' = enableFsync st" "log_checkpoints st' = log_checkpoints st"
    "sync_calls st' = sync_calls st" "unlink_calls st' = unlink_calls st"
    "clock_reads st' = clock_reads st" "server_log st' = server_log st"
proof -
  note eq = arg_cong [OF assms]
  show "inflightSyncs st' = inflightSyncs st"
    using eq [of inflightSyncs] by (simp add: requests_masked_def)
  show "retrySyncs st' = retrySyncs st"
    using eq [of retrySyncs] by (simp add: requests_masked_def)
  show "sync_cycle_ctr st' = sync_cycle_ctr st"
    using eq [of sync_cycle_ctr] by (simp add: requests_masked_def)
  show "checkpoint_cycle_ctr st' = checkpoint_cycle_ctr st"
    using eq [of checkpoint_cycle_ctr] by (simp add: requests_masked_def)
  show "sync_in_progress st' = sync_in_progress st"
    using eq [of sync_in_progress] by (simp add: requests_masked_def)
  show "absorb_counter st' = absorb_counter st"
    using eq [of absorb_counter] by (simp add: requests_masked_def)
  show "pgsw st' = pgsw st"
    using eq [of pgsw] by (simp add: requests_masked_def)
  show "processed st' = processed st"
    using eq [of processed] by (simp add: requests_masked_def)
  show "longest st' = longest st"
    using eq [of longest] by (simp add: requests_masked_def)
  show "total_elapsed st' = total_elapsed st"
    using eq [of total_elapsed] by (simp add: requests_masked_def)
  show "ckpt_sync_rels st' = ckpt_sync_rels st"
    using eq [of ckpt_sync_rels] by (simp add: requests_masked_def)
  show "ckpt_longest_sync st' = ckpt_longest_sync st"
    using eq [of ckpt_longest_sync] by (simp add: requests_masked_def)
  show "ckpt_agg_sync_time st' = ckpt_agg_sync_time st"
    using eq [of ckpt_agg_sync_time] by (simp add: requests_masked_def)
  show "enableFsync st' = enableFsync st"
    using eq [of enableFsync] by (simp add: requests_masked_def)
  show "log_checkpoints st' = log_checkpoints st"
    using eq [of log_checkpoints] by (simp add: requests_masked_def)
  show "sync_calls st' = sync_calls st"
    using eq [of sync_calls] by (simp add: requests_masked_def)
  show "unlink_calls st' = unlink_calls st"
    using eq [of unlink_calls] by (simp add: requests_masked_def)
  show "clock_reads st' = clock_reads st"
    using eq [of clock_reads] by (simp add: requests_masked_def)
  show "server_log st' = server_log st"
    using eq [of server_log] by (simp add: requests_masked_def)
qed

lemma RememberSyncRequest_masked:
  "requests_masked (state_of (RememberSyncRequest E ftag ty st)) = requests_masked st"
  unfolding RememberSyncRequest_def requests_masked_def
  by (simp split: option.splits SyncRequestType.splits)

lemma RememberSyncRequest_absorb_calls:
  "absorb_calls (state_of (RememberSyncRequest E ftag ty st)) = absorb_calls st"
  unfolding RememberSyncRequest_def
  by (simp split: option.splits SyncRequestType.splits)

lemma RememberSyncRequest_Some:
  "RememberSyncRequest E ftag ty st = Inr st' \<Longrightarrow> \<exists>ops. pendingOps st' = Some ops"
  unfolding RememberSyncRequest_def
  by (auto split: option.splits SyncRequestType.splits if_splits)

definition stale_unlinks :: "proc \<Rightarrow> nat" where
  "stale_unlinks st =
     length (filter (\<lambda>e. pu_cycle_ctr e \<noteq> checkpoint_cycle_ctr st) (pendingUnlinks st))"

lemma length_filter_conj_le:
  "length (filter (\<lambda>x. Q x \<and> P x) xs) \<le> length (filter P xs)"
  by (induction xs) auto

lemma RememberSyncRequest_stale:
  "RememberSyncRequest E ftag ty st = Inr st' \<Longrightarrow> stale_unlinks st' \<le> stale_unlinks st"
  unfolding RememberSyncRequest_def stale_unlinks_def
  by (auto split: option.splits SyncRequestType.splits if_splits
           dest!: remove_matching_eq simp: length_filter_conj_le)

lemma remember_all_masked:
  "requests_masked (state_of (remember_all E rs st)) = requests_masked st"
proof (induction rs arbitrary: st)
  case Nil
  then show ?case by simp
next
  case (Cons r rs)
  show ?case
  proof (cases "RememberSyncRequest E (fst r) (snd r) st")
    case (Inl f)
    then show ?thesis
      using RememberSyncRequest_masked [of E "fst r" "snd r" st] by simp
  next
    case (Inr s)
    then show ?thesis
      using RememberSyncRequest_masked [of E "fst r" "snd r" st] Cons.IH [of s] by simp
  qed
qed

lemma remember_all_stale:
  "remember_all E rs st = Inr st' \<Longrightarrow> stale_unlinks st' \<le> stale_unlinks st"
proof (induction rs arbitrary: st)
  case Nil
  then show ?case by simp
next
  case (Cons r rs)
  then obtain s where s: "RememberSyncRequest E (fst r) (snd r) st = Inr s"
    and r: "remember_all E rs s = Inr st'"
    by (auto simp: and_then_Inr_iff)
  from Cons.IH [OF r] RememberSyncRequest_stale [OF s] show ?case by simp
qed

lemma AbsorbSyncRequests_masked:
  "requests_masked (state_of (AbsorbSyncRequests E st)) = requests_masked st"
  unfolding AbsorbSyncRequests_def
  using remember_all_masked [of E "absorb_oracle E (absorb_calls st)" "st\<lparr>absorb_calls := absorb_calls st + 1\<rparr>"]
  by (simp add: requests_masked_def)

lemma AbsorbSyncRequests_stale:
  "AbsorbSyncRequests E st = Inr st' \<Longrightarrow> stale_unlinks st' \<le> stale_unlinks st"
  unfolding AbsorbSyncRequests_def
  by (drule remember_all_stale) (simp add: stale_unlinks_def)

lemma unlink_one_stale:
  assumes "unlink_one E c entry st = Inr st'" "pendingUnlinks st = entry # rest"
    "pu_cycle_ctr entry \<noteq> checkpoint_cycle_ctr st"
  shows "stale_unlinks st' < stale_unlinks st"
proof -
  obtain u where u: "sync_unlinkfiletag (syncsw E (handler (pu_tag entry))) = Some u"
    using assms(1) by (auto simp: unlink_one_def split: option.splits)
  define s3 where "s3 = (let r = u (length (unlink_calls st)) (pu_tag entry);
               st1 = st\<lparr>unlink_calls := unlink_calls st @ [pu_tag entry]\<rparr>;
               st2 = (if fst r < 0 \<and> snd r \<noteq> ENOENT
                      then st1\<lparr>server_log := server_log st1 @
                             [(WARNING, ''could not remove file %s: %m'')]\<rparr>
                      else st1)
           in st2\<lparr>pendingUnlinks := tl (pendingUnlinks st2)\<rparr>)"
  have s3: "stale_unlinks s3 < stale_unlinks st"
    using assms(2,3) by (simp add: s3_def stale_unlinks_def Let_def)
  have "st' = s3 \<or> AbsorbSyncRequests E s3 = Inr st'"
    using assms(1) u by (auto simp: unlink_one_def s3_def Let_def split: if_splits)
  then show ?thesis
    using s3 AbsorbSyncRequests_stale [of E s3 st'] by auto
qed

termination unlink_loop
  by (relation "measure (\<lambda>(E, c, st). stale_unlinks st)") (auto intro: unlink_one_stale)

declare unlink_loop.simps [simp del]

definition tries_left :: "InflightSyncEntry \<Rightarrow> nat" where
  "tries_left e = (if if_retry_count e > 0 then 0 else 1)"

definition retry_weight :: "proc \<Rightarrow> nat" where
  "retry_weight st =
     sum_list (map (\<lambda>e. 2 * tries_left e + 2) (retrySyncs st)) +
     (case pgsw st of
        None \<Rightarrow> 0
      | Some ios \<Rightarrow> sum_list (map (\<lambda>io. 2 * tries_left (fst io) + 1) ios))"

lemma SyncRequestCompleted_weight:
  "SyncRequestCompleted E e ok err st = Inr st' \<Longrightarrow>
     retry_weight st' \<le> retry_weight st + 2 * tries_left e"
  unfolding SyncRequestCompleted_def retry_weight_def
  by (auto simp: Let_def tries_left_def split: if_splits option.splits)

lemma complete_ios_weight:
  "complete_ios E n st = Inr st' \<Longrightarrow> retry_weight st' \<le> retry_weight st"
proof (induction n arbitrary: st)
  case 0
  then show ?case by simp
next
  case (Suc n)
  show ?case
  proof (cases "pgsw st")
    case None
    with Suc.prems show ?thesis by simp
  next
    case (Some ios)
    show ?thesis
    proof (cases ios)
      case Nil
      with Some Suc.prems show ?thesis by simp
    next
      case (Cons io ios')
      with Some Suc.prems obtain s where
        s: "SyncRequestCompleted E (fst io) (fst (snd io)) (snd (snd io)) (st\<lparr>pgsw := Some ios'\<rparr>) = Inr s"
        and r: "complete_ios E n s = Inr st'"
        by (auto simp: and_then_Inr_iff)
      have "retry_weight (st\<lparr>pgsw := Some ios'\<rparr>) + 2 * tries_left (fst io) + 1 = retry_weight st"
        using Some Cons by (simp add: retry_weight_def)
      with SyncRequestCompleted_weight [OF s] Suc.IH [OF r] show ?thesis by simp
    qed
  qed
qed

lemma finish_submission_weight:
  "finish_submission E e out st = Inr st' \<Longrightarrow>
     retry_weight st' \<le> retry_weight st + 2 * tries_left e + 1"
  using SyncRequestCompleted_weight [of E e "so_success out" "so_errno out" st st']
  by (auto simp: finish_submission_def retry_weight_def split: if_splits option.splits)

lemma run_sync_handler_weight:
  assumes "run_sync_handler E f e st = Inr st'"
  shows "retry_weight st' \<le> retry_weight st + 2 * tries_left e + 1"
proof -
  obtain out s where s: "complete_ios E (so_drained out) (st\<lparr>sync_calls := sync_calls st @ [e]\<rparr>) = Inr s"
    and r: "finish_submission E e out s = Inr st'"
    using assms by (auto simp: run_sync_handler_def Let_def and_then_Inr_iff)
  have "retry_weight s \<le> retry_weight st"
    using complete_ios_weight [OF s] by (simp add: retry_weight_def)
  with finish_submission_weight [OF r] show ?thesis by simp
qed

lemma call_syncfiletag_weight:
  assumes "call_syncfiletag E e st = Inr st'"
  shows "retry_weight st' \<le> retry_weight st + 2 * tries_left e + 1"
proof -
  define e' where "e' = e\<lparr>if_start_time := clock E (clock_reads st)\<rparr>"
  obtain f where "run_sync_handler E f e'
      (st\<lparr>inflightSyncs := inflightSyncs st @ [e'], clock_reads := clock_reads st + 1\<rparr>) = Inr st'"
    using assms by (auto simp: call_syncfiletag_def Let_def e'_def split: option.splits)
  from run_sync_handler_weight [OF this] show ?thesis
    by (simp add: retry_weight_def e'_def tries_left_def)
qed

lemma retry_one_weight:
  assumes "retry_one E e st = Inr st'"
  shows "retry_weight st' \<le> retry_weight st + 2 * tries_left e + 1"
  using assms call_syncfiletag_weight [of E e st st']
  by (auto simp: retry_one_def retry_weight_def split: option.splits if_splits)

termination retry_loop
proof (relation "measure (\<lambda>(E, st). retry_weight st)", goal_cases)
  case 1
  then show ?case by simp
next
  case (2 E st e rest st')
  have "retry_weight (st\<lparr>retrySyncs := rest\<rparr>) + 2 * tries_left e + 2 = retry_weight st"
    using 2(1) by (simp add: retry_weight_def)
  with retry_one_weight [OF 2(2)] show ?case by simp
qed

declare retry_loop.simps [simp del]

declare retry_bank.simps [simp del]

lemma hash_find_Some_tag: "hash_find t ops = Some e \<Longrightarrow> pf_tag e = t \<and> e \<in> set ops"
  unfolding hash_find_def by (induction ops) (auto split: if_splits)

lemma hash_find_None_iff: "hash_find t ops = None \<longleftrightarrow> t \<notin> pf_tag ` set ops"
  unfolding hash_find_def by (induction ops) auto

lemma hash_find_append:
  "hash_find t (ops @ ys) = (case hash_find t ops of None \<Rightarrow> hash_find t ys | Some e \<Rightarrow> Some e)"
  unfolding hash_find_def by (induction ops) auto

lemma hash_find_store_same:
  "hash_find (pf_tag e) ops = Some x \<Longrightarrow> hash_find (pf_tag e) (hash_store e ops) = Some e"
  unfolding hash_find_def hash_store_def by (induction ops) (auto split: if_splits)

lemma hash_find_store_other:
  "t \<noteq> pf_tag e \<Longrightarrow> hash_find t (hash_store e ops) = hash_find t ops"
  unfolding hash_find_def hash_store_def by (induction ops) auto

lemma map_tag_store: "map pf_tag (hash_store e ops) = map pf_tag ops"
  unfolding hash_store_def by (induction ops) auto

lemma hash_store_distinct:
  "distinct (map pf_tag ops) \<Longrightarrow> hash_find t ops = Some x \<Longrightarrow> pf_tag e = t \<Longrightarrow>
     hash_store e ops = map (\<lambda>y. if pf_tag y = t then e else y) ops"
  unfolding hash_store_def by simp

lemma hash_find_distinct_eq:
  "distinct (map pf_tag ops) \<Longrightarrow> hash_find t ops = Some x \<Longrightarrow> y \<in> set ops \<Longrightarrow> pf_tag y = t \<Longrightarrow> y = x"
  unfolding hash_find_def by (induction ops) (auto split: if_splits simp: rev_image_eqI)

lemma count_tag_distinct:
  "distinct (map pf_tag ops) \<Longrightarrow> t \<in> pf_tag ` set ops \<Longrightarrow>
     length (filter (\<lambda>x. pf_tag x = t) ops) = 1"
  by (induction ops) (auto simp: filter_empty_conv rev_image_eqI)

section \<open>Fsync requests are deduplicated\<close>

text \<open>
  C2. \<^verbatim>\<open>RememberSyncRequest\<close> with \<^verbatim>\<open>SYNC_REQUEST\<close>, on a table with one entry per tag:
  it always succeeds and changes nothing but the table; afterwards the table still has
  one entry per tag and exactly one for the requested tag, and the entries of all other
  tags are as before. If the tag had an entry that was not canceled, the table is
  unchanged (the entry keeps its earlier \<open>cycle_ctr\<close>). If the tag had no entry, or a
  canceled one, its entry now carries the current \<open>sync_cycle_ctr\<close> and
  \<open>canceled = false\<close>. And a \<^verbatim>\<open>SYNC_FORGET_REQUEST\<close> followed by a new \<^verbatim>\<open>SYNC_REQUEST\<close>
  for the same tag (whatever happened to the other globals in between) leaves an entry
  with the \<open>sync_cycle_ctr\<close> of the new request and \<open>canceled = false\<close>.
\<close>

theorem RememberSyncRequest_fsync_dedup:
  assumes tbl: "pendingOps st = Some ops" and dist: "distinct (map pf_tag ops)"
  shows "\<exists>ops'. RememberSyncRequest E ftag SYNC_REQUEST st = Inr (st\<lparr>pendingOps := Some ops'\<rparr>) \<and>
           distinct (map pf_tag ops') \<and>
           length (filter (\<lambda>x. pf_tag x = ftag) ops') = 1 \<and>
           (\<forall>t. t \<noteq> ftag \<longrightarrow> hash_find t ops' = hash_find t ops) \<and>
           (case hash_find ftag ops of
              Some e \<Rightarrow>
                if pf_canceled e
                then hash_find ftag ops' =
                       Some \<lparr>pf_tag = ftag, pf_cycle_ctr = sync_cycle_ctr st, pf_canceled = False\<rparr>
                else ops' = ops \<and> hash_find ftag ops' = Some e
            | None \<Rightarrow>
                hash_find ftag ops' =
                  Some \<lparr>pf_tag = ftag, pf_cycle_ctr = sync_cycle_ctr st, pf_canceled = False\<rparr>) \<and>
           (\<forall>s1 s2. RememberSyncRequest E ftag SYNC_FORGET_REQUEST st = Inr s1 \<longrightarrow>
              pendingOps s2 = pendingOps s1 \<longrightarrow>
              (\<exists>s3 ops3. RememberSyncRequest E ftag SYNC_REQUEST s2 = Inr s3 \<and>
                 pendingOps s3 = Some ops3 \<and>
                 hash_find ftag ops3 =
                   Some \<lparr>pf_tag = ftag, pf_cycle_ctr = sync_cycle_ctr s2, pf_canceled = False\<rparr>))"
proof (cases "hash_find ftag ops")
  case None
  then have notin: "ftag \<notin> pf_tag ` set ops" by (simp add: hash_find_None_iff)
  let ?n = "\<lparr>pf_tag = ftag, pf_cycle_ctr = sync_cycle_ctr st, pf_canceled = False\<rparr>"
  have 1: "RememberSyncRequest E ftag SYNC_REQUEST st = Inr (st\<lparr>pendingOps := Some (ops @ [?n])\<rparr>)"
    using tbl None by (simp add: RememberSyncRequest_def)
  have 2: "distinct (map pf_tag (ops @ [?n]))" using dist notin by simp
  have 3: "length (filter (\<lambda>x. pf_tag x = ftag) (ops @ [?n])) = 1"
    using notin by (auto simp: filter_empty_conv)
  have 4: "\<forall>t. t \<noteq> ftag \<longrightarrow> hash_find t (ops @ [?n]) = hash_find t ops"
    by (simp add: hash_find_append split: option.splits) (simp add: hash_find_def)
  have 5: "hash_find ftag (ops @ [?n]) = Some ?n"
    using None by (simp add: hash_find_append) (simp add: hash_find_def)
  have 6: "\<forall>s1 s2. RememberSyncRequest E ftag SYNC_FORGET_REQUEST st = Inr s1 \<longrightarrow>
              pendingOps s2 = pendingOps s1 \<longrightarrow>
              (\<exists>s3 ops3. RememberSyncRequest E ftag SYNC_REQUEST s2 = Inr s3 \<and>
                 pendingOps s3 = Some ops3 \<and>
                 hash_find ftag ops3 =
                   Some \<lparr>pf_tag = ftag, pf_cycle_ctr = sync_cycle_ctr s2, pf_canceled = False\<rparr>)"
    using tbl None
    by (auto simp: RememberSyncRequest_def hash_find_append) (simp add: hash_find_def)
  from 1 2 3 4 5 6 None show ?thesis by (intro exI [of _ "ops @ [?n]"]) simp
next
  case (Some e)
  then have e: "pf_tag e = ftag" "e \<in> set ops" using hash_find_Some_tag by auto
  have cnt: "length (filter (\<lambda>x. pf_tag x = ftag) ops) = 1"
    using count_tag_distinct [OF dist, of ftag] e by auto
  have 6: "\<forall>s1 s2. RememberSyncRequest E ftag SYNC_FORGET_REQUEST st = Inr s1 \<longrightarrow>
              pendingOps s2 = pendingOps s1 \<longrightarrow>
              (\<exists>s3 ops3. RememberSyncRequest E ftag SYNC_REQUEST s2 = Inr s3 \<and>
                 pendingOps s3 = Some ops3 \<and>
                 hash_find ftag ops3 =
                   Some \<lparr>pf_tag = ftag, pf_cycle_ctr = sync_cycle_ctr s2, pf_canceled = False\<rparr>)"
  proof (intro allI impI)
    fix s1 s2 :: proc
    assume f: "RememberSyncRequest E ftag SYNC_FORGET_REQUEST st = Inr s1"
      and eq: "pendingOps s2 = pendingOps s1"
    let ?c = "e\<lparr>pf_canceled := True\<rparr>"
    have s1: "pendingOps s1 = Some (hash_store ?c ops)"
      using f tbl Some by (auto simp: RememberSyncRequest_def)
    have fc: "hash_find ftag (hash_store ?c ops) = Some ?c"
      using hash_find_store_same [of ?c ops e] Some e by simp
    let ?n = "?c\<lparr>pf_cycle_ctr := sync_cycle_ctr s2, pf_canceled := False\<rparr>"
    have r: "RememberSyncRequest E ftag SYNC_REQUEST s2 =
               Inr (s2\<lparr>pendingOps := Some (hash_store ?n (hash_store ?c ops))\<rparr>)"
      using eq s1 fc by (simp add: RememberSyncRequest_def)
    have "hash_find ftag (hash_store ?n (hash_store ?c ops)) = Some ?n"
      using hash_find_store_same [of ?n "hash_store ?c ops" ?c] fc e by simp
    moreover have "?n = \<lparr>pf_tag = ftag, pf_cycle_ctr = sync_cycle_ctr s2, pf_canceled = False\<rparr>"
      using e by simp
    ultimately show "\<exists>s3 ops3. RememberSyncRequest E ftag SYNC_REQUEST s2 = Inr s3 \<and>
                 pendingOps s3 = Some ops3 \<and>
                 hash_find ftag ops3 =
                   Some \<lparr>pf_tag = ftag, pf_cycle_ctr = sync_cycle_ctr s2, pf_canceled = False\<rparr>"
      using r by simp
  qed
  show ?thesis
  proof (cases "pf_canceled e")
    case False
    have 1: "RememberSyncRequest E ftag SYNC_REQUEST st = Inr (st\<lparr>pendingOps := Some ops\<rparr>)"
      using tbl Some False by (simp add: RememberSyncRequest_def)
    from 1 dist cnt Some False 6 show ?thesis by (intro exI [of _ ops]) simp
  next
    case True
    let ?n = "e\<lparr>pf_cycle_ctr := sync_cycle_ctr st, pf_canceled := False\<rparr>"
    have 1: "RememberSyncRequest E ftag SYNC_REQUEST st = Inr (st\<lparr>pendingOps := Some (hash_store ?n ops)\<rparr>)"
      using tbl Some True by (simp add: RememberSyncRequest_def)
    have 2: "distinct (map pf_tag (hash_store ?n ops))" using dist by (simp add: map_tag_store)
    have 5: "hash_find ftag (hash_store ?n ops) = Some ?n"
      using hash_find_store_same [of ?n ops e] Some e by simp
    have 3: "length (filter (\<lambda>x. pf_tag x = ftag) (hash_store ?n ops)) = 1"
    proof (rule count_tag_distinct [OF 2])
      show "ftag \<in> pf_tag ` set (hash_store ?n ops)"
        using e by (metis image_set map_tag_store rev_image_eqI)
    qed
    have 4: "\<forall>t. t \<noteq> ftag \<longrightarrow> hash_find t (hash_store ?n ops) = hash_find t ops"
      using e by (simp add: hash_find_store_other)
    have n: "?n = \<lparr>pf_tag = ftag, pf_cycle_ctr = sync_cycle_ctr st, pf_canceled = False\<rparr>"
      using e by simp
    from 1 2 3 4 5 6 Some True n show ?thesis
      by (intro exI [of _ "hash_store ?n ops"]) simp
  qed
qed


theorem RememberSyncRequest_fsync_dedup_witness:
  "pendingOps (checkpointer\<lparr>pendingOps := Some [\<lparr>pf_tag = tag1, pf_cycle_ctr = 5, pf_canceled = False\<rparr>],
                            sync_cycle_ctr := 6\<rparr>) =
     Some [\<lparr>pf_tag = tag1, pf_cycle_ctr = 5, pf_canceled = False\<rparr>] \<and>
   distinct (map pf_tag [\<lparr>pf_tag = tag1, pf_cycle_ctr = 5, pf_canceled = False\<rparr>]) \<and>
   (\<exists>s. RememberSyncRequest quiet_env tag1 SYNC_REQUEST
          (checkpointer\<lparr>pendingOps := Some [\<lparr>pf_tag = tag1, pf_cycle_ctr = 5, pf_canceled = False\<rparr>],
                         sync_cycle_ctr := 6\<rparr>) = Inr s \<and>
        pendingOps s = Some [\<lparr>pf_tag = tag1, pf_cycle_ctr = 5, pf_canceled = False\<rparr>])"
  using RememberSyncRequest_fsync_dedup
    [of "checkpointer\<lparr>pendingOps := Some [\<lparr>pf_tag = tag1, pf_cycle_ctr = 5, pf_canceled = False\<rparr>],
                       sync_cycle_ctr := 6\<rparr>"
        "[\<lparr>pf_tag = tag1, pf_cycle_ctr = 5, pf_canceled = False\<rparr>]" quiet_env tag1]
  by (auto simp: hash_find_def)

lemma cancel_matching_Some:
  "sync_filetagmatches (syncsw E (handler ftag)) = Some m \<Longrightarrow>
     cancel_matching E ftag ops =
       Some (map (\<lambda>x. if handler (pf_tag x) = handler ftag \<and> m ftag (pf_tag x)
                        then x\<lparr>pf_canceled := True\<rparr> else x) ops)"
  by (induction ops) (auto simp: filter_matches_def)

lemma remove_matching_Some:
  "sync_filetagmatches (syncsw E (handler ftag)) = Some m \<Longrightarrow>
     remove_matching E ftag us =
       Some (filter (\<lambda>u. \<not> (handler (pu_tag u) = handler ftag \<and> m ftag (pu_tag u))) us)"
  by (induction us) (auto simp: filter_matches_def)

section \<open>The cancel requests\<close>

text \<open>
  C7. On a table with one entry per tag, \<^verbatim>\<open>SYNC_FORGET_REQUEST\<close> succeeds and changes
  nothing but the \<open>canceled\<close> flag of the entry of the given tag, which it sets; when
  the tag has no entry the state is unchanged. \<^verbatim>\<open>SYNC_FILTER_REQUEST\<close>, for a handler
  that has a matches function \<open>m\<close>, succeeds, sets \<open>canceled\<close> on exactly the table
  entries of the same handler that \<open>m\<close> matches and leaves every entry in the table,
  removes exactly the matching entries of the pending-unlinks list, and changes nothing
  else.
\<close>

theorem RememberSyncRequest_cancel:
  assumes tbl: "pendingOps st = Some ops" and dist: "distinct (map pf_tag ops)"
  shows "RememberSyncRequest E ftag SYNC_FORGET_REQUEST st =
           Inr (st\<lparr>pendingOps :=
                     Some (map (\<lambda>x. if pf_tag x = ftag then x\<lparr>pf_canceled := True\<rparr> else x) ops)\<rparr>) \<and>
         (ftag \<notin> pf_tag ` set ops \<longrightarrow>
            RememberSyncRequest E ftag SYNC_FORGET_REQUEST st = Inr st) \<and>
         (\<forall>m. sync_filetagmatches (syncsw E (handler ftag)) = Some m \<longrightarrow>
            RememberSyncRequest E ftag SYNC_FILTER_REQUEST st =
              Inr (st\<lparr>pendingOps :=
                        Some (map (\<lambda>x. if handler (pf_tag x) = handler ftag \<and> m ftag (pf_tag x)
                                         then x\<lparr>pf_canceled := True\<rparr> else x) ops),
                      pendingUnlinks :=
                        filter (\<lambda>u. \<not> (handler (pu_tag u) = handler ftag \<and> m ftag (pu_tag u)))
                          (pendingUnlinks st)\<rparr>))"
proof (intro conjI allI impI)
  show "RememberSyncRequest E ftag SYNC_FORGET_REQUEST st =
           Inr (st\<lparr>pendingOps :=
                     Some (map (\<lambda>x. if pf_tag x = ftag then x\<lparr>pf_canceled := True\<rparr> else x) ops)\<rparr>)"
  proof (cases "hash_find ftag ops")
    case None
    then have "\<forall>x\<in>set ops. pf_tag x \<noteq> ftag" by (auto simp: hash_find_None_iff)
    then have "map (\<lambda>x. if pf_tag x = ftag then x\<lparr>pf_canceled := True\<rparr> else x) ops = ops"
      by (simp add: map_idI)
    with tbl None show ?thesis by (simp add: RememberSyncRequest_def)
  next
    case (Some e)
    have "hash_store (e\<lparr>pf_canceled := True\<rparr>) ops =
            map (\<lambda>x. if pf_tag x = ftag then x\<lparr>pf_canceled := True\<rparr> else x) ops"
      unfolding hash_store_def
      using hash_find_distinct_eq [OF dist Some] hash_find_Some_tag [OF Some] by auto
    with tbl Some show ?thesis by (simp add: RememberSyncRequest_def)
  qed
next
  assume "ftag \<notin> pf_tag ` set ops"
  then have "hash_find ftag ops = None" by (simp add: hash_find_None_iff)
  with tbl show "RememberSyncRequest E ftag SYNC_FORGET_REQUEST st = Inr st"
    by (simp add: RememberSyncRequest_def)
next
  fix m
  assume m: "sync_filetagmatches (syncsw E (handler ftag)) = Some m"
  show "RememberSyncRequest E ftag SYNC_FILTER_REQUEST st =
              Inr (st\<lparr>pendingOps :=
                        Some (map (\<lambda>x. if handler (pf_tag x) = handler ftag \<and> m ftag (pf_tag x)
                                         then x\<lparr>pf_canceled := True\<rparr> else x) ops),
                      pendingUnlinks :=
                        filter (\<lambda>u. \<not> (handler (pu_tag u) = handler ftag \<and> m ftag (pu_tag u)))
                          (pendingUnlinks st)\<rparr>)"
    using tbl by (simp add: RememberSyncRequest_def cancel_matching_Some [OF m] remove_matching_Some [OF m])
qed

theorem RememberSyncRequest_cancel_witness:
  "(\<exists>s. RememberSyncRequest quiet_env tag1 SYNC_FORGET_REQUEST
          (checkpointer\<lparr>pendingOps :=
             Some [\<lparr>pf_tag = tag1, pf_cycle_ctr = 0, pf_canceled = False\<rparr>,
                   \<lparr>pf_tag = tag3, pf_cycle_ctr = 0, pf_canceled = False\<rparr>]\<rparr>) = Inr s \<and>
        pendingOps s =
          Some [\<lparr>pf_tag = tag1, pf_cycle_ctr = 0, pf_canceled = True\<rparr>,
                \<lparr>pf_tag = tag3, pf_cycle_ctr = 0, pf_canceled = False\<rparr>]) \<and>
   (\<exists>s. RememberSyncRequest quiet_env tag2 SYNC_FILTER_REQUEST
          (checkpointer\<lparr>pendingOps :=
             Some [\<lparr>pf_tag = tag1, pf_cycle_ctr = 0, pf_canceled = False\<rparr>,
                   \<lparr>pf_tag = tag3, pf_cycle_ctr = 0, pf_canceled = False\<rparr>],
             pendingUnlinks :=
               [\<lparr>pu_tag = tag3, pu_cycle_ctr = 0\<rparr>, \<lparr>pu_tag = tag1, pu_cycle_ctr = 0\<rparr>]\<rparr>) = Inr s \<and>
        pendingOps s =
          Some [\<lparr>pf_tag = tag1, pf_cycle_ctr = 0, pf_canceled = True\<rparr>,
                \<lparr>pf_tag = tag3, pf_cycle_ctr = 0, pf_canceled = False\<rparr>] \<and>
        pendingUnlinks s = [\<lparr>pu_tag = tag3, pu_cycle_ctr = 0\<rparr>])"
proof -
  let ?ops = "[\<lparr>pf_tag = tag1, pf_cycle_ctr = 0, pf_canceled = False\<rparr>,
               \<lparr>pf_tag = tag3, pf_cycle_ctr = 0, pf_canceled = False\<rparr>]"
  have d: "distinct (map pf_tag ?ops)" by (simp add: tag1_def tag3_def)
  have m: "sync_filetagmatches (syncsw quiet_env (handler tag2)) = Some (mdfiletagmatches quiet_env)"
    by (simp add: syncsw_def tag2_def)
  show ?thesis
    using RememberSyncRequest_cancel [of "checkpointer\<lparr>pendingOps := Some ?ops\<rparr>" ?ops quiet_env tag1, OF _ d]
      RememberSyncRequest_cancel [of "checkpointer\<lparr>pendingOps := Some ?ops,
             pendingUnlinks :=
               [\<lparr>pu_tag = tag3, pu_cycle_ctr = 0\<rparr>, \<lparr>pu_tag = tag1, pu_cycle_ctr = 0\<rparr>]\<rparr>" ?ops quiet_env tag2, OF _ d] m
    by (simp add: tag1_def tag2_def tag3_def quiet_env_def)
qed


section \<open>Failed flushes\<close>

lemma and_then_case: "and_then r k = (case r of Inl f \<Rightarrow> Inl f | Inr s \<Rightarrow> k s)"
  by (cases r) auto

lemma and_then_inv:
  "P (state_of r) \<Longrightarrow> (\<And>s. r = Inr s \<Longrightarrow> P s \<Longrightarrow> P (state_of (k s))) \<Longrightarrow>
     P (state_of (and_then r k))"
  by (cases r) auto

lemma case_sum_inv:
  "P (state_of r) \<Longrightarrow> (\<And>s. r = Inr s \<Longrightarrow> P s \<Longrightarrow> P (state_of (k s))) \<Longrightarrow>
     P (state_of (case r of Inl f \<Rightarrow> Inl f | Inr s \<Rightarrow> k s))"
  by (cases r) auto

lemma retry_bounded_simps [simp]:
  "retry_bounded (st\<lparr>pgsw := a\<rparr>) = retry_bounded st"
  "retry_bounded (st\<lparr>sync_calls := b\<rparr>) = retry_bounded st"
  "retry_bounded (st\<lparr>clock_reads := c\<rparr>) = retry_bounded st"
  "retry_bounded (st\<lparr>absorb_counter := d\<rparr>) = retry_bounded st"
  "retry_bounded (st\<lparr>pendingOps := g\<rparr>) = retry_bounded st"
  "retry_bounded (st\<lparr>processed := h\<rparr>) = retry_bounded st"
  "retry_bounded (st\<lparr>longest := i\<rparr>) = retry_bounded st"
  "retry_bounded (st\<lparr>total_elapsed := j\<rparr>) = retry_bounded st"
  "retry_bounded (st\<lparr>sync_cycle_ctr := k\<rparr>) = retry_bounded st"
  "retry_bounded (st\<lparr>sync_in_progress := l\<rparr>) = retry_bounded st"
  "retry_bounded (st\<lparr>ckpt_sync_rels := m\<rparr>) = retry_bounded st"
  "retry_bounded (st\<lparr>ckpt_longest_sync := n\<rparr>) = retry_bounded st"
  "retry_bounded (st\<lparr>ckpt_agg_sync_time := p\<rparr>) = retry_bounded st"
  "retry_bounded (st\<lparr>server_log := q\<rparr>) = retry_bounded st"
  by (simp_all add: retry_bounded_def)

lemma retry_bounded_queues:
  "retry_bounded (st\<lparr>inflightSyncs := xs\<rparr>) \<longleftrightarrow>
     (\<forall>x\<in>set xs \<union> set (retrySyncs st). if_retry_count x \<le> 5)"
  "retry_bounded (st\<lparr>retrySyncs := ys\<rparr>) \<longleftrightarrow>
     (\<forall>x\<in>set (inflightSyncs st) \<union> set ys. if_retry_count x \<le> 5)"
  by (simp_all add: retry_bounded_def)

lemma AbsorbSyncRequests_retry_bounded:
  "retry_bounded st \<Longrightarrow> retry_bounded (state_of (AbsorbSyncRequests E st))"
  using requests_masked_fields(1,2) [OF AbsorbSyncRequests_masked [of E st]]
  by (simp add: retry_bounded_def)

lemma SyncRequestCompleted_retry_bounded:
  "retry_bounded st \<Longrightarrow> retry_bounded (state_of (SyncRequestCompleted E e ok err st))"
  unfolding SyncRequestCompleted_def retry_bounded_def
  by (auto simp: Let_def split: option.splits dest: set_remove1_subset [THEN subsetD])

lemma complete_ios_retry_bounded:
  "retry_bounded st \<Longrightarrow> retry_bounded (state_of (complete_ios E n st))"
proof (induction n arbitrary: st)
  case 0
  then show ?case by simp
next
  case (Suc n)
  show ?case
  proof (cases "pgsw st")
    case None
    with Suc.prems show ?thesis by simp
  next
    case (Some ios)
    show ?thesis
    proof (cases ios)
      case Nil
      with Some Suc.prems show ?thesis by simp
    next
      case (Cons io ios')
      have "retry_bounded (st\<lparr>pgsw := Some ios'\<rparr>)"
        using Suc.prems by simp
      then have "retry_bounded (state_of (and_then
            (SyncRequestCompleted E (fst io) (fst (snd io)) (snd (snd io)) (st\<lparr>pgsw := Some ios'\<rparr>))
            (complete_ios E n)))"
        by (intro and_then_inv [where P = retry_bounded] SyncRequestCompleted_retry_bounded Suc.IH)
      then show ?thesis
        using Some Cons by simp
    qed
  qed
qed

lemma finish_submission_retry_bounded:
  "retry_bounded st \<Longrightarrow> retry_bounded (state_of (finish_submission E e out st))"
  unfolding finish_submission_def
  by (cases "so_inline out"; cases "pgsw st") (simp_all add: SyncRequestCompleted_retry_bounded)

lemma run_sync_handler_retry_bounded:
  "retry_bounded st \<Longrightarrow> retry_bounded (state_of (run_sync_handler E f e st))"
  unfolding run_sync_handler_def Let_def
  by (intro and_then_inv [where P = retry_bounded] complete_ios_retry_bounded finish_submission_retry_bounded) simp_all

lemma call_syncfiletag_retry_bounded:
  assumes "retry_bounded st" "if_retry_count e \<le> 5"
  shows "retry_bounded (state_of (call_syncfiletag E e st))"
proof -
  let ?e = "e\<lparr>if_start_time := clock E (clock_reads st)\<rparr>"
  let ?s = "st\<lparr>inflightSyncs := inflightSyncs st @ [?e], clock_reads := clock_reads st + 1\<rparr>"
  have b: "retry_bounded ?s"
    using assms by (simp add: retry_bounded_def)
  show ?thesis
  proof (cases "sync_syncfiletag (syncsw E (handler (if_tag ?e)))")
    case None
    with b show ?thesis by (simp add: call_syncfiletag_def Let_def)
  next
    case (Some f)
    with run_sync_handler_retry_bounded [OF b, of E f ?e] show ?thesis
      by (simp add: call_syncfiletag_def Let_def)
  qed
qed

lemma retry_one_retry_bounded:
  assumes "retry_bounded st" "if_retry_count e \<le> 5"
  shows "retry_bounded (state_of (retry_one E e st))"
  using assms call_syncfiletag_retry_bounded [OF assms, of E]
  unfolding retry_one_def
  by (simp split: option.splits)

lemma retry_loop_retry_bounded:
  "retry_bounded st \<Longrightarrow> retry_bounded (state_of (retry_loop E st))"
proof (induction E st rule: retry_loop.induct)
  case (1 E st)
  show ?case
  proof (cases "retrySyncs st")
    case Nil
    with 1 show ?thesis by (subst retry_loop.simps) simp
  next
    case (Cons e rest)
    have b: "retry_bounded (st\<lparr>retrySyncs := rest\<rparr>)" "if_retry_count e \<le> 5"
      using "1.prems" Cons by (auto simp: retry_bounded_def)
    have "retry_bounded (state_of (case retry_one E e (st\<lparr>retrySyncs := rest\<rparr>) of
             Inl f \<Rightarrow> Inl f | Inr st' \<Rightarrow> retry_loop E st'))"
      using retry_one_retry_bounded [OF b, of E] "1.IH" [OF Cons]
      by (intro case_sum_inv [where P = retry_bounded]) auto
    then show ?thesis
      using Cons by (subst retry_loop.simps) simp
  qed
qed

lemma RetrySyncRequests_retry_bounded:
  assumes "retry_bounded st"
  shows "retry_bounded (state_of (RetrySyncRequests E st))"
proof (cases "retrySyncs st = []")
  case True
  with assms show ?thesis by (simp add: RetrySyncRequests_def)
next
  case False
  have "retry_bounded (state_of (and_then (AbsorbSyncRequests E st)
             (\<lambda>s. retry_loop E (s\<lparr>absorb_counter := FSYNCS_PER_ABSORB\<rparr>))))"
    using assms
    by (intro and_then_inv [where P = retry_bounded] AbsorbSyncRequests_retry_bounded retry_loop_retry_bounded) simp_all
  with False show ?thesis by (simp add: RetrySyncRequests_def)
qed

lemma retry_bank_retry_bounded:
  "retry_bounded st \<Longrightarrow> retry_bounded (state_of (retry_bank E n st))"
proof (induction E n st rule: retry_bank.induct)
  case (1 E failures st)
  show ?case
  proof (cases "failures < 5")
    case False
    with "1.prems" show ?thesis by (subst retry_bank.simps) simp
  next
    case True
    have "retry_bounded (state_of (case RetrySyncRequests E st of
              Inl f \<Rightarrow> Inl f
            | Inr st' \<Rightarrow> retry_bank E (failures + 1) st'))"
      using RetrySyncRequests_retry_bounded [OF "1.prems", of E] "1.IH" [OF True]
      by (intro case_sum_inv [where P = retry_bounded]) auto
    with True show ?thesis by (subst retry_bank.simps) simp
  qed
qed

lemma absorb_tick_retry_bounded:
  assumes "retry_bounded st"
  shows "retry_bounded (state_of (absorb_tick E st))"
proof (cases "absorb_counter st - 1 \<le> 0")
  case False
  with assms show ?thesis by (simp add: absorb_tick_def Let_def)
next
  case True
  have "retry_bounded (state_of (and_then (AbsorbSyncRequests E (st\<lparr>absorb_counter := absorb_counter st - 1\<rparr>))
             (\<lambda>s. Inr (s\<lparr>absorb_counter := FSYNCS_PER_ABSORB\<rparr>))))"
    using assms by (intro and_then_inv [where P = retry_bounded] AbsorbSyncRequests_retry_bounded) simp_all
  with True show ?thesis by (simp add: absorb_tick_def Let_def)
qed

lemma sync_or_remove_retry_bounded:
  assumes "retry_bounded st"
  shows "retry_bounded (state_of (sync_or_remove E t st))"
  using assms call_syncfiletag_retry_bounded [OF assms, of _ E]
  unfolding sync_or_remove_def
  by (simp split: option.splits)

lemma sync_loop_body_retry_bounded:
  assumes "retry_bounded st"
  shows "retry_bounded (state_of (sync_loop_body E t st))"
proof -
  have "retry_bounded (state_of (and_then (absorb_tick E st) (sync_or_remove E t)))"
    using assms by (intro and_then_inv [where P = retry_bounded] absorb_tick_retry_bounded sync_or_remove_retry_bounded)
  with assms show ?thesis
    unfolding sync_loop_body_def by (simp split: option.splits)
qed

lemma sync_loop_retry_bounded:
  "retry_bounded st \<Longrightarrow> retry_bounded (state_of (sync_loop E ts st))"
proof (induction ts arbitrary: st)
  case Nil
  then show ?case by simp
next
  case (Cons t ts)
  have "retry_bounded (state_of (case sync_loop_body E t st of
        Inl f \<Rightarrow> Inl f
      | Inr st' \<Rightarrow> sync_loop E ts st'))"
    using Cons.prems by (intro case_sum_inv [where P = retry_bounded] sync_loop_body_retry_bounded Cons.IH)
  then show ?case by simp
qed

lemma wait_all_retry_bounded:
  "retry_bounded st \<Longrightarrow> retry_bounded (state_of (pg_streaming_write_wait_all E st))"
  unfolding pg_streaming_write_wait_all_def
  by (cases "pgsw st") (simp_all add: complete_ios_retry_bounded)

lemma begin_pass_retry_bounded:
  "retry_bounded st \<Longrightarrow> retry_bounded (state_of (begin_pass st))"
  unfolding begin_pass_def Let_def
  by (cases "pgsw st") simp_all

lemma finish_pass_retry_bounded:
  "retry_bounded st \<Longrightarrow> retry_bounded (state_of (finish_pass st))"
  unfolding finish_pass_def
  by simp

lemma sync_pass_retry_bounded:
  assumes "retry_bounded st"
  shows "retry_bounded (state_of (sync_pass E st))"
proof (cases "pendingOps st")
  case None
  with assms show ?thesis by (simp add: sync_pass_def)
next
  case (Some ops)
  have "retry_bounded (state_of (and_then (AbsorbSyncRequests E st)
            (\<lambda>s1. and_then (begin_pass s1)
               (\<lambda>s2. and_then (sync_loop E (hash_seq_tags s2) s2)
                  (\<lambda>s3. and_then (pg_streaming_write_wait_all E s3) (retry_bank E 0))))))"
    using assms
    by (intro and_then_inv [where P = retry_bounded] AbsorbSyncRequests_retry_bounded
          begin_pass_retry_bounded sync_loop_retry_bounded wait_all_retry_bounded
          retry_bank_retry_bounded)
  with Some show ?thesis by (simp add: sync_pass_def)
qed

lemma ProcessSyncRequests_retry_bounded:
  "retry_bounded st \<Longrightarrow> retry_bounded (state_of (ProcessSyncRequests E st))"
  unfolding ProcessSyncRequests_def
  by (intro and_then_inv [where P = retry_bounded] sync_pass_retry_bounded
        finish_pass_retry_bounded)

text \<open>
  C4. A failed completion puts the entry on the retry queue, after the \<^verbatim>\<open>DEBUG1\<close>
  report and with \<open>retry_count\<close> incremented, exactly when the errno is one
  \<^verbatim>\<open>FILE_POSSIBLY_DELETED\<close> accepts and \<open>retry_count\<close> is 0; every other failure
  is the data-sync error at the configured level (\<^verbatim>\<open>ERROR\<close>, or \<^verbatim>\<open>PANIC\<close> unless
  \<^verbatim>\<open>data_sync_retry\<close>), which nothing follows. So an entry whose \<open>retry_count\<close> is 5
  fails fatally, and if no queued entry has a \<open>retry_count\<close> above 5, none has after
  \<^verbatim>\<open>SyncRequestCompleted\<close> nor after a whole \<^verbatim>\<open>ProcessSyncRequests\<close>, however
  they end.
\<close>

theorem SyncRequestCompleted_failure:
  "SyncRequestCompleted E e False err st =
     (if file_possibly_deleted E err \<and> if_retry_count e = 0
      then Inr (st\<lparr>inflightSyncs := remove1 e (inflightSyncs st),
                   server_log := server_log st @
                     [(DEBUG1, ''could not fsync file %s but retrying: %m'')],
                   retrySyncs := retrySyncs st @ [e\<lparr>if_retry_count := 1\<rparr>]\<rparr>)
      else Inl (Elog (if data_sync_retry E then ERROR else PANIC) ''could not fsync file %s: %m'',
                st\<lparr>inflightSyncs := remove1 e (inflightSyncs st)\<rparr>)) \<and>
   (if_retry_count e = 5 \<longrightarrow>
      SyncRequestCompleted E e False err st =
        Inl (Elog (data_sync_elevel E ERROR) ''could not fsync file %s: %m'',
             st\<lparr>inflightSyncs := remove1 e (inflightSyncs st)\<rparr>)) \<and>
   (retry_bounded st \<longrightarrow>
      retry_bounded (state_of (SyncRequestCompleted E e ok err st)) \<and>
      retry_bounded (state_of (ProcessSyncRequests E st)))"
proof (intro conjI impI)
  show "SyncRequestCompleted E e False err st =
     (if file_possibly_deleted E err \<and> if_retry_count e = 0
      then Inr (st\<lparr>inflightSyncs := remove1 e (inflightSyncs st),
                   server_log := server_log st @
                     [(DEBUG1, ''could not fsync file %s but retrying: %m'')],
                   retrySyncs := retrySyncs st @ [e\<lparr>if_retry_count := 1\<rparr>]\<rparr>)
      else Inl (Elog (if data_sync_retry E then ERROR else PANIC) ''could not fsync file %s: %m'',
                st\<lparr>inflightSyncs := remove1 e (inflightSyncs st)\<rparr>))"
    by (auto simp: SyncRequestCompleted_def data_sync_elevel_def)
next
  assume "if_retry_count e = 5"
  then show "SyncRequestCompleted E e False err st =
        Inl (Elog (data_sync_elevel E ERROR) ''could not fsync file %s: %m'',
             st\<lparr>inflightSyncs := remove1 e (inflightSyncs st)\<rparr>)"
    by (simp add: SyncRequestCompleted_def)
next
  assume "retry_bounded st"
  then show "retry_bounded (state_of (SyncRequestCompleted E e ok err st))"
    by (rule SyncRequestCompleted_retry_bounded)
next
  assume "retry_bounded st"
  then show "retry_bounded (state_of (ProcessSyncRequests E st))"
    by (rule ProcessSyncRequests_retry_bounded)
qed

theorem SyncRequestCompleted_failure_witness:
  "retry_bounded
     (checkpointer\<lparr>inflightSyncs :=
        [\<lparr>if_tag = tag1, if_hash_entry = tag1, if_handler_data = 0, if_path = [],
          if_retry_count = 5, if_start_time = 0\<rparr>]\<rparr>) \<and>
   SyncRequestCompleted quiet_env
     \<lparr>if_tag = tag1, if_hash_entry = tag1, if_handler_data = 0, if_path = [],
      if_retry_count = 5, if_start_time = 0\<rparr> False ENOENT
     (checkpointer\<lparr>inflightSyncs :=
        [\<lparr>if_tag = tag1, if_hash_entry = tag1, if_handler_data = 0, if_path = [],
          if_retry_count = 5, if_start_time = 0\<rparr>]\<rparr>) =
     Inl (Elog PANIC ''could not fsync file %s: %m'', checkpointer\<lparr>inflightSyncs := []\<rparr>) \<and>
   retry_bounded
     (state_of (ProcessSyncRequests quiet_env
        (checkpointer\<lparr>inflightSyncs :=
           [\<lparr>if_tag = tag1, if_hash_entry = tag1, if_handler_data = 0, if_path = [],
             if_retry_count = 5, if_start_time = 0\<rparr>]\<rparr>)))"
  using SyncRequestCompleted_failure
    [of quiet_env
        "\<lparr>if_tag = tag1, if_hash_entry = tag1, if_handler_data = 0, if_path = [],
          if_retry_count = 5, if_start_time = 0\<rparr>"
        ENOENT
        "checkpointer\<lparr>inflightSyncs :=
           [\<lparr>if_tag = tag1, if_hash_entry = tag1, if_handler_data = 0, if_path = [],
             if_retry_count = 5, if_start_time = 0\<rparr>]\<rparr>" True]
  by (simp add: retry_bounded_def quiet_env_def checkpointer_def InitSync_def startup_def)

section \<open>What a pass leaves alone\<close>

lemma pass_masked_simps [simp]:
  "pass_masked (st\<lparr>pendingOps := a\<rparr>) = pass_masked st"
  "pass_masked (st\<lparr>pendingUnlinks := b\<rparr>) = pass_masked st"
  "pass_masked (st\<lparr>inflightSyncs := c\<rparr>) = pass_masked st"
  "pass_masked (st\<lparr>retrySyncs := d\<rparr>) = pass_masked st"
  "pass_masked (st\<lparr>absorb_counter := g\<rparr>) = pass_masked st"
  "pass_masked (st\<lparr>pgsw := h\<rparr>) = pass_masked st"
  "pass_masked (st\<lparr>processed := i\<rparr>) = pass_masked st"
  "pass_masked (st\<lparr>longest := j\<rparr>) = pass_masked st"
  "pass_masked (st\<lparr>total_elapsed := k\<rparr>) = pass_masked st"
  "pass_masked (st\<lparr>sync_calls := l\<rparr>) = pass_masked st"
  "pass_masked (st\<lparr>absorb_calls := m\<rparr>) = pass_masked st"
  "pass_masked (st\<lparr>clock_reads := n\<rparr>) = pass_masked st"
  "pass_masked (st\<lparr>server_log := p\<rparr>) = pass_masked st"
  by (simp_all add: pass_masked_def)

lemma pass_masked_fields:
  assumes "pass_masked st' = pass_masked st"
  shows "sync_cycle_ctr st' = sync_cycle_ctr st" "checkpoint_cycle_ctr st' = checkpoint_cycle_ctr st"
    "sync_in_progress st' = sync_in_progress st" "ckpt_sync_rels st' = ckpt_sync_rels st"
    "ckpt_longest_sync st' = ckpt_longest_sync st" "ckpt_agg_sync_time st' = ckpt_agg_sync_time st"
    "enableFsync st' = enableFsync st" "log_checkpoints st' = log_checkpoints st"
    "unlink_calls st' = unlink_calls st"
proof -
  note eq = arg_cong [OF assms]
  show "sync_cycle_ctr st' = sync_cycle_ctr st"
    using eq [of sync_cycle_ctr] by (simp add: pass_masked_def)
  show "checkpoint_cycle_ctr st' = checkpoint_cycle_ctr st"
    using eq [of checkpoint_cycle_ctr] by (simp add: pass_masked_def)
  show "sync_in_progress st' = sync_in_progress st"
    using eq [of sync_in_progress] by (simp add: pass_masked_def)
  show "ckpt_sync_rels st' = ckpt_sync_rels st"
    using eq [of ckpt_sync_rels] by (simp add: pass_masked_def)
  show "ckpt_longest_sync st' = ckpt_longest_sync st"
    using eq [of ckpt_longest_sync] by (simp add: pass_masked_def)
  show "ckpt_agg_sync_time st' = ckpt_agg_sync_time st"
    using eq [of ckpt_agg_sync_time] by (simp add: pass_masked_def)
  show "enableFsync st' = enableFsync st"
    using eq [of enableFsync] by (simp add: pass_masked_def)
  show "log_checkpoints st' = log_checkpoints st"
    using eq [of log_checkpoints] by (simp add: pass_masked_def)
  show "unlink_calls st' = unlink_calls st"
    using eq [of unlink_calls] by (simp add: pass_masked_def)
qed

lemma pass_masked_requests: "pass_masked (requests_masked st) = pass_masked st"
  by (simp add: requests_masked_def)

lemma and_then_frame:
  assumes "M (state_of r) = M st" "\<And>s. M (state_of (k s)) = M s"
  shows "M (state_of (and_then r k)) = M st"
  using assms by (cases r) auto

lemma case_sum_frame:
  assumes "M (state_of r) = M st" "\<And>s. M (state_of (k s)) = M s"
  shows "M (state_of (case r of Inl f \<Rightarrow> Inl f | Inr s \<Rightarrow> k s)) = M st"
  using assms by (cases r) auto

lemma AbsorbSyncRequests_pass_masked:
  "pass_masked (state_of (AbsorbSyncRequests E st)) = pass_masked st"
  using arg_cong [OF AbsorbSyncRequests_masked [of E st], of pass_masked]
  by (simp add: pass_masked_requests)

lemma SyncRequestCompleted_pass_masked:
  "pass_masked (state_of (SyncRequestCompleted E e ok err st)) = pass_masked st"
  unfolding SyncRequestCompleted_def
  by (simp add: Let_def split: option.splits)

lemma complete_ios_pass_masked:
  "pass_masked (state_of (complete_ios E n st)) = pass_masked st"
proof (induction n arbitrary: st)
  case 0
  then show ?case by simp
next
  case (Suc n)
  show ?case
  proof (cases "pgsw st")
    case None
    then show ?thesis by simp
  next
    case (Some ios)
    show ?thesis
    proof (cases ios)
      case Nil
      with Some show ?thesis by simp
    next
      case (Cons io ios')
      have "pass_masked (state_of (and_then
            (SyncRequestCompleted E (fst io) (fst (snd io)) (snd (snd io)) (st\<lparr>pgsw := Some ios'\<rparr>))
            (complete_ios E n))) = pass_masked (st\<lparr>pgsw := Some ios'\<rparr>)"
        by (intro and_then_frame [where M = pass_masked] SyncRequestCompleted_pass_masked Suc.IH)
      then show ?thesis
        using Some Cons by simp
    qed
  qed
qed

lemma finish_submission_pass_masked:
  "pass_masked (state_of (finish_submission E e out st)) = pass_masked st"
  unfolding finish_submission_def
  by (cases "so_inline out"; cases "pgsw st") (simp_all add: SyncRequestCompleted_pass_masked)

lemma run_sync_handler_pass_masked:
  "pass_masked (state_of (run_sync_handler E f e st)) = pass_masked st"
proof -
  have "pass_masked (state_of (run_sync_handler E f e st)) =
          pass_masked (st\<lparr>sync_calls := sync_calls st @ [e]\<rparr>)"
    unfolding run_sync_handler_def Let_def
    by (intro and_then_frame [where M = pass_masked] complete_ios_pass_masked
          finish_submission_pass_masked)
  then show ?thesis by simp
qed

lemma call_syncfiletag_pass_masked:
  "pass_masked (state_of (call_syncfiletag E e st)) = pass_masked st"
  unfolding call_syncfiletag_def Let_def
  by (simp add: run_sync_handler_pass_masked split: option.splits)

lemma retry_one_pass_masked:
  "pass_masked (state_of (retry_one E e st)) = pass_masked st"
  unfolding retry_one_def
  by (simp add: call_syncfiletag_pass_masked split: option.splits)

lemma retry_loop_pass_masked:
  "pass_masked (state_of (retry_loop E st)) = pass_masked st"
proof (induction E st rule: retry_loop.induct)
  case (1 E st)
  show ?case
  proof (cases "retrySyncs st")
    case Nil
    then show ?thesis by (subst retry_loop.simps) simp
  next
    case (Cons e rest)
    have "pass_masked (state_of (case retry_one E e (st\<lparr>retrySyncs := rest\<rparr>) of
             Inl f \<Rightarrow> Inl f | Inr st' \<Rightarrow> retry_loop E st')) = pass_masked (st\<lparr>retrySyncs := rest\<rparr>)"
    proof (cases "retry_one E e (st\<lparr>retrySyncs := rest\<rparr>)")
      case (Inl f)
      with retry_one_pass_masked [of E e "st\<lparr>retrySyncs := rest\<rparr>"] show ?thesis by simp
    next
      case (Inr s)
      with retry_one_pass_masked [of E e "st\<lparr>retrySyncs := rest\<rparr>"] "1.IH" [OF Cons Inr]
      show ?thesis by simp
    qed
    then show ?thesis
      using Cons by (subst retry_loop.simps) simp
  qed
qed

lemma RetrySyncRequests_pass_masked:
  "pass_masked (state_of (RetrySyncRequests E st)) = pass_masked st"
proof (cases "retrySyncs st = []")
  case True
  then show ?thesis by (simp add: RetrySyncRequests_def)
next
  case False
  have "pass_masked (state_of (and_then (AbsorbSyncRequests E st)
             (\<lambda>s. retry_loop E (s\<lparr>absorb_counter := FSYNCS_PER_ABSORB\<rparr>)))) = pass_masked st"
    by (intro and_then_frame [where M = pass_masked] AbsorbSyncRequests_pass_masked)
       (simp add: retry_loop_pass_masked)
  with False show ?thesis by (simp add: RetrySyncRequests_def)
qed

lemma retry_bank_pass_masked:
  "pass_masked (state_of (retry_bank E n st)) = pass_masked st"
proof (induction E n st rule: retry_bank.induct)
  case (1 E failures st)
  show ?case
  proof (cases "failures < 5")
    case False
    then show ?thesis by (subst retry_bank.simps) simp
  next
    case True
    have "pass_masked (state_of (case RetrySyncRequests E st of
              Inl f \<Rightarrow> Inl f
            | Inr st' \<Rightarrow> retry_bank E (failures + 1) st')) = pass_masked st"
    proof (cases "RetrySyncRequests E st")
      case (Inl f)
      with RetrySyncRequests_pass_masked [of E st] show ?thesis by simp
    next
      case (Inr s)
      with RetrySyncRequests_pass_masked [of E st] "1.IH" [OF True Inr] show ?thesis by simp
    qed
    with True show ?thesis by (subst retry_bank.simps) simp
  qed
qed

lemma absorb_tick_pass_masked:
  "pass_masked (state_of (absorb_tick E st)) = pass_masked st"
proof (cases "absorb_counter st - 1 \<le> 0")
  case False
  then show ?thesis by (simp add: absorb_tick_def Let_def)
next
  case True
  have "pass_masked (state_of (and_then (AbsorbSyncRequests E (st\<lparr>absorb_counter := absorb_counter st - 1\<rparr>))
             (\<lambda>s. Inr (s\<lparr>absorb_counter := FSYNCS_PER_ABSORB\<rparr>)))) =
        pass_masked (st\<lparr>absorb_counter := absorb_counter st - 1\<rparr>)"
    by (intro and_then_frame [where M = pass_masked] AbsorbSyncRequests_pass_masked) simp
  with True show ?thesis by (simp add: absorb_tick_def Let_def)
qed

lemma sync_or_remove_pass_masked:
  "pass_masked (state_of (sync_or_remove E t st)) = pass_masked st"
  unfolding sync_or_remove_def
  by (simp add: call_syncfiletag_pass_masked split: option.splits)

lemma sync_loop_body_pass_masked:
  "pass_masked (state_of (sync_loop_body E t st)) = pass_masked st"
proof -
  have "pass_masked (state_of (and_then (absorb_tick E st) (sync_or_remove E t))) = pass_masked st"
    by (intro and_then_frame [where M = pass_masked] absorb_tick_pass_masked
          sync_or_remove_pass_masked)
  then show ?thesis
    unfolding sync_loop_body_def by (simp split: option.splits)
qed

lemma sync_loop_pass_masked:
  "pass_masked (state_of (sync_loop E ts st)) = pass_masked st"
proof (induction ts arbitrary: st)
  case Nil
  then show ?case by simp
next
  case (Cons t ts)
  have "pass_masked (state_of (case sync_loop_body E t st of
        Inl f \<Rightarrow> Inl f
      | Inr st' \<Rightarrow> sync_loop E ts st')) = pass_masked st"
    by (intro case_sum_frame [where M = pass_masked] sync_loop_body_pass_masked Cons.IH)
  then show ?case by simp
qed

lemma wait_all_pass_masked:
  "pass_masked (state_of (pg_streaming_write_wait_all E st)) = pass_masked st"
  unfolding pg_streaming_write_wait_all_def
  by (cases "pgsw st") (simp_all add: complete_ios_pass_masked)

section \<open>Which failure comes from where\<close>

lemma raises_only_Inr [simp]: "raises_only F (Inr s)"
  by (simp add: raises_only_def)

lemma raises_only_Inl [simp]: "raises_only F (Inl (f, s)) = F f"
  by (simp add: raises_only_def)

lemma raises_only_mono: "raises_only F r \<Longrightarrow> (\<And>f. F f \<Longrightarrow> G f) \<Longrightarrow> raises_only G r"
  by (cases r) (auto simp: raises_only_def)

lemma and_then_raises:
  "raises_only F r \<Longrightarrow> (\<And>s. r = Inr s \<Longrightarrow> raises_only F (k s)) \<Longrightarrow> raises_only F (and_then r k)"
  by (cases r) (auto simp: raises_only_def)

lemma case_sum_raises:
  "raises_only F r \<Longrightarrow> (\<And>s. r = Inr s \<Longrightarrow> raises_only F (k s)) \<Longrightarrow>
     raises_only F (case r of Inl f \<Rightarrow> Inl f | Inr s \<Rightarrow> k s)"
  by (cases r) (auto simp: raises_only_def)

lemma inner_failure_simps [simp]:
  "inner_failure (AssertFailed ''pendingOps'')"
  "inner_failure (Crash m)"
  "inner_failure (Elog ERROR ''pendingOps corrupted'')"
  "inner_failure (Elog lev ''could not fsync file %s: %m'')"
  "inner_failure (AssertFailed ''inflight_entry->retry_count <= 5'')"
  by (simp_all add: inner_failure_def cycle_assertion_def queues_corrupted_def)

lemma RememberSyncRequest_raises:
  "raises_only inner_failure (RememberSyncRequest E ftag ty st)"
  unfolding RememberSyncRequest_def
  by (simp split: option.splits SyncRequestType.splits)

lemma remember_all_raises:
  "raises_only inner_failure (remember_all E rs st)"
proof (induction rs arbitrary: st)
  case Nil
  then show ?case by simp
next
  case (Cons r rs)
  show ?case
    unfolding remember_all.simps
    by (intro and_then_raises [where F = inner_failure] RememberSyncRequest_raises Cons.IH)
qed

lemma AbsorbSyncRequests_raises:
  "raises_only inner_failure (AbsorbSyncRequests E st)"
  unfolding AbsorbSyncRequests_def by (rule remember_all_raises)

lemma SyncRequestCompleted_raises:
  "raises_only inner_failure (SyncRequestCompleted E e ok err st)"
  unfolding SyncRequestCompleted_def
  by (simp add: Let_def split: option.splits)

lemma complete_ios_raises:
  "raises_only inner_failure (complete_ios E n st)"
proof (induction n arbitrary: st)
  case 0
  then show ?case by simp
next
  case (Suc n)
  show ?case
  proof (cases "pgsw st")
    case None
    then show ?thesis by simp
  next
    case (Some ios)
    show ?thesis
    proof (cases ios)
      case Nil
      with Some show ?thesis by simp
    next
      case (Cons io ios')
      have "raises_only inner_failure (and_then
            (SyncRequestCompleted E (fst io) (fst (snd io)) (snd (snd io)) (st\<lparr>pgsw := Some ios'\<rparr>))
            (complete_ios E n))"
        by (intro and_then_raises [where F = inner_failure] SyncRequestCompleted_raises Suc.IH)
      then show ?thesis
        using Some Cons by simp
    qed
  qed
qed

lemma finish_submission_raises:
  "raises_only inner_failure (finish_submission E e out st)"
  unfolding finish_submission_def
  by (cases "so_inline out"; cases "pgsw st") (simp_all add: SyncRequestCompleted_raises)

lemma run_sync_handler_raises:
  "raises_only inner_failure (run_sync_handler E f e st)"
  unfolding run_sync_handler_def Let_def
  by (intro and_then_raises [where F = inner_failure] complete_ios_raises finish_submission_raises)

lemma call_syncfiletag_raises:
  "raises_only inner_failure (call_syncfiletag E e st)"
  unfolding call_syncfiletag_def Let_def
  by (simp add: run_sync_handler_raises split: option.splits)

lemma retry_one_raises:
  "raises_only inner_failure (retry_one E e st)"
  unfolding retry_one_def
  by (simp add: call_syncfiletag_raises split: option.splits)

lemma retry_loop_raises:
  "raises_only inner_failure (retry_loop E st)"
proof (induction E st rule: retry_loop.induct)
  case (1 E st)
  show ?case
  proof (cases "retrySyncs st")
    case Nil
    then show ?thesis by (subst retry_loop.simps) simp
  next
    case (Cons e rest)
    have "raises_only inner_failure (case retry_one E e (st\<lparr>retrySyncs := rest\<rparr>) of
             Inl f \<Rightarrow> Inl f | Inr st' \<Rightarrow> retry_loop E st')"
      using "1.IH" [OF Cons]
      by (intro case_sum_raises [where F = inner_failure] retry_one_raises) auto
    then show ?thesis
      using Cons by (subst retry_loop.simps) simp
  qed
qed

lemma RetrySyncRequests_raises:
  "raises_only inner_failure (RetrySyncRequests E st)"
  unfolding RetrySyncRequests_def
  by (simp add: and_then_raises AbsorbSyncRequests_raises retry_loop_raises)

lemma retry_bank_raises:
  "raises_only inner_failure (retry_bank E n st)"
proof (induction E n st rule: retry_bank.induct)
  case (1 E failures st)
  show ?case
  proof (cases "failures < 5")
    case False
    then show ?thesis by (subst retry_bank.simps) simp
  next
    case True
    have "raises_only inner_failure (case RetrySyncRequests E st of
              Inl f \<Rightarrow> Inl f
            | Inr st' \<Rightarrow> retry_bank E (failures + 1) st')"
      using "1.IH" [OF True]
      by (intro case_sum_raises [where F = inner_failure] RetrySyncRequests_raises) auto
    with True show ?thesis by (subst retry_bank.simps) simp
  qed
qed

lemma absorb_tick_raises:
  "raises_only inner_failure (absorb_tick E st)"
  unfolding absorb_tick_def Let_def
  by (simp add: and_then_raises AbsorbSyncRequests_raises)

lemma sync_or_remove_raises:
  "raises_only inner_failure (sync_or_remove E t st)"
  unfolding sync_or_remove_def
  by (simp add: call_syncfiletag_raises split: option.splits)

lemma wait_all_raises:
  "raises_only inner_failure (pg_streaming_write_wait_all E st)"
  unfolding pg_streaming_write_wait_all_def
  by (cases "pgsw st") (simp_all add: complete_ios_raises)

lemma sync_loop_body_raises:
  "raises_only (\<lambda>f. inner_failure f \<or> f = cycle_assertion) (sync_loop_body E t st)"
proof -
  have "raises_only inner_failure (and_then (absorb_tick E st) (sync_or_remove E t))"
    by (intro and_then_raises [where F = inner_failure] absorb_tick_raises sync_or_remove_raises)
  then have "raises_only (\<lambda>f. inner_failure f \<or> f = cycle_assertion)
               (and_then (absorb_tick E st) (sync_or_remove E t))"
    by (rule raises_only_mono) simp
  then show ?thesis
    unfolding sync_loop_body_def by (simp add: cycle_assertion_def split: option.splits)
qed

lemma sync_loop_raises:
  "raises_only (\<lambda>f. inner_failure f \<or> f = cycle_assertion) (sync_loop E ts st)"
proof (induction ts arbitrary: st)
  case Nil
  then show ?case by simp
next
  case (Cons t ts)
  show ?case
    unfolding sync_loop.simps
    by (intro case_sum_raises [where F = "\<lambda>f. inner_failure f \<or> f = cycle_assertion"]
          sync_loop_body_raises Cons.IH)
qed

section \<open>The end of a pass\<close>

lemma scan_and_retry_pass_masked:
  "pass_masked (state_of (and_then (sync_loop E ts s)
      (\<lambda>s3. and_then (pg_streaming_write_wait_all E s3) (retry_bank E 0)))) = pass_masked s"
  by (intro and_then_frame [where M = pass_masked] sync_loop_pass_masked wait_all_pass_masked
        retry_bank_pass_masked)

lemma scan_and_retry_raises:
  "raises_only (\<lambda>f. inner_failure f \<or> f = cycle_assertion)
     (and_then (sync_loop E ts s)
        (\<lambda>s3. and_then (pg_streaming_write_wait_all E s3) (retry_bank E 0)))"
proof -
  have w: "raises_only (\<lambda>f. inner_failure f \<or> f = cycle_assertion) (pg_streaming_write_wait_all E s3)"
    for s3 by (rule raises_only_mono [OF wait_all_raises]) simp
  have b: "raises_only (\<lambda>f. inner_failure f \<or> f = cycle_assertion) (retry_bank E 0 s4)"
    for s4 by (rule raises_only_mono [OF retry_bank_raises]) simp
  show ?thesis
    by (intro and_then_raises [where F = "\<lambda>f. inner_failure f \<or> f = cycle_assertion"]
          sync_loop_raises w b)
qed

lemma begin_pass_Inr:
  "begin_pass s1 = Inr s2 \<Longrightarrow>
     \<not> sync_in_progress s1 \<and> sync_in_progress s2 \<and> sync_cycle_ctr s2 = sync_cycle_ctr s1 + 1 \<and>
     pendingOps s2 = pendingOps s1 \<and> ckpt_sync_rels s2 = ckpt_sync_rels s1 \<and>
     ckpt_longest_sync s2 = ckpt_longest_sync s1 \<and> ckpt_agg_sync_time s2 = ckpt_agg_sync_time s1"
  unfolding begin_pass_def Let_def
  by (cases "pgsw s1") (auto split: if_splits)

lemma begin_pass_Inl:
  "begin_pass s1 = Inl (f, s) \<Longrightarrow> s = s1 \<and> sync_in_progress s1 \<and> f = Elog PANIC ''not implemented right now''"
  unfolding begin_pass_def Let_def
  by (cases "pgsw s1") (auto split: if_splits)

lemma sync_pass_cases:
  assumes "pendingOps st = Some ops"
  obtains (absorb) x where "AbsorbSyncRequests E st = Inl x" "sync_pass E st = Inl x"
  | (stale) s1 where "AbsorbSyncRequests E st = Inr s1" "sync_in_progress s1"
      "sync_pass E st = Inl (Elog PANIC ''not implemented right now'', s1)"
  | (scan) s1 s2 where "AbsorbSyncRequests E st = Inr s1" "begin_pass s1 = Inr s2"
      "sync_pass E st = and_then (sync_loop E (hash_seq_tags s2) s2)
          (\<lambda>s3. and_then (pg_streaming_write_wait_all E s3) (retry_bank E 0))"
proof (cases "AbsorbSyncRequests E st")
  case (Inl x)
  with assms absorb show ?thesis by (simp add: sync_pass_def)
next
  case (Inr s1)
  show ?thesis
  proof (cases "begin_pass s1")
    case (Inl y)
    then have "y = (Elog PANIC ''not implemented right now'', s1)" "sync_in_progress s1"
      using begin_pass_Inl [of s1 "fst y" "snd y"] by (auto simp: prod_eq_iff)
    with Inl Inr assms stale show ?thesis by (simp add: sync_pass_def)
  next
    case (Inr s2)
    with \<open>AbsorbSyncRequests E st = Inr s1\<close> assms scan show ?thesis by (simp add: sync_pass_def)
  qed
qed

lemma sync_pass_frame:
  "ckpt_sync_rels (state_of (sync_pass E st)) = ckpt_sync_rels st \<and>
   ckpt_longest_sync (state_of (sync_pass E st)) = ckpt_longest_sync st \<and>
   ckpt_agg_sync_time (state_of (sync_pass E st)) = ckpt_agg_sync_time st \<and>
   (sync_in_progress st \<longrightarrow> sync_in_progress (state_of (sync_pass E st))) \<and>
   (\<forall>s. sync_pass E st = Inr s \<longrightarrow> sync_in_progress s)"
proof (cases "pendingOps st")
  case None
  then show ?thesis by (simp add: sync_pass_def)
next
  case (Some ops)
  note a = pass_masked_fields [OF AbsorbSyncRequests_pass_masked [of E st]]
  from Some show ?thesis
  proof (cases rule: sync_pass_cases [where E = E])
    case (absorb x)
    with a show ?thesis by simp
  next
    case (stale s1)
    with a show ?thesis by simp
  next
    case (scan s1 s2)
    note b = begin_pass_Inr [OF scan(2)]
    note c = pass_masked_fields [OF scan_and_retry_pass_masked [of E "hash_seq_tags s2" s2]]
    from scan(1) a b c show ?thesis
      unfolding scan(3) by (auto dest: arg_cong [where f = state_of])
  qed
qed

lemma sync_pass_raises:
  "raises_only (\<lambda>f. f \<noteq> queues_corrupted) (sync_pass E st)"
proof (cases "pendingOps st")
  case None
  then show ?thesis by (simp add: sync_pass_def queues_corrupted_def)
next
  case (Some ops)
  from Some show ?thesis
  proof (cases rule: sync_pass_cases [where E = E])
    case (absorb x)
    with AbsorbSyncRequests_raises [of E st] show ?thesis
      by (cases x) (simp add: inner_failure_def)
  next
    case (stale s1)
    then show ?thesis by (simp add: queues_corrupted_def)
  next
    case (scan s1 s2)
    show ?thesis
      unfolding scan(3)
      by (rule raises_only_mono [OF scan_and_retry_raises])
         (auto simp: inner_failure_def cycle_assertion_def queues_corrupted_def)
  qed
qed

text \<open>
  C9. When the pass has reached its end in state \<open>s\<close> (the scan, the wait and the retry
  loop are done), \<^verbatim>\<open>ProcessSyncRequests\<close> panics with "inflight sync requests
  corrupted" if the in-flight queue or the retry queue is not empty, leaving \<open>s\<close> as it
  is, and otherwise exports the three statistics and clears \<open>sync_in_progress\<close>. So
  after every pass that returns both queues are empty, the flag is clear and the
  statistics are the exported ones; a pass that fails exports nothing, and one that
  fails with that panic had reached its end with the flag still set and a queue not
  empty.
\<close>

theorem ProcessSyncRequests_end_of_pass:
  "(\<forall>s. sync_pass E st = Inr s \<longrightarrow>
      ProcessSyncRequests E st =
        (if inflightSyncs s \<noteq> [] \<or> retrySyncs s \<noteq> []
         then Inl (Elog PANIC ''inflight sync requests corrupted'', s)
         else Inr (s\<lparr>pgsw := None, ckpt_sync_rels := processed s,
                     ckpt_longest_sync := longest s, ckpt_agg_sync_time := total_elapsed s,
                     sync_in_progress := False\<rparr>))) \<and>
   (\<forall>st'. ProcessSyncRequests E st = Inr st' \<longrightarrow>
      inflightSyncs st' = [] \<and> retrySyncs st' = [] \<and> \<not> sync_in_progress st' \<and>
      ckpt_sync_rels st' = processed st' \<and> ckpt_longest_sync st' = longest st' \<and>
      ckpt_agg_sync_time st' = total_elapsed st') \<and>
   (\<forall>f s. ProcessSyncRequests E st = Inl (f, s) \<longrightarrow>
      ckpt_sync_rels s = ckpt_sync_rels st \<and> ckpt_longest_sync s = ckpt_longest_sync st \<and>
      ckpt_agg_sync_time s = ckpt_agg_sync_time st \<and>
      (f = Elog PANIC ''inflight sync requests corrupted'' \<longrightarrow>
         sync_pass E st = Inr s \<and> sync_in_progress s \<and>
         (inflightSyncs s \<noteq> [] \<or> retrySyncs s \<noteq> [])))"
proof (intro conjI allI impI)
  fix s
  assume "sync_pass E st = Inr s"
  then show "ProcessSyncRequests E st =
        (if inflightSyncs s \<noteq> [] \<or> retrySyncs s \<noteq> []
         then Inl (Elog PANIC ''inflight sync requests corrupted'', s)
         else Inr (s\<lparr>pgsw := None, ckpt_sync_rels := processed s,
                     ckpt_longest_sync := longest s, ckpt_agg_sync_time := total_elapsed s,
                     sync_in_progress := False\<rparr>))"
    by (simp add: ProcessSyncRequests_def finish_pass_def)
next
  fix st'
  assume r: "ProcessSyncRequests E st = Inr st'"
  then obtain s where s: "sync_pass E st = Inr s" "finish_pass s = Inr st'"
    by (auto simp: ProcessSyncRequests_def and_then_Inr_iff)
  from s(2) show "inflightSyncs st' = []" "retrySyncs st' = []" "\<not> sync_in_progress st'"
    "ckpt_sync_rels st' = processed st'" "ckpt_longest_sync st' = longest st'"
    "ckpt_agg_sync_time st' = total_elapsed st'"
    by (auto simp: finish_pass_def split: if_splits)
next
  fix f s
  assume r: "ProcessSyncRequests E st = Inl (f, s)"
  have fr: "ckpt_sync_rels s = ckpt_sync_rels st \<and> ckpt_longest_sync s = ckpt_longest_sync st \<and>
      ckpt_agg_sync_time s = ckpt_agg_sync_time st"
  proof (cases "sync_pass E st")
    case (Inl x)
    with r have "x = (f, s)" by (simp add: ProcessSyncRequests_def)
    with Inl sync_pass_frame [of E st] show ?thesis by simp
  next
    case (Inr m)
    with r have "finish_pass m = Inl (f, s)" by (simp add: ProcessSyncRequests_def)
    then have "s = m" by (auto simp: finish_pass_def split: if_splits)
    with Inr sync_pass_frame [of E st] show ?thesis by simp
  qed
  from fr show "ckpt_sync_rels s = ckpt_sync_rels st" "ckpt_longest_sync s = ckpt_longest_sync st"
    "ckpt_agg_sync_time s = ckpt_agg_sync_time st" by simp_all
  assume f: "f = Elog PANIC ''inflight sync requests corrupted''"
  have "sync_pass E st = Inr s \<and> sync_in_progress s \<and> (inflightSyncs s \<noteq> [] \<or> retrySyncs s \<noteq> [])"
  proof (cases "sync_pass E st")
    case (Inl x)
    with r have "x = (f, s)" by (simp add: ProcessSyncRequests_def)
    with Inl sync_pass_raises [of E st] f show ?thesis by (simp add: queues_corrupted_def)
  next
    case (Inr m)
    with r have fp: "finish_pass m = Inl (f, s)" by (simp add: ProcessSyncRequests_def)
    then have "s = m" "inflightSyncs m \<noteq> [] \<or> retrySyncs m \<noteq> []"
      by (auto simp: finish_pass_def split: if_splits)
    with Inr sync_pass_frame [of E st] show ?thesis by simp
  qed
  then show "sync_pass E st = Inr s" "sync_in_progress s"
    "inflightSyncs s \<noteq> [] \<or> retrySyncs s \<noteq> []" by simp_all
qed


lemmas pass_eval =
  ProcessSyncRequests_def sync_pass_def AbsorbSyncRequests_def begin_pass_def finish_pass_def
  hash_seq_tags_def sync_loop_body_def absorb_tick_def sync_or_remove_def call_syncfiletag_def
  run_sync_handler_def finish_submission_def SyncRequestCompleted_def
  pg_streaming_write_wait_all_def RetrySyncRequests_def retry_one_def retry_loop.simps
  retry_bank.simps RememberSyncRequest_def hash_find_def hash_remove_def hash_store_def
  syncsw_def data_sync_elevel_def FSYNCS_PER_ABSORB_def ENOENT_def
  checkpointer_def InitSync_def startup_def tag1_def tag2_def tag3_def
  quiet_env_def sync_succeeds_def Let_def

lemma basic_flush_eval:
  "ProcessSyncRequests quiet_env two_requests =
     Inr (two_requests\<lparr>pendingOps := Some [], sync_cycle_ctr := 1, absorb_counter := 8,
            processed := 2, longest := 1000, total_elapsed := 2000, ckpt_sync_rels := 2,
            ckpt_longest_sync := 1000, ckpt_agg_sync_time := 2000,
            sync_calls :=
              [\<lparr>if_tag = tag1, if_hash_entry = tag1, if_handler_data = 0, if_path = [],
                if_retry_count = 0, if_start_time = 0\<rparr>,
               \<lparr>if_tag = tag2, if_hash_entry = tag2, if_handler_data = 0, if_path = [],
                if_retry_count = 0, if_start_time = 2000\<rparr>],
            absorb_calls := 1, clock_reads := 4\<rparr>)"
  by (simp add: pass_eval two_requests_def)



theorem ProcessSyncRequests_end_of_pass_witness:
  "sync_pass stuck_env one_request =
     Inr (one_request\<lparr>sync_cycle_ctr := 1, sync_in_progress := True, absorb_counter := 10,
            pgsw := Some [(\<lparr>if_tag = tag1, if_hash_entry = tag1, if_handler_data = 0,
                             if_path = [], if_retry_count = 1, if_start_time = 1000\<rparr>, True, 0)],
            inflightSyncs :=
              [\<lparr>if_tag = tag1, if_hash_entry = tag1, if_handler_data = 0, if_path = [],
                if_retry_count = 1, if_start_time = 1000\<rparr>],
            sync_calls :=
              [\<lparr>if_tag = tag1, if_hash_entry = tag1, if_handler_data = 0, if_path = [],
                if_retry_count = 0, if_start_time = 0\<rparr>,
               \<lparr>if_tag = tag1, if_hash_entry = tag1, if_handler_data = 0, if_path = [],
                if_retry_count = 1, if_start_time = 1000\<rparr>],
            server_log := [(DEBUG1, ''could not fsync file %s but retrying: %m'')],
            absorb_calls := 2, clock_reads := 2\<rparr>) \<and>
   ProcessSyncRequests stuck_env one_request =
     Inl (Elog PANIC ''inflight sync requests corrupted'',
          one_request\<lparr>sync_cycle_ctr := 1, sync_in_progress := True, absorb_counter := 10,
            pgsw := Some [(\<lparr>if_tag = tag1, if_hash_entry = tag1, if_handler_data = 0,
                             if_path = [], if_retry_count = 1, if_start_time = 1000\<rparr>, True, 0)],
            inflightSyncs :=
              [\<lparr>if_tag = tag1, if_hash_entry = tag1, if_handler_data = 0, if_path = [],
                if_retry_count = 1, if_start_time = 1000\<rparr>],
            sync_calls :=
              [\<lparr>if_tag = tag1, if_hash_entry = tag1, if_handler_data = 0, if_path = [],
                if_retry_count = 0, if_start_time = 0\<rparr>,
               \<lparr>if_tag = tag1, if_hash_entry = tag1, if_handler_data = 0, if_path = [],
                if_retry_count = 1, if_start_time = 1000\<rparr>],
            server_log := [(DEBUG1, ''could not fsync file %s but retrying: %m'')],
            absorb_calls := 2, clock_reads := 2\<rparr>) \<and>
   ProcessSyncRequests quiet_env two_requests =
     Inr (two_requests\<lparr>pendingOps := Some [], sync_cycle_ctr := 1, absorb_counter := 8,
            processed := 2, longest := 1000, total_elapsed := 2000, ckpt_sync_rels := 2,
            ckpt_longest_sync := 1000, ckpt_agg_sync_time := 2000,
            sync_calls :=
              [\<lparr>if_tag = tag1, if_hash_entry = tag1, if_handler_data = 0, if_path = [],
                if_retry_count = 0, if_start_time = 0\<rparr>,
               \<lparr>if_tag = tag2, if_hash_entry = tag2, if_handler_data = 0, if_path = [],
                if_retry_count = 0, if_start_time = 2000\<rparr>],
            absorb_calls := 1, clock_reads := 4\<rparr>)"
proof -
  have p: "sync_pass stuck_env one_request =
     Inr (one_request\<lparr>sync_cycle_ctr := 1, sync_in_progress := True, absorb_counter := 10,
            pgsw := Some [(\<lparr>if_tag = tag1, if_hash_entry = tag1, if_handler_data = 0,
                             if_path = [], if_retry_count = 1, if_start_time = 1000\<rparr>, True, 0)],
            inflightSyncs :=
              [\<lparr>if_tag = tag1, if_hash_entry = tag1, if_handler_data = 0, if_path = [],
                if_retry_count = 1, if_start_time = 1000\<rparr>],
            sync_calls :=
              [\<lparr>if_tag = tag1, if_hash_entry = tag1, if_handler_data = 0, if_path = [],
                if_retry_count = 0, if_start_time = 0\<rparr>,
               \<lparr>if_tag = tag1, if_hash_entry = tag1, if_handler_data = 0, if_path = [],
                if_retry_count = 1, if_start_time = 1000\<rparr>],
            server_log := [(DEBUG1, ''could not fsync file %s but retrying: %m'')],
            absorb_calls := 2, clock_reads := 2\<rparr>)"
    by (simp add: pass_eval one_request_def stuck_env_def)
  note t = ProcessSyncRequests_end_of_pass [of stuck_env one_request, THEN conjunct1,
      rule_format, OF p]
  from t have "ProcessSyncRequests stuck_env one_request =
     Inl (Elog PANIC ''inflight sync requests corrupted'',
          one_request\<lparr>sync_cycle_ctr := 1, sync_in_progress := True, absorb_counter := 10,
            pgsw := Some [(\<lparr>if_tag = tag1, if_hash_entry = tag1, if_handler_data = 0,
                             if_path = [], if_retry_count = 1, if_start_time = 1000\<rparr>, True, 0)],
            inflightSyncs :=
              [\<lparr>if_tag = tag1, if_hash_entry = tag1, if_handler_data = 0, if_path = [],
                if_retry_count = 1, if_start_time = 1000\<rparr>],
            sync_calls :=
              [\<lparr>if_tag = tag1, if_hash_entry = tag1, if_handler_data = 0, if_path = [],
                if_retry_count = 0, if_start_time = 0\<rparr>,
               \<lparr>if_tag = tag1, if_hash_entry = tag1, if_handler_data = 0, if_path = [],
                if_retry_count = 1, if_start_time = 1000\<rparr>],
            server_log := [(DEBUG1, ''could not fsync file %s but retrying: %m'')],
            absorb_calls := 2, clock_reads := 2\<rparr>)"
    by simp
  with p basic_flush_eval show ?thesis by (intro conjI)
qed

section \<open>Entering a pass after a failed one\<close>

text \<open>
  C1, as the code has it. When \<^verbatim>\<open>ProcessSyncRequests\<close> is entered with
  \<open>sync_in_progress\<close> set (and the table exists), it absorbs the queued requests and
  then stops with the panic "not implemented right now", in the state the absorb left:
  the loop that would reset the \<open>cycle_ctr\<close> values is never reached, \<open>sync_cycle_ctr\<close>
  is not advanced and no pass is run. If the absorb itself fails, that failure is the
  result. The function never returns.
\<close>

theorem ProcessSyncRequests_stale_panics:
  assumes "sync_in_progress st" and "pendingOps st = Some ops"
  shows "(\<forall>s1. AbsorbSyncRequests E st = Inr s1 \<longrightarrow>
            ProcessSyncRequests E st = Inl (Elog PANIC ''not implemented right now'', s1)) \<and>
         (\<forall>x. AbsorbSyncRequests E st = Inl x \<longrightarrow> ProcessSyncRequests E st = Inl x) \<and>
         (\<forall>s. ProcessSyncRequests E st \<noteq> Inr s)"
proof -
  have 1: "ProcessSyncRequests E st = Inl (Elog PANIC ''not implemented right now'', s1)"
    if "AbsorbSyncRequests E st = Inr s1" for s1
  proof -
    have "sync_in_progress s1"
      using requests_masked_fields(5) [OF AbsorbSyncRequests_masked [of E st]] that assms(1)
      by simp
    with that assms(2) show ?thesis
      by (simp add: ProcessSyncRequests_def sync_pass_def begin_pass_def)
  qed
  have 2: "ProcessSyncRequests E st = Inl x" if "AbsorbSyncRequests E st = Inl x" for x
    using that assms(2) by (simp add: ProcessSyncRequests_def sync_pass_def)
  have 3: "ProcessSyncRequests E st \<noteq> Inr s" for s
    using 1 2 by (cases "AbsorbSyncRequests E st") auto
  from 1 2 3 show ?thesis by blast
qed

theorem ProcessSyncRequests_stale_panics_witness:
  "sync_in_progress interrupted \<and>
   pendingOps interrupted = Some [\<lparr>pf_tag = tag1, pf_cycle_ctr = 0, pf_canceled = False\<rparr>] \<and>
   AbsorbSyncRequests failing_env interrupted = Inr (interrupted\<lparr>absorb_calls := 2\<rparr>) \<and>
   ProcessSyncRequests failing_env interrupted =
     Inl (Elog PANIC ''not implemented right now'', interrupted\<lparr>absorb_calls := 2\<rparr>)"
proof -
  have a: "sync_in_progress interrupted"
    and b: "pendingOps interrupted = Some [\<lparr>pf_tag = tag1, pf_cycle_ctr = 0, pf_canceled = False\<rparr>]"
    and c: "AbsorbSyncRequests failing_env interrupted = Inr (interrupted\<lparr>absorb_calls := 2\<rparr>)"
    by (simp_all add: interrupted_def one_request_def AbsorbSyncRequests_def failing_env_def
          quiet_env_def)
  from ProcessSyncRequests_stale_panics [OF a b, of failing_env] a b c show ?thesis by simp
qed

text \<open>
  The claim of C1 fails on this run: the pass over \<open>one_request\<close> fails with an
  \<^verbatim>\<open>ERROR\<close> and leaves \<open>interrupted\<close>; the next \<^verbatim>\<open>ProcessSyncRequests\<close> enters with
  \<open>sync_in_progress\<close> set, and ends in the panic with the entry's \<open>cycle_ctr\<close> still 0
  while \<open>sync_cycle_ctr\<close> is 1, no flush attempted.
\<close>

theorem ProcessSyncRequests_stale_counterexample:
  "ProcessSyncRequests failing_env one_request =
     Inl (Elog ERROR ''could not fsync file %s: %m'', interrupted) \<and>
   sync_in_progress interrupted \<and>
   sync_cycle_ctr interrupted = 1 \<and>
   ProcessSyncRequests failing_env interrupted =
     Inl (Elog PANIC ''not implemented right now'', interrupted\<lparr>absorb_calls := 2\<rparr>) \<and>
   pendingOps (interrupted\<lparr>absorb_calls := 2\<rparr>) =
     Some [\<lparr>pf_tag = tag1, pf_cycle_ctr = 0, pf_canceled = False\<rparr>] \<and>
   sync_calls (interrupted\<lparr>absorb_calls := 2\<rparr>) = sync_calls interrupted"
  by (simp add: pass_eval one_request_def failing_env_def interrupted_def)

section \<open>The counters of the table entries\<close>

lemma table_simps [simp]:
  "table (st\<lparr>pendingOps := Some ops\<rparr>) = ops"
  "table (st\<lparr>pendingUnlinks := b\<rparr>) = table st"
  "table (st\<lparr>inflightSyncs := c\<rparr>) = table st"
  "table (st\<lparr>retrySyncs := d\<rparr>) = table st"
  "table (st\<lparr>absorb_counter := g\<rparr>) = table st"
  "table (st\<lparr>pgsw := h\<rparr>) = table st"
  "table (st\<lparr>processed := i\<rparr>) = table st"
  "table (st\<lparr>longest := j\<rparr>) = table st"
  "table (st\<lparr>total_elapsed := k\<rparr>) = table st"
  "table (st\<lparr>sync_calls := l\<rparr>) = table st"
  "table (st\<lparr>absorb_calls := m\<rparr>) = table st"
  "table (st\<lparr>clock_reads := n\<rparr>) = table st"
  "table (st\<lparr>server_log := p\<rparr>) = table st"
  "table (st\<lparr>sync_cycle_ctr := q\<rparr>) = table st"
  "table (st\<lparr>sync_in_progress := r\<rparr>) = table st"
  by (simp_all add: table_def)

lemma table_Some: "pendingOps st = Some ops \<Longrightarrow> table st = ops"
  by (simp add: table_def)

lemma cycle_ok_simps [simp]:
  "cycle_ok (st\<lparr>pendingUnlinks := b\<rparr>) = cycle_ok st"
  "cycle_ok (st\<lparr>inflightSyncs := c\<rparr>) = cycle_ok st"
  "cycle_ok (st\<lparr>retrySyncs := d\<rparr>) = cycle_ok st"
  "cycle_ok (st\<lparr>absorb_counter := g\<rparr>) = cycle_ok st"
  "cycle_ok (st\<lparr>pgsw := h\<rparr>) = cycle_ok st"
  "cycle_ok (st\<lparr>processed := i\<rparr>) = cycle_ok st"
  "cycle_ok (st\<lparr>longest := j\<rparr>) = cycle_ok st"
  "cycle_ok (st\<lparr>total_elapsed := k\<rparr>) = cycle_ok st"
  "cycle_ok (st\<lparr>sync_calls := l\<rparr>) = cycle_ok st"
  "cycle_ok (st\<lparr>absorb_calls := m\<rparr>) = cycle_ok st"
  "cycle_ok (st\<lparr>clock_reads := n\<rparr>) = cycle_ok st"
  "cycle_ok (st\<lparr>server_log := p\<rparr>) = cycle_ok st"
  by (simp_all add: cycle_ok_def)

lemma all_current_simps [simp]:
  "all_current (st\<lparr>pendingUnlinks := b\<rparr>) = all_current st"
  "all_current (st\<lparr>absorb_calls := m\<rparr>) = all_current st"
  "all_current (st\<lparr>checkpoint_cycle_ctr := c\<rparr>) = all_current st"
  by (simp_all add: all_current_def table_def)

lemma set_hash_store: "set (hash_store e ops) \<subseteq> insert e (set ops)"
  by (auto simp: hash_store_def)

lemma cycle_ok_subset:
  "cycle_ok st \<Longrightarrow> set ops' \<subseteq> set (table st) \<Longrightarrow> cycle_ok (st\<lparr>pendingOps := Some ops'\<rparr>)"
  by (auto simp: cycle_ok_def)

lemma hash_remove_subset: "hash_remove t ops = Some ops' \<Longrightarrow> set ops' \<subseteq> set ops"
  by (auto simp: hash_remove_def split: option.splits)

text \<open>
  A predicate on the entries' counters that holds of a fresh entry survives every
  request.
\<close>

lemma RememberSyncRequest_counters:
  assumes "\<forall>e \<in> set (table st). P (pf_cycle_ctr e)" "P (sync_cycle_ctr st)"
  shows "\<forall>e \<in> set (table (state_of (RememberSyncRequest E ftag ty st))). P (pf_cycle_ctr e)"
proof (cases "pendingOps st")
  case None
  with assms show ?thesis by (simp add: RememberSyncRequest_def)
next
  case (Some ops)
  then have t: "table st = ops" by (simp add: table_def)
  show ?thesis
  proof (cases ty)
    case SYNC_REQUEST
    show ?thesis
    proof (cases "hash_find ftag ops")
      case None
      with Some SYNC_REQUEST assms t show ?thesis by (simp add: RememberSyncRequest_def)
    next
      case (Some e)
      then have "e \<in> set ops" using hash_find_Some_tag by blast
      with Some \<open>pendingOps st = Some ops\<close> SYNC_REQUEST assms t show ?thesis
        using set_hash_store [of "e\<lparr>pf_cycle_ctr := sync_cycle_ctr st, pf_canceled := False\<rparr>" ops]
        by (auto simp: RememberSyncRequest_def)
    qed
  next
    case SYNC_UNLINK_REQUEST
    with Some assms show ?thesis by (simp add: RememberSyncRequest_def)
  next
    case SYNC_FORGET_REQUEST
    show ?thesis
    proof (cases "hash_find ftag ops")
      case None
      with Some SYNC_FORGET_REQUEST assms t show ?thesis by (simp add: RememberSyncRequest_def)
    next
      case (Some e)
      then have "e \<in> set ops" using hash_find_Some_tag by blast
      with Some \<open>pendingOps st = Some ops\<close> SYNC_FORGET_REQUEST assms t show ?thesis
        using set_hash_store [of "e\<lparr>pf_canceled := True\<rparr>" ops]
        by (auto simp: RememberSyncRequest_def)
    qed
  next
    case SYNC_FILTER_REQUEST
    show ?thesis
    proof (cases "cancel_matching E ftag ops")
      case None
      with Some SYNC_FILTER_REQUEST assms show ?thesis by (simp add: RememberSyncRequest_def)
    next
      case (Some ops')
      from cancel_matching_eq [OF Some] assms(1) t
      have "\<forall>e \<in> set ops'. P (pf_cycle_ctr e)" by auto
      with Some \<open>pendingOps st = Some ops\<close> SYNC_FILTER_REQUEST show ?thesis
        by (simp add: RememberSyncRequest_def split: option.splits)
    qed
  qed
qed

lemma RememberSyncRequest_sync_cycle_ctr:
  "sync_cycle_ctr (state_of (RememberSyncRequest E ftag ty st)) = sync_cycle_ctr st"
  using requests_masked_fields(3) [OF RememberSyncRequest_masked [of E ftag ty st]] .

lemma RememberSyncRequest_cycle_ok:
  "cycle_ok st \<Longrightarrow> cycle_ok (state_of (RememberSyncRequest E ftag ty st))"
  using RememberSyncRequest_counters
    [of st "\<lambda>c. c = sync_cycle_ctr st \<or> c + 1 = sync_cycle_ctr st" E ftag ty]
  by (simp add: cycle_ok_def RememberSyncRequest_sync_cycle_ctr)

lemma RememberSyncRequest_all_current:
  "all_current st \<Longrightarrow> all_current (state_of (RememberSyncRequest E ftag ty st))"
  using RememberSyncRequest_counters [of st "\<lambda>c. c = sync_cycle_ctr st" E ftag ty]
  by (simp add: all_current_def RememberSyncRequest_sync_cycle_ctr)

lemma remember_all_cycle_ok:
  "cycle_ok st \<Longrightarrow> cycle_ok (state_of (remember_all E rs st))"
proof (induction rs arbitrary: st)
  case Nil
  then show ?case by simp
next
  case (Cons r rs)
  show ?case
    unfolding remember_all.simps
    using Cons.prems
    by (intro and_then_inv [where P = cycle_ok] RememberSyncRequest_cycle_ok Cons.IH)
qed

lemma remember_all_all_current:
  "all_current st \<Longrightarrow> all_current (state_of (remember_all E rs st))"
proof (induction rs arbitrary: st)
  case Nil
  then show ?case by simp
next
  case (Cons r rs)
  show ?case
    unfolding remember_all.simps
    using Cons.prems
    by (intro and_then_inv [where P = all_current] RememberSyncRequest_all_current Cons.IH)
qed

lemma AbsorbSyncRequests_cycle_ok:
  "cycle_ok st \<Longrightarrow> cycle_ok (state_of (AbsorbSyncRequests E st))"
  unfolding AbsorbSyncRequests_def by (rule remember_all_cycle_ok) simp

lemma AbsorbSyncRequests_all_current:
  "all_current st \<Longrightarrow> all_current (state_of (AbsorbSyncRequests E st))"
  unfolding AbsorbSyncRequests_def by (rule remember_all_all_current) simp

lemma SyncRequestCompleted_cycle_ok:
  "cycle_ok st \<Longrightarrow> cycle_ok (state_of (SyncRequestCompleted E e ok err st))"
  unfolding SyncRequestCompleted_def
  by (auto simp: Let_def table_Some split: option.splits
        intro!: cycle_ok_subset dest!: hash_remove_subset)

lemma complete_ios_cycle_ok:
  "cycle_ok st \<Longrightarrow> cycle_ok (state_of (complete_ios E n st))"
proof (induction n arbitrary: st)
  case 0
  then show ?case by simp
next
  case (Suc n)
  show ?case
  proof (cases "pgsw st")
    case None
    with Suc.prems show ?thesis by simp
  next
    case (Some ios)
    show ?thesis
    proof (cases ios)
      case Nil
      with Some Suc.prems show ?thesis by simp
    next
      case (Cons io ios')
      have "cycle_ok (st\<lparr>pgsw := Some ios'\<rparr>)"
        using Suc.prems by simp
      then have "cycle_ok (state_of (and_then
            (SyncRequestCompleted E (fst io) (fst (snd io)) (snd (snd io)) (st\<lparr>pgsw := Some ios'\<rparr>))
            (complete_ios E n)))"
        by (intro and_then_inv [where P = cycle_ok] SyncRequestCompleted_cycle_ok Suc.IH)
      then show ?thesis
        using Some Cons by simp
    qed
  qed
qed

lemma finish_submission_cycle_ok:
  "cycle_ok st \<Longrightarrow> cycle_ok (state_of (finish_submission E e out st))"
  unfolding finish_submission_def
  by (cases "so_inline out"; cases "pgsw st") (simp_all add: SyncRequestCompleted_cycle_ok)

lemma run_sync_handler_cycle_ok:
  "cycle_ok st \<Longrightarrow> cycle_ok (state_of (run_sync_handler E f e st))"
  unfolding run_sync_handler_def Let_def
  by (intro and_then_inv [where P = cycle_ok] complete_ios_cycle_ok finish_submission_cycle_ok)
     simp_all

lemma call_syncfiletag_cycle_ok:
  "cycle_ok st \<Longrightarrow> cycle_ok (state_of (call_syncfiletag E e st))"
  unfolding call_syncfiletag_def Let_def
  by (simp add: run_sync_handler_cycle_ok split: option.splits)

lemma absorb_tick_cycle_ok:
  assumes "cycle_ok st"
  shows "cycle_ok (state_of (absorb_tick E st))"
proof (cases "absorb_counter st - 1 \<le> 0")
  case False
  with assms show ?thesis by (simp add: absorb_tick_def Let_def)
next
  case True
  have "cycle_ok (state_of (and_then (AbsorbSyncRequests E (st\<lparr>absorb_counter := absorb_counter st - 1\<rparr>))
             (\<lambda>s. Inr (s\<lparr>absorb_counter := FSYNCS_PER_ABSORB\<rparr>))))"
    using assms by (intro and_then_inv [where P = cycle_ok] AbsorbSyncRequests_cycle_ok) simp_all
  with True show ?thesis by (simp add: absorb_tick_def Let_def)
qed

lemma sync_or_remove_cycle_ok:
  "cycle_ok st \<Longrightarrow> cycle_ok (state_of (sync_or_remove E t st))"
  unfolding sync_or_remove_def
  by (auto simp: call_syncfiletag_cycle_ok table_Some split: option.splits
        intro!: cycle_ok_subset dest!: hash_remove_subset)

lemma sync_loop_body_cycle_ok:
  assumes "cycle_ok st"
  shows "cycle_ok (state_of (sync_loop_body E t st))"
proof -
  have "cycle_ok (state_of (and_then (absorb_tick E st) (sync_or_remove E t)))"
    using assms
    by (intro and_then_inv [where P = cycle_ok] absorb_tick_cycle_ok sync_or_remove_cycle_ok)
  with assms show ?thesis
    unfolding sync_loop_body_def by (simp split: option.splits)
qed

lemma sync_loop_body_no_assert:
  assumes "cycle_ok st"
  shows "raises_only inner_failure (sync_loop_body E t st)"
proof -
  have r: "raises_only inner_failure (and_then (absorb_tick E st) (sync_or_remove E t))"
    by (intro and_then_raises [where F = inner_failure] absorb_tick_raises sync_or_remove_raises)
  show ?thesis
  proof (cases "pendingOps st")
    case None
    then show ?thesis by (simp add: sync_loop_body_def)
  next
    case (Some ops)
    show ?thesis
    proof (cases "hash_find t ops")
      case None
      with Some show ?thesis by (simp add: sync_loop_body_def)
    next
      case (Some e)
      then have "e \<in> set (table st)"
        using hash_find_Some_tag [OF Some] \<open>pendingOps st = Some ops\<close> by (simp add: table_def)
      with assms have "pf_cycle_ctr e = sync_cycle_ctr st \<or> pf_cycle_ctr e + 1 = sync_cycle_ctr st"
        by (auto simp: cycle_ok_def)
      with Some \<open>pendingOps st = Some ops\<close> r show ?thesis
        by (auto simp: sync_loop_body_def)
    qed
  qed
qed

lemma sync_loop_no_assert:
  "cycle_ok st \<Longrightarrow> raises_only inner_failure (sync_loop E ts st)"
proof (induction ts arbitrary: st)
  case Nil
  then show ?case by simp
next
  case (Cons t ts)
  show ?case
  proof (cases "sync_loop_body E t st")
    case (Inl x)
    with sync_loop_body_no_assert [OF Cons.prems, of E t] show ?thesis by simp
  next
    case (Inr s)
    with sync_loop_body_cycle_ok [OF Cons.prems, of E t] have "cycle_ok s" by simp
    from Cons.IH [OF this] Inr show ?thesis by simp
  qed
qed


section \<open>The calls of the handlers' sync function\<close>

lemma syncsw_has_sync: "sync_syncfiletag (syncsw E h) \<noteq> None"
  by (cases h) (simp_all add: syncsw_def)

lemma AbsorbSyncRequests_sync_calls:
  "sync_calls (state_of (AbsorbSyncRequests E st)) = sync_calls st"
  using requests_masked_fields(16) [OF AbsorbSyncRequests_masked [of E st]] .

lemma SyncRequestCompleted_sync_calls:
  "sync_calls (state_of (SyncRequestCompleted E e ok err st)) = sync_calls st"
  unfolding SyncRequestCompleted_def
  by (simp add: Let_def split: option.splits)

lemma complete_ios_sync_calls:
  "sync_calls (state_of (complete_ios E n st)) = sync_calls st"
proof (induction n arbitrary: st)
  case 0
  then show ?case by simp
next
  case (Suc n)
  show ?case
  proof (cases "pgsw st")
    case None
    then show ?thesis by simp
  next
    case (Some ios)
    show ?thesis
    proof (cases ios)
      case Nil
      with Some show ?thesis by simp
    next
      case (Cons io ios')
      have "sync_calls (state_of (and_then
            (SyncRequestCompleted E (fst io) (fst (snd io)) (snd (snd io)) (st\<lparr>pgsw := Some ios'\<rparr>))
            (complete_ios E n))) = sync_calls (st\<lparr>pgsw := Some ios'\<rparr>)"
        by (intro and_then_frame [where M = sync_calls] SyncRequestCompleted_sync_calls Suc.IH)
      then show ?thesis
        using Some Cons by simp
    qed
  qed
qed

lemma finish_submission_sync_calls:
  "sync_calls (state_of (finish_submission E e out st)) = sync_calls st"
  unfolding finish_submission_def
  by (cases "so_inline out"; cases "pgsw st") (simp_all add: SyncRequestCompleted_sync_calls)

lemma run_sync_handler_sync_calls:
  "sync_calls (state_of (run_sync_handler E f e st)) = sync_calls st @ [e]"
proof -
  have "sync_calls (state_of (run_sync_handler E f e st)) =
          sync_calls (st\<lparr>sync_calls := sync_calls st @ [e]\<rparr>)"
    unfolding run_sync_handler_def Let_def
    by (intro and_then_frame [where M = sync_calls] complete_ios_sync_calls
          finish_submission_sync_calls)
  then show ?thesis by simp
qed

lemma call_syncfiletag_sync_calls:
  "sync_calls (state_of (call_syncfiletag E e st)) =
     sync_calls st @ [e\<lparr>if_start_time := clock E (clock_reads st)\<rparr>]"
  using syncsw_has_sync [of E "handler (if_tag e)"]
  unfolding call_syncfiletag_def Let_def
  by (auto simp: run_sync_handler_sync_calls)

lemma absorb_tick_sync_calls:
  "sync_calls (state_of (absorb_tick E st)) = sync_calls st"
proof (cases "absorb_counter st - 1 \<le> 0")
  case False
  then show ?thesis by (simp add: absorb_tick_def Let_def)
next
  case True
  have "sync_calls (state_of (and_then (AbsorbSyncRequests E (st\<lparr>absorb_counter := absorb_counter st - 1\<rparr>))
             (\<lambda>s. Inr (s\<lparr>absorb_counter := FSYNCS_PER_ABSORB\<rparr>)))) =
        sync_calls (st\<lparr>absorb_counter := absorb_counter st - 1\<rparr>)"
    by (intro and_then_frame [where M = sync_calls] AbsorbSyncRequests_sync_calls) simp
  with True show ?thesis by (simp add: absorb_tick_def Let_def)
qed

section \<open>No request removes a table entry\<close>

lemma cancel_matching_tags:
  "cancel_matching E ftag ops = Some ops' \<Longrightarrow> map pf_tag ops' = map pf_tag ops"
  by (drule cancel_matching_eq) (simp add: comp_def if_distrib [of pf_tag] cong: if_cong)

lemma RememberSyncRequest_keeps_tags:
  assumes "t \<in> pf_tag ` set (table st)"
  shows "t \<in> pf_tag ` set (table (state_of (RememberSyncRequest E ftag ty st)))"
proof (cases "pendingOps st")
  case None
  with assms show ?thesis by (simp add: table_def)
next
  case (Some ops)
  with assms have t: "t \<in> pf_tag ` set ops" by (simp add: table_def)
  have h: "t \<in> pf_tag ` set (hash_store e ops)" for e
    using t map_tag_store [of e ops] by (metis image_set)
  have st: "t \<in> pf_tag ` set (table st)" by fact
  show ?thesis
  proof (cases ty)
    case SYNC_REQUEST
    with Some t h st show ?thesis
      by (cases "hash_find ftag ops") (simp_all add: RememberSyncRequest_def)
  next
    case SYNC_UNLINK_REQUEST
    with Some st show ?thesis by (simp add: RememberSyncRequest_def)
  next
    case SYNC_FORGET_REQUEST
    with Some t h st show ?thesis
      by (cases "hash_find ftag ops") (simp_all add: RememberSyncRequest_def)
  next
    case SYNC_FILTER_REQUEST
    show ?thesis
    proof (cases "cancel_matching E ftag ops")
      case None
      with Some SYNC_FILTER_REQUEST st show ?thesis by (simp add: RememberSyncRequest_def)
    next
      case (Some ops')
      have "t \<in> pf_tag ` set ops'"
        using cancel_matching_tags [OF Some] t by (metis image_set)
      with Some \<open>pendingOps st = Some ops\<close> SYNC_FILTER_REQUEST show ?thesis
        by (cases "remove_matching E ftag (pendingUnlinks st)")
           (simp_all add: RememberSyncRequest_def)
    qed
  qed
qed

lemma remember_all_keeps_tags:
  "t \<in> pf_tag ` set (table st) \<Longrightarrow> t \<in> pf_tag ` set (table (state_of (remember_all E rs st)))"
proof (induction rs arbitrary: st)
  case Nil
  then show ?case by simp
next
  case (Cons r rs)
  show ?case
    unfolding remember_all.simps
    using Cons.prems
    by (intro and_then_inv [where P = "\<lambda>s. t \<in> pf_tag ` set (table s)"]
          RememberSyncRequest_keeps_tags Cons.IH)
qed

lemma AbsorbSyncRequests_keeps_tags:
  "t \<in> pf_tag ` set (table st) \<Longrightarrow>
     t \<in> pf_tag ` set (table (state_of (AbsorbSyncRequests E st)))"
  unfolding AbsorbSyncRequests_def by (rule remember_all_keeps_tags) simp

lemma absorb_tick_keeps_tags:
  assumes "t \<in> pf_tag ` set (table st)"
  shows "t \<in> pf_tag ` set (table (state_of (absorb_tick E st)))"
proof (cases "absorb_counter st - 1 \<le> 0")
  case False
  with assms show ?thesis by (simp add: absorb_tick_def Let_def)
next
  case True
  have "t \<in> pf_tag ` set (table (state_of (and_then
          (AbsorbSyncRequests E (st\<lparr>absorb_counter := absorb_counter st - 1\<rparr>))
          (\<lambda>s. Inr (s\<lparr>absorb_counter := FSYNCS_PER_ABSORB\<rparr>)))))"
    using assms
    by (intro and_then_inv [where P = "\<lambda>s. t \<in> pf_tag ` set (table s)"]
          AbsorbSyncRequests_keeps_tags) simp_all
  with True show ?thesis by (simp add: absorb_tick_def Let_def)
qed

lemma table_entry:
  "t \<in> pf_tag ` set (table st) \<Longrightarrow>
     \<exists>ops e. pendingOps st = Some ops \<and> hash_find t ops = Some e"
  by (cases "pendingOps st"; cases "hash_find t (table st)")
     (auto simp: table_def hash_find_None_iff)


section \<open>The scan of the table\<close>

lemma sync_loop_body_eligible:
  assumes ops: "pendingOps st = Some ops" and e: "hash_find t ops = Some entry"
    and new: "pf_cycle_ctr entry \<noteq> sync_cycle_ctr st"
    and old: "pf_cycle_ctr entry + 1 = sync_cycle_ctr st"
    and tick: "absorb_tick E st = Inr s1"
  shows "\<exists>ops1 entry1. pendingOps s1 = Some ops1 \<and> hash_find t ops1 = Some entry1 \<and>
           sync_loop_body E t st =
             (if \<not> enableFsync s1 \<or> pf_canceled entry1
              then Inr (s1\<lparr>pendingOps := Some (filter (\<lambda>x. pf_tag x \<noteq> t) ops1)\<rparr>)
              else call_syncfiletag E
                     \<lparr>if_tag = t, if_hash_entry = t, if_handler_data = 0, if_path = [],
                      if_retry_count = 0, if_start_time = 0\<rparr> s1) \<and>
           sync_calls (state_of (sync_loop_body E t st)) =
             (if \<not> enableFsync s1 \<or> pf_canceled entry1 then sync_calls st
              else sync_calls st @
                     [\<lparr>if_tag = t, if_hash_entry = t, if_handler_data = 0, if_path = [],
                       if_retry_count = 0, if_start_time = clock E (clock_reads s1)\<rparr>])"
proof -
  have "t \<in> pf_tag ` set (table st)"
    using hash_find_Some_tag [OF e] ops by (auto simp: table_def)
  from absorb_tick_keeps_tags [OF this, of E] tick
  have "t \<in> pf_tag ` set (table s1)" by simp
  then obtain ops1 entry1 where 1: "pendingOps s1 = Some ops1" "hash_find t ops1 = Some entry1"
    using table_entry by blast
  have tg: "pf_tag entry1 = t" using hash_find_Some_tag [OF 1(2)] by simp
  have sc: "sync_calls s1 = sync_calls st"
    using absorb_tick_sync_calls [of E st] tick by simp
  have body: "sync_loop_body E t st = sync_or_remove E t s1"
    using ops e new old tick by (simp add: sync_loop_body_def)
  have sor: "sync_or_remove E t s1 =
             (if \<not> enableFsync s1 \<or> pf_canceled entry1
              then Inr (s1\<lparr>pendingOps := Some (filter (\<lambda>x. pf_tag x \<noteq> t) ops1)\<rparr>)
              else call_syncfiletag E
                     \<lparr>if_tag = t, if_hash_entry = t, if_handler_data = 0, if_path = [],
                      if_retry_count = 0, if_start_time = 0\<rparr> s1)"
    using 1 tg by (simp add: sync_or_remove_def hash_remove_def)
  have "sync_calls (state_of (sync_or_remove E t s1)) =
             (if \<not> enableFsync s1 \<or> pf_canceled entry1 then sync_calls st
              else sync_calls st @
                     [\<lparr>if_tag = t, if_hash_entry = t, if_handler_data = 0, if_path = [],
                       if_retry_count = 0, if_start_time = clock E (clock_reads s1)\<rparr>])"
    unfolding sor using sc by (simp add: call_syncfiletag_sync_calls)
  with 1 body sor show ?thesis by simp
qed

lemma sync_or_remove_sync_calls:
  "\<exists>cs. sync_calls (state_of (sync_or_remove E t st)) = sync_calls st @ cs \<and>
        (cs = [] \<or> (\<exists>c. cs = [c] \<and> if_hash_entry c = t \<and> if_tag c = t \<and> if_retry_count c = 0))"
proof (cases "pendingOps st")
  case None
  then show ?thesis by (simp add: sync_or_remove_def)
next
  case (Some ops)
  show ?thesis
  proof (cases "hash_find t ops")
    case None
    with Some show ?thesis by (simp add: sync_or_remove_def)
  next
    case (Some entry)
    then have tg: "pf_tag entry = t" using hash_find_Some_tag by blast
    show ?thesis
    proof (cases "\<not> enableFsync st \<or> pf_canceled entry")
      case True
      with Some \<open>pendingOps st = Some ops\<close> show ?thesis
        by (auto simp: sync_or_remove_def split: option.splits)
    next
      case False
      with Some \<open>pendingOps st = Some ops\<close> tg show ?thesis
        by (simp add: sync_or_remove_def call_syncfiletag_sync_calls)
    qed
  qed
qed

lemma sync_loop_body_sync_calls:
  "\<exists>cs. sync_calls (state_of (sync_loop_body E t st)) = sync_calls st @ cs \<and>
        (cs = [] \<or> (\<exists>c. cs = [c] \<and> if_hash_entry c = t \<and> if_tag c = t \<and> if_retry_count c = 0))"
proof -
  have "\<exists>cs. sync_calls (state_of (and_then (absorb_tick E st) (sync_or_remove E t))) =
          sync_calls st @ cs \<and>
        (cs = [] \<or> (\<exists>c. cs = [c] \<and> if_hash_entry c = t \<and> if_tag c = t \<and> if_retry_count c = 0))"
  proof (cases "absorb_tick E st")
    case (Inl x)
    with absorb_tick_sync_calls [of E st] show ?thesis by simp
  next
    case (Inr s1)
    with absorb_tick_sync_calls [of E st] sync_or_remove_sync_calls [of E t s1]
    show ?thesis by simp
  qed
  then show ?thesis
    unfolding sync_loop_body_def by (simp split: option.splits)
qed

lemma sync_loop_sync_calls:
  "\<exists>cs. sync_calls (state_of (sync_loop E ts st)) = sync_calls st @ cs \<and>
        (\<forall>t. count_list (map if_hash_entry cs) t \<le> count_list ts t) \<and>
        (\<forall>c \<in> set cs. if_tag c = if_hash_entry c \<and> if_retry_count c = 0)"
proof (induction ts arbitrary: st)
  case Nil
  then show ?case by simp
next
  case (Cons t ts)
  obtain cs where cs: "sync_calls (state_of (sync_loop_body E t st)) = sync_calls st @ cs"
    "cs = [] \<or> (\<exists>c. cs = [c] \<and> if_hash_entry c = t \<and> if_tag c = t \<and> if_retry_count c = 0)"
    using sync_loop_body_sync_calls [of E t st] by blast
  show ?case
  proof (cases "sync_loop_body E t st")
    case (Inl x)
    with cs show ?thesis by (intro exI [of _ cs]) auto
  next
    case (Inr s)
    obtain ds where ds: "sync_calls (state_of (sync_loop E ts s)) = sync_calls s @ ds"
      "\<forall>u. count_list (map if_hash_entry ds) u \<le> count_list ts u"
      "\<forall>c \<in> set ds. if_tag c = if_hash_entry c \<and> if_retry_count c = 0"
      using Cons.IH [of s] by blast
    have "\<forall>u. count_list (map if_hash_entry (cs @ ds)) u \<le> count_list (t # ts) u"
      using cs(2) ds(2) by (auto simp: le_SucI)
    with Inr cs ds show ?thesis by (intro exI [of _ "cs @ ds"]) auto
  qed
qed

lemma ProcessSyncRequests_no_assert:
  assumes "all_current st"
  shows "raises_only (\<lambda>f. f \<noteq> cycle_assertion) (ProcessSyncRequests E st)"
proof -
  have i: "inner_failure f \<Longrightarrow> f \<noteq> cycle_assertion" for f
    by (simp add: inner_failure_def)
  have "raises_only (\<lambda>f. f \<noteq> cycle_assertion) (sync_pass E st)"
  proof (cases "pendingOps st")
    case None
    then show ?thesis by (simp add: sync_pass_def cycle_assertion_def)
  next
    case (Some ops)
    from Some show ?thesis
    proof (cases rule: sync_pass_cases [where E = E])
      case (absorb x)
      with AbsorbSyncRequests_raises [of E st] show ?thesis
        by (cases x) (simp add: i)
    next
      case (stale s1)
      then show ?thesis by (simp add: cycle_assertion_def)
    next
      case (scan s1 s2)
      have "all_current s1"
        using AbsorbSyncRequests_all_current [OF assms, of E] scan(1) by simp
      moreover have "table s2 = table s1" "sync_cycle_ctr s2 = sync_cycle_ctr s1 + 1"
        using begin_pass_Inr [OF scan(2)] by (simp_all add: table_def)
      ultimately have ok: "cycle_ok s2"
        by (simp add: cycle_ok_def all_current_def)
      have "raises_only inner_failure (and_then (sync_loop E (hash_seq_tags s2) s2)
          (\<lambda>s3. and_then (pg_streaming_write_wait_all E s3) (retry_bank E 0)))"
        by (intro and_then_raises [where F = inner_failure] sync_loop_no_assert [OF ok]
              wait_all_raises retry_bank_raises)
      then show ?thesis
        unfolding scan(3) by (rule raises_only_mono) (simp add: i)
    qed
  qed
  moreover have "raises_only (\<lambda>f. f \<noteq> cycle_assertion) (finish_pass s)" for s
    by (simp add: finish_pass_def cycle_assertion_def)
  ultimately show ?thesis
    unfolding ProcessSyncRequests_def
    by (intro and_then_raises [where F = "\<lambda>f. f \<noteq> cycle_assertion"])
qed


section \<open>The retry loop\<close>

lemma flush_masked_simps [simp]:
  "flush_masked (st\<lparr>pendingOps := a\<rparr>) = flush_masked st"
  "flush_masked (st\<lparr>inflightSyncs := c\<rparr>) = flush_masked st"
  "flush_masked (st\<lparr>retrySyncs := d\<rparr>) = flush_masked st"
  "flush_masked (st\<lparr>pgsw := h\<rparr>) = flush_masked st"
  "flush_masked (st\<lparr>processed := i\<rparr>) = flush_masked st"
  "flush_masked (st\<lparr>longest := j\<rparr>) = flush_masked st"
  "flush_masked (st\<lparr>total_elapsed := k\<rparr>) = flush_masked st"
  "flush_masked (st\<lparr>sync_calls := l\<rparr>) = flush_masked st"
  "flush_masked (st\<lparr>clock_reads := n\<rparr>) = flush_masked st"
  "flush_masked (st\<lparr>server_log := p\<rparr>) = flush_masked st"
  by (simp_all add: flush_masked_def)

lemma flush_masked_fields:
  assumes "flush_masked st' = flush_masked st"
  shows "absorb_calls st' = absorb_calls st" "absorb_counter st' = absorb_counter st"
    "pendingUnlinks st' = pendingUnlinks st" "enableFsync st' = enableFsync st"
proof -
  note eq = arg_cong [OF assms]
  show "absorb_calls st' = absorb_calls st"
    using eq [of absorb_calls] by (simp add: flush_masked_def)
  show "absorb_counter st' = absorb_counter st"
    using eq [of absorb_counter] by (simp add: flush_masked_def)
  show "pendingUnlinks st' = pendingUnlinks st"
    using eq [of pendingUnlinks] by (simp add: flush_masked_def)
  show "enableFsync st' = enableFsync st"
    using eq [of enableFsync] by (simp add: flush_masked_def)
qed

lemma SyncRequestCompleted_flush_masked:
  "flush_masked (state_of (SyncRequestCompleted E e ok err st)) = flush_masked st"
  unfolding SyncRequestCompleted_def
  by (simp add: Let_def split: option.splits)

lemma complete_ios_flush_masked:
  "flush_masked (state_of (complete_ios E n st)) = flush_masked st"
proof (induction n arbitrary: st)
  case 0
  then show ?case by simp
next
  case (Suc n)
  show ?case
  proof (cases "pgsw st")
    case None
    then show ?thesis by simp
  next
    case (Some ios)
    show ?thesis
    proof (cases ios)
      case Nil
      with Some show ?thesis by simp
    next
      case (Cons io ios')
      have "flush_masked (state_of (and_then
            (SyncRequestCompleted E (fst io) (fst (snd io)) (snd (snd io)) (st\<lparr>pgsw := Some ios'\<rparr>))
            (complete_ios E n))) = flush_masked (st\<lparr>pgsw := Some ios'\<rparr>)"
        by (intro and_then_frame [where M = flush_masked] SyncRequestCompleted_flush_masked Suc.IH)
      then show ?thesis
        using Some Cons by simp
    qed
  qed
qed

lemma finish_submission_flush_masked:
  "flush_masked (state_of (finish_submission E e out st)) = flush_masked st"
  unfolding finish_submission_def
  by (cases "so_inline out"; cases "pgsw st") (simp_all add: SyncRequestCompleted_flush_masked)

lemma run_sync_handler_flush_masked:
  "flush_masked (state_of (run_sync_handler E f e st)) = flush_masked st"
proof -
  have "flush_masked (state_of (run_sync_handler E f e st)) =
          flush_masked (st\<lparr>sync_calls := sync_calls st @ [e]\<rparr>)"
    unfolding run_sync_handler_def Let_def
    by (intro and_then_frame [where M = flush_masked] complete_ios_flush_masked
          finish_submission_flush_masked)
  then show ?thesis by simp
qed

lemma call_syncfiletag_flush_masked:
  "flush_masked (state_of (call_syncfiletag E e st)) = flush_masked st"
  unfolding call_syncfiletag_def Let_def
  by (simp add: run_sync_handler_flush_masked split: option.splits)

lemma retry_one_flush_masked:
  "flush_masked (state_of (retry_one E e st)) = flush_masked st"
  unfolding retry_one_def
  by (simp add: call_syncfiletag_flush_masked split: option.splits)

lemma retry_loop_flush_masked:
  "flush_masked (state_of (retry_loop E st)) = flush_masked st"
proof (induction E st rule: retry_loop.induct)
  case (1 E st)
  show ?case
  proof (cases "retrySyncs st")
    case Nil
    then show ?thesis by (subst retry_loop.simps) simp
  next
    case (Cons e rest)
    have "flush_masked (state_of (case retry_one E e (st\<lparr>retrySyncs := rest\<rparr>) of
             Inl f \<Rightarrow> Inl f | Inr st' \<Rightarrow> retry_loop E st')) = flush_masked (st\<lparr>retrySyncs := rest\<rparr>)"
    proof (cases "retry_one E e (st\<lparr>retrySyncs := rest\<rparr>)")
      case (Inl f)
      with retry_one_flush_masked [of E e "st\<lparr>retrySyncs := rest\<rparr>"] show ?thesis by simp
    next
      case (Inr s)
      with retry_one_flush_masked [of E e "st\<lparr>retrySyncs := rest\<rparr>"] "1.IH" [OF Cons Inr]
      show ?thesis by simp
    qed
    then show ?thesis
      using Cons by (subst retry_loop.simps) simp
  qed
qed

lemma AbsorbSyncRequests_absorb_calls:
  "absorb_calls (state_of (AbsorbSyncRequests E st)) = absorb_calls st + 1"
proof -
  have "absorb_calls (state_of (remember_all E rs s)) = absorb_calls s" for rs s
  proof (induction rs arbitrary: s)
    case Nil
    then show ?case by simp
  next
    case (Cons r rs)
    show ?case
      unfolding remember_all.simps
      by (intro and_then_frame [where M = absorb_calls] RememberSyncRequest_absorb_calls Cons.IH)
  qed
  then show ?thesis by (simp add: AbsorbSyncRequests_def)
qed

lemma RetrySyncRequests_absorb_calls:
  "absorb_calls (state_of (RetrySyncRequests E st)) =
     absorb_calls st + (if retrySyncs st = [] then 0 else 1)"
proof (cases "retrySyncs st = []")
  case True
  then show ?thesis by (simp add: RetrySyncRequests_def)
next
  case False
  have l: "absorb_calls (state_of (retry_loop E s)) = absorb_calls s" for s
    using flush_masked_fields(1) [OF retry_loop_flush_masked [of E s]] .
  have "absorb_calls (state_of (and_then (AbsorbSyncRequests E st)
          (\<lambda>s. retry_loop E (s\<lparr>absorb_counter := FSYNCS_PER_ABSORB\<rparr>)))) = absorb_calls st + 1"
  proof (cases "AbsorbSyncRequests E st")
    case (Inl x)
    with AbsorbSyncRequests_absorb_calls [of E st] show ?thesis by simp
  next
    case (Inr s)
    with AbsorbSyncRequests_absorb_calls [of E st] l [of "s\<lparr>absorb_counter := FSYNCS_PER_ABSORB\<rparr>"]
    show ?thesis by simp
  qed
  with False show ?thesis by (simp add: RetrySyncRequests_def)
qed

lemma retry_bank_absorb_calls:
  "absorb_calls (state_of (retry_bank E n st)) \<le> absorb_calls st + (5 - n)"
proof (induction E n st rule: retry_bank.induct)
  case (1 E failures st)
  show ?case
  proof (cases "failures < 5")
    case False
    then show ?thesis by (subst retry_bank.simps) simp
  next
    case True
    have "absorb_calls (state_of (case RetrySyncRequests E st of
              Inl f \<Rightarrow> Inl f
            | Inr st' \<Rightarrow> retry_bank E (failures + 1) st')) \<le> absorb_calls st + (5 - failures)"
    proof (cases "RetrySyncRequests E st")
      case (Inl f)
      with RetrySyncRequests_absorb_calls [of E st] True show ?thesis by auto
    next
      case (Inr s)
      with RetrySyncRequests_absorb_calls [of E st] "1.IH" [OF True Inr] True
      show ?thesis by (auto split: if_splits)
    qed
    with True show ?thesis by (subst retry_bank.simps) simp
  qed
qed


lemma hash_find_filter:
  "hash_find t (filter (\<lambda>x. pf_tag x \<noteq> u) ops) = (if t = u then None else hash_find t ops)"
  unfolding hash_find_def by (induction ops) auto

lemma shrunk_simps [simp]:
  "shrunk T q (st\<lparr>inflightSyncs := c\<rparr>) = shrunk T q st"
  "shrunk T q (st\<lparr>pgsw := h\<rparr>) = shrunk T q st"
  "shrunk T q (st\<lparr>processed := i\<rparr>) = shrunk T q st"
  "shrunk T q (st\<lparr>longest := j\<rparr>) = shrunk T q st"
  "shrunk T q (st\<lparr>total_elapsed := k\<rparr>) = shrunk T q st"
  "shrunk T q (st\<lparr>sync_calls := l\<rparr>) = shrunk T q st"
  "shrunk T q (st\<lparr>clock_reads := n\<rparr>) = shrunk T q st"
  "shrunk T q (st\<lparr>server_log := p\<rparr>) = shrunk T q st"
  by (simp_all add: shrunk_def)

lemma shrunk_remove:
  "shrunk T q st \<Longrightarrow> pendingOps st = Some ops \<Longrightarrow> hash_remove u ops = Some ops' \<Longrightarrow>
     shrunk T q (st\<lparr>pendingOps := Some ops'\<rparr>)"
  by (auto simp: shrunk_def hash_remove_def table_def hash_find_filter
        split: option.splits if_splits)

lemma shrunk_push:
  "shrunk T q st \<Longrightarrow> shrunk T q (st\<lparr>retrySyncs := retrySyncs st @ [e]\<rparr>)"
  by (auto simp: shrunk_def)

lemma SyncRequestCompleted_shrunk:
  "shrunk T q st \<Longrightarrow> shrunk T q (state_of (SyncRequestCompleted E e ok err st))"
  unfolding SyncRequestCompleted_def shrunk_def
  by (auto simp: Let_def table_def hash_remove_def hash_find_filter
        split: option.splits if_splits)

lemma complete_ios_shrunk:
  "shrunk T q st \<Longrightarrow> shrunk T q (state_of (complete_ios E n st))"
proof (induction n arbitrary: st)
  case 0
  then show ?case by simp
next
  case (Suc n)
  show ?case
  proof (cases "pgsw st")
    case None
    with Suc.prems show ?thesis by simp
  next
    case (Some ios)
    show ?thesis
    proof (cases ios)
      case Nil
      with Some Suc.prems show ?thesis by simp
    next
      case (Cons io ios')
      have "shrunk T q (st\<lparr>pgsw := Some ios'\<rparr>)"
        using Suc.prems by simp
      then have "shrunk T q (state_of (and_then
            (SyncRequestCompleted E (fst io) (fst (snd io)) (snd (snd io)) (st\<lparr>pgsw := Some ios'\<rparr>))
            (complete_ios E n)))"
        by (intro and_then_inv [where P = "shrunk T q"] SyncRequestCompleted_shrunk Suc.IH)
      then show ?thesis
        using Some Cons by simp
    qed
  qed
qed

lemma finish_submission_shrunk:
  "shrunk T q st \<Longrightarrow> shrunk T q (state_of (finish_submission E e out st))"
  unfolding finish_submission_def
  by (cases "so_inline out"; cases "pgsw st") (simp_all add: SyncRequestCompleted_shrunk)

lemma run_sync_handler_shrunk:
  "shrunk T q st \<Longrightarrow> shrunk T q (state_of (run_sync_handler E f e st))"
  unfolding run_sync_handler_def Let_def
  by (intro and_then_inv [where P = "shrunk T q"] complete_ios_shrunk finish_submission_shrunk)
     simp_all

lemma call_syncfiletag_shrunk:
  "shrunk T q st \<Longrightarrow> shrunk T q (state_of (call_syncfiletag E e st))"
  unfolding call_syncfiletag_def Let_def
  by (simp add: run_sync_handler_shrunk split: option.splits)

lemma retry_one_Inr:
  assumes "retry_one E e st = Inr s2"
  shows "\<exists>ops he. pendingOps st = Some ops \<and> hash_find (if_hash_entry e) ops = Some he \<and>
           (if pf_canceled he
            then s2 = st\<lparr>pendingOps := Some (filter (\<lambda>x. pf_tag x \<noteq> if_hash_entry e) ops)\<rparr>
            else call_syncfiletag E e st = Inr s2)"
proof -
  obtain ops where ops: "pendingOps st = Some ops"
    using assms by (cases "pendingOps st") (simp_all add: retry_one_def)
  obtain he where he: "hash_find (if_hash_entry e) ops = Some he"
    using assms ops by (cases "hash_find (if_hash_entry e) ops") (simp_all add: retry_one_def)
  have tg: "pf_tag he = if_hash_entry e" using hash_find_Some_tag [OF he] by simp
  show ?thesis
    using assms ops he tg
    by (auto simp: retry_one_def hash_remove_def split: if_splits)
qed

lemma retry_loop_effect:
  "retry_loop E st = Inr st' \<Longrightarrow>
     (\<forall>T. (\<forall>t he. hash_find t (table st) = Some he \<longrightarrow> hash_find t T = Some he) \<longrightarrow>
        retrySyncs st' = [] \<and>
        (\<forall>t he. hash_find t (table st') = Some he \<longrightarrow> hash_find t T = Some he) \<and>
        (\<exists>cs. sync_calls st' = sync_calls st @ cs \<and>
           (\<forall>c \<in> set cs. \<exists>he. hash_find (if_hash_entry c) T = Some he \<and> \<not> pf_canceled he) \<and>
           (\<forall>e \<in> set (retrySyncs st). \<forall>he. hash_find (if_hash_entry e) T = Some he \<longrightarrow>
              (if pf_canceled he then hash_find (if_hash_entry e) (table st') = None
               else \<exists>c \<in> set cs. c = e\<lparr>if_start_time := if_start_time c\<rparr>))))"
proof (induction E st rule: retry_loop.induct)
  case (1 E st)
  show ?case
  proof (cases "retrySyncs st")
    case Nil
    with "1.prems" have "st' = st" by (subst (asm) retry_loop.simps) simp
    with Nil show ?thesis by simp
  next
    case (Cons e rest)
    let ?s1 = "st\<lparr>retrySyncs := rest\<rparr>"
    obtain s2 where s2: "retry_one E e ?s1 = Inr s2" and l2: "retry_loop E s2 = Inr st'"
      using "1.prems" Cons
      by (subst (asm) retry_loop.simps) (auto split: sum.splits)
    note IH = "1.IH" [OF Cons s2 l2, THEN spec, THEN mp]
    obtain ops he where ops: "pendingOps ?s1 = Some ops"
      and he: "hash_find (if_hash_entry e) ops = Some he"
      and eff: "if pf_canceled he
            then s2 = ?s1\<lparr>pendingOps := Some (filter (\<lambda>x. pf_tag x \<noteq> if_hash_entry e) ops)\<rparr>
            else call_syncfiletag E e ?s1 = Inr s2"
      using retry_one_Inr [OF s2] by blast
    have tb: "table st = ops" using ops by (simp add: table_def)
    show ?thesis
    proof (intro allI impI)
      fix T
      assume sub: "\<forall>t he. hash_find t (table st) = Some he \<longrightarrow> hash_find t T = Some he"
      have heT: "hash_find (if_hash_entry e) T = Some he" using sub he tb by simp
      show "retrySyncs st' = [] \<and>
        (\<forall>t he. hash_find t (table st') = Some he \<longrightarrow> hash_find t T = Some he) \<and>
        (\<exists>cs. sync_calls st' = sync_calls st @ cs \<and>
           (\<forall>c \<in> set cs. \<exists>he. hash_find (if_hash_entry c) T = Some he \<and> \<not> pf_canceled he) \<and>
           (\<forall>e \<in> set (retrySyncs st). \<forall>he. hash_find (if_hash_entry e) T = Some he \<longrightarrow>
              (if pf_canceled he then hash_find (if_hash_entry e) (table st') = None
               else \<exists>c \<in> set cs. c = e\<lparr>if_start_time := if_start_time c\<rparr>)))"
      proof (cases "pf_canceled he")
        case True
        with eff have s2eq: "s2 = ?s1\<lparr>pendingOps := Some (filter (\<lambda>x. pf_tag x \<noteq> if_hash_entry e) ops)\<rparr>"
          by simp
        have t2: "table s2 = filter (\<lambda>x. pf_tag x \<noteq> if_hash_entry e) ops"
          and r2: "retrySyncs s2 = rest" and c2: "sync_calls s2 = sync_calls st"
          by (simp_all add: s2eq)
        have sub2: "\<forall>t he. hash_find t (table s2) = Some he \<longrightarrow> hash_find t T = Some he"
          using sub tb by (auto simp: t2 hash_find_filter split: if_splits)
        note r = IH [OF sub2]
        have a: "retrySyncs st' = []"
          and b: "\<forall>t he. hash_find t (table st') = Some he \<longrightarrow> hash_find t T = Some he"
          using r by (rule conjunct1, rule conjunct2 [THEN conjunct1])
        obtain cs where c: "sync_calls st' = sync_calls s2 @ cs"
          and d: "\<forall>c \<in> set cs. \<exists>he. hash_find (if_hash_entry c) T = Some he \<and> \<not> pf_canceled he"
          and f: "\<forall>e \<in> set (retrySyncs s2). \<forall>he. hash_find (if_hash_entry e) T = Some he \<longrightarrow>
              (if pf_canceled he then hash_find (if_hash_entry e) (table st') = None
               else \<exists>c \<in> set cs. c = e\<lparr>if_start_time := if_start_time c\<rparr>)"
          using r [THEN conjunct2, THEN conjunct2] by (elim exE conjE)
        have triv: "\<forall>t he. hash_find t (table s2) = Some he \<longrightarrow> hash_find t (table s2) = Some he"
          by simp
        have "\<forall>t he. hash_find t (table st') = Some he \<longrightarrow> hash_find t (table s2) = Some he"
          using IH [OF triv, THEN conjunct2, THEN conjunct1] .
        then have "hash_find (if_hash_entry e) (table st') = Some x \<Longrightarrow> False" for x
          by (auto simp: t2 hash_find_filter dest!: spec [of _ "if_hash_entry e"])
        then have gone: "hash_find (if_hash_entry e) (table st') = None"
          by (cases "hash_find (if_hash_entry e) (table st')") auto
        have f': "\<forall>x \<in> set (retrySyncs st). \<forall>hx. hash_find (if_hash_entry x) T = Some hx \<longrightarrow>
              (if pf_canceled hx then hash_find (if_hash_entry x) (table st') = None
               else \<exists>c \<in> set cs. c = x\<lparr>if_start_time := if_start_time c\<rparr>)"
        proof (intro ballI allI impI)
          fix x hx
          assume x: "x \<in> set (retrySyncs st)" and hx: "hash_find (if_hash_entry x) T = Some hx"
          show "if pf_canceled hx then hash_find (if_hash_entry x) (table st') = None
               else \<exists>c \<in> set cs. c = x\<lparr>if_start_time := if_start_time c\<rparr>"
          proof (cases "x \<in> set rest")
            case True
            with r2 f hx show ?thesis by simp
          next
            case False
            with x Cons have "x = e" by simp
            with hx heT \<open>pf_canceled he\<close> gone show ?thesis by simp
          qed
        qed
        have c': "sync_calls st' = sync_calls st @ cs" using c c2 by simp
        from a b c' d f' show ?thesis by (intro conjI exI [of _ cs])
      next
        case False
        with eff have call: "call_syncfiletag E e ?s1 = Inr s2" by simp
        have "shrunk T rest ?s1" using sub by (simp add: shrunk_def table_def)
        from call_syncfiletag_shrunk [OF this, of E e] call
        have sh2: "shrunk T rest s2" by simp
        then have sub2: "\<forall>t he. hash_find t (table s2) = Some he \<longrightarrow> hash_find t T = Some he"
          and r2: "set rest \<subseteq> set (retrySyncs s2)"
          by (auto simp: shrunk_def)
        let ?c = "e\<lparr>if_start_time := clock E (clock_reads ?s1)\<rparr>"
        have c2: "sync_calls s2 = sync_calls st @ [?c]"
          using call_syncfiletag_sync_calls [of E e ?s1] call by simp
        note r = IH [OF sub2]
        have a: "retrySyncs st' = []"
          and b: "\<forall>t he. hash_find t (table st') = Some he \<longrightarrow> hash_find t T = Some he"
          using r by (rule conjunct1, rule conjunct2 [THEN conjunct1])
        obtain cs where c: "sync_calls st' = sync_calls s2 @ cs"
          and d: "\<forall>c \<in> set cs. \<exists>he. hash_find (if_hash_entry c) T = Some he \<and> \<not> pf_canceled he"
          and f: "\<forall>e \<in> set (retrySyncs s2). \<forall>he. hash_find (if_hash_entry e) T = Some he \<longrightarrow>
              (if pf_canceled he then hash_find (if_hash_entry e) (table st') = None
               else \<exists>c \<in> set cs. c = e\<lparr>if_start_time := if_start_time c\<rparr>)"
          using r [THEN conjunct2, THEN conjunct2] by (elim exE conjE)
        have c': "sync_calls st' = sync_calls st @ (?c # cs)" using c c2 by simp
        have d': "\<forall>c \<in> set (?c # cs). \<exists>he. hash_find (if_hash_entry c) T = Some he \<and> \<not> pf_canceled he"
          using d heT False by simp
        have f': "\<forall>x \<in> set (retrySyncs st). \<forall>hx. hash_find (if_hash_entry x) T = Some hx \<longrightarrow>
              (if pf_canceled hx then hash_find (if_hash_entry x) (table st') = None
               else \<exists>c \<in> set (?c # cs). c = x\<lparr>if_start_time := if_start_time c\<rparr>)"
        proof (intro ballI allI impI)
          fix x hx
          assume x: "x \<in> set (retrySyncs st)" and hx: "hash_find (if_hash_entry x) T = Some hx"
          show "if pf_canceled hx then hash_find (if_hash_entry x) (table st') = None
               else \<exists>c \<in> set (?c # cs). c = x\<lparr>if_start_time := if_start_time c\<rparr>"
          proof (cases "x \<in> set rest")
            case True
            with r2 have "x \<in> set (retrySyncs s2)" by auto
            with f hx have "if pf_canceled hx then hash_find (if_hash_entry x) (table st') = None
               else \<exists>c \<in> set cs. c = x\<lparr>if_start_time := if_start_time c\<rparr>" by blast
            then show ?thesis by (cases "pf_canceled hx") auto
          next
            case False
            with x Cons have "x = e" by simp
            with hx heT \<open>\<not> pf_canceled he\<close> show ?thesis by simp
          qed
        qed
        from a b c' d' f' show ?thesis by (intro conjI exI [of _ "?c # cs"])
      qed
    qed
  qed
qed


text \<open>
  C5. \<^verbatim>\<open>RetrySyncRequests\<close> does nothing when the retry queue is empty, and otherwise
  calls \<^verbatim>\<open>AbsorbSyncRequests\<close> exactly once, before the loop; the five calls of the
  retry bank make at most five absorbs. When the queue was not empty, the absorb
  returned \<open>sa\<close> and the function returns \<open>st'\<close>: the retry queue is empty; the
  handler's sync function was called only for entries whose table entry was not
  canceled after the absorb; and for every entry \<open>e\<close> that was on the retry queue,
  if its table entry was canceled after the absorb, that table entry is gone and no
  sync call was made for it, and otherwise \<open>e\<close> was resubmitted (with a new start
  time).
\<close>

theorem RetrySyncRequests_retry:
  "(retrySyncs st = [] \<longrightarrow> RetrySyncRequests E st = Inr st) \<and>
   absorb_calls (state_of (RetrySyncRequests E st)) =
     absorb_calls st + (if retrySyncs st = [] then 0 else 1) \<and>
   absorb_calls (state_of (retry_bank E 0 st)) \<le> absorb_calls st + 5 \<and>
   (\<forall>sa st'. retrySyncs st \<noteq> [] \<longrightarrow> AbsorbSyncRequests E st = Inr sa \<longrightarrow>
      RetrySyncRequests E st = Inr st' \<longrightarrow>
      retrySyncs st' = [] \<and>
      (\<exists>cs. sync_calls st' = sync_calls st @ cs \<and>
         (\<forall>c \<in> set cs. \<exists>he. hash_find (if_hash_entry c) (table sa) = Some he \<and>
                               \<not> pf_canceled he) \<and>
         (\<forall>e \<in> set (retrySyncs st). \<forall>he. hash_find (if_hash_entry e) (table sa) = Some he \<longrightarrow>
            (if pf_canceled he
             then hash_find (if_hash_entry e) (table st') = None \<and>
                  if_hash_entry e \<notin> if_hash_entry ` set cs
             else \<exists>c \<in> set cs. c = e\<lparr>if_start_time := if_start_time c\<rparr>))))"
proof (intro conjI allI impI)
  assume "retrySyncs st = []"
  then show "RetrySyncRequests E st = Inr st" by (simp add: RetrySyncRequests_def)
next
  show "absorb_calls (state_of (RetrySyncRequests E st)) =
     absorb_calls st + (if retrySyncs st = [] then 0 else 1)"
    by (rule RetrySyncRequests_absorb_calls)
next
  show "absorb_calls (state_of (retry_bank E 0 st)) \<le> absorb_calls st + 5"
    using retry_bank_absorb_calls [of E 0 st] by simp
next
  fix sa st'
  assume ne: "retrySyncs st \<noteq> []" and ab: "AbsorbSyncRequests E st = Inr sa"
    and r: "RetrySyncRequests E st = Inr st'"
  let ?s = "sa\<lparr>absorb_counter := FSYNCS_PER_ABSORB\<rparr>"
  have l: "retry_loop E ?s = Inr st'"
    using ne ab r by (simp add: RetrySyncRequests_def)
  have q: "retrySyncs ?s = retrySyncs st" and sc: "sync_calls ?s = sync_calls st"
    using requests_masked_fields(2,16) [OF AbsorbSyncRequests_masked [of E st]] ab by simp_all
  have triv: "\<forall>t he. hash_find t (table ?s) = Some he \<longrightarrow> hash_find t (table sa) = Some he"
    by simp
  note eff = retry_loop_effect [OF l, THEN spec, THEN mp, OF triv]
  from eff show "retrySyncs st' = []" by (rule conjunct1)
  obtain cs where c: "sync_calls st' = sync_calls ?s @ cs"
    and d: "\<forall>c \<in> set cs. \<exists>he. hash_find (if_hash_entry c) (table sa) = Some he \<and> \<not> pf_canceled he"
    and f: "\<forall>e \<in> set (retrySyncs ?s). \<forall>he. hash_find (if_hash_entry e) (table sa) = Some he \<longrightarrow>
              (if pf_canceled he then hash_find (if_hash_entry e) (table st') = None
               else \<exists>c \<in> set cs. c = e\<lparr>if_start_time := if_start_time c\<rparr>)"
    using eff [THEN conjunct2, THEN conjunct2] by (elim exE conjE)
  have f': "\<forall>e \<in> set (retrySyncs st). \<forall>he. hash_find (if_hash_entry e) (table sa) = Some he \<longrightarrow>
            (if pf_canceled he
             then hash_find (if_hash_entry e) (table st') = None \<and>
                  if_hash_entry e \<notin> if_hash_entry ` set cs
             else \<exists>c \<in> set cs. c = e\<lparr>if_start_time := if_start_time c\<rparr>)"
  proof (intro ballI allI impI)
    fix e he
    assume e: "e \<in> set (retrySyncs st)" and he: "hash_find (if_hash_entry e) (table sa) = Some he"
    from f e he q have g: "if pf_canceled he then hash_find (if_hash_entry e) (table st') = None
               else \<exists>c \<in> set cs. c = e\<lparr>if_start_time := if_start_time c\<rparr>" by simp
    show "if pf_canceled he
             then hash_find (if_hash_entry e) (table st') = None \<and>
                  if_hash_entry e \<notin> if_hash_entry ` set cs
             else \<exists>c \<in> set cs. c = e\<lparr>if_start_time := if_start_time c\<rparr>"
    proof (cases "pf_canceled he")
      case False
      with g show ?thesis by simp
    next
      case True
      have "if_hash_entry e \<notin> if_hash_entry ` set cs"
      proof
        assume "if_hash_entry e \<in> if_hash_entry ` set cs"
        then obtain c where "c \<in> set cs" "if_hash_entry c = if_hash_entry e" by auto
        with d he True show False by auto
      qed
      with g True show ?thesis by simp
    qed
  qed
  from c sc d f' show "\<exists>cs. sync_calls st' = sync_calls st @ cs \<and>
         (\<forall>c \<in> set cs. \<exists>he. hash_find (if_hash_entry c) (table sa) = Some he \<and>
                               \<not> pf_canceled he) \<and>
         (\<forall>e \<in> set (retrySyncs st). \<forall>he. hash_find (if_hash_entry e) (table sa) = Some he \<longrightarrow>
            (if pf_canceled he
             then hash_find (if_hash_entry e) (table st') = None \<and>
                  if_hash_entry e \<notin> if_hash_entry ` set cs
             else \<exists>c \<in> set cs. c = e\<lparr>if_start_time := if_start_time c\<rparr>))"
    by (intro exI [of _ cs] conjI) simp_all
qed

lemma file_gone_eval:
  "AbsorbSyncRequests file_gone_env file_gone_retry =
     Inr (file_gone_retry\<lparr>pendingOps :=
            Some [\<lparr>pf_tag = tag1, pf_cycle_ctr = 0, pf_canceled = True\<rparr>],
          absorb_calls := 2\<rparr>)"
  "RetrySyncRequests file_gone_env file_gone_retry =
     Inr (file_gone_retry\<lparr>pendingOps := Some [], retrySyncs := [], absorb_counter := 10,
            absorb_calls := 2\<rparr>)"
  "ProcessSyncRequests file_gone_env one_request =
     Inr (file_gone_retry\<lparr>pendingOps := Some [], retrySyncs := [], absorb_counter := 10,
            absorb_calls := 2, pgsw := None, sync_in_progress := False\<rparr>)"
  by (simp_all add: pass_eval file_gone_env_def file_gone_retry_def one_request_def
        filter_matches_def)

theorem RetrySyncRequests_retry_witness:
  "retrySyncs file_gone_retry \<noteq> [] \<and>
   AbsorbSyncRequests file_gone_env file_gone_retry =
     Inr (file_gone_retry\<lparr>pendingOps :=
            Some [\<lparr>pf_tag = tag1, pf_cycle_ctr = 0, pf_canceled = True\<rparr>],
          absorb_calls := 2\<rparr>) \<and>
   RetrySyncRequests file_gone_env file_gone_retry =
     Inr (file_gone_retry\<lparr>pendingOps := Some [], retrySyncs := [], absorb_counter := 10,
            absorb_calls := 2\<rparr>) \<and>
   sync_calls (file_gone_retry\<lparr>pendingOps := Some [], retrySyncs := [], absorb_counter := 10,
            absorb_calls := 2\<rparr>) = sync_calls file_gone_retry \<and>
   ProcessSyncRequests file_gone_env one_request =
     Inr (file_gone_retry\<lparr>pendingOps := Some [], retrySyncs := [], absorb_counter := 10,
            absorb_calls := 2, pgsw := None, sync_in_progress := False\<rparr>)"
proof -
  have ne: "retrySyncs file_gone_retry \<noteq> []" by (simp add: file_gone_retry_def)
  note inst = RetrySyncRequests_retry [of file_gone_retry file_gone_env,
      THEN conjunct2, THEN conjunct2, THEN conjunct2, rule_format,
      OF ne file_gone_eval(1) file_gone_eval(2)]
  from inst have "retrySyncs (file_gone_retry\<lparr>pendingOps := Some [], retrySyncs := [],
      absorb_counter := 10, absorb_calls := 2\<rparr>) = []" by (rule conjunct1)
  with ne file_gone_eval show ?thesis by simp
qed

section \<open>The walk of the unlink list\<close>

lemma old_entry_cong:
  "checkpoint_cycle_ctr s' = checkpoint_cycle_ctr s \<Longrightarrow> old_entry s' = old_entry s"
  by (rule ext) (simp add: old_entry_def)

lemma filter_old_new:
  "\<forall>e \<in> set ys. \<not> P e \<Longrightarrow> filter P (xs @ ys) = filter P xs"
  by (induction xs) auto

lemma takeWhile_new:
  "\<forall>e \<in> set ys. \<not> P e \<Longrightarrow> takeWhile P (xs @ ys) = takeWhile P xs"
proof (induction xs)
  case Nil
  then show ?case by (cases ys) auto
qed auto

lemma dropWhile_new:
  "\<forall>e \<in> set ys. \<not> P e \<Longrightarrow> dropWhile P (xs @ ys) = dropWhile P xs @ ys"
proof (induction xs)
  case Nil
  then show ?case by (cases ys) auto
qed auto

lemma subseq_filter_conj:
  "subseq (filter (\<lambda>x. Q x \<and> P x) xs) (filter P xs)"
  by (induction xs) auto

lemma RememberSyncRequest_old:
  assumes "RememberSyncRequest E ftag ty st = Inr st'"
  shows "checkpoint_cycle_ctr st' = checkpoint_cycle_ctr st"
    "subseq (filter (old_entry st) (pendingUnlinks st')) (filter (old_entry st) (pendingUnlinks st))"
    "ty \<noteq> SYNC_FILTER_REQUEST \<Longrightarrow>
       \<exists>news. pendingUnlinks st' = pendingUnlinks st @ news \<and> (\<forall>e \<in> set news. \<not> old_entry st e)"
proof -
  show "checkpoint_cycle_ctr st' = checkpoint_cycle_ctr st"
    using requests_masked_fields(4) [OF RememberSyncRequest_masked [of E ftag ty st]] assms
    by simp
  show "subseq (filter (old_entry st) (pendingUnlinks st')) (filter (old_entry st) (pendingUnlinks st))"
    using assms unfolding RememberSyncRequest_def
    by (auto split: option.splits SyncRequestType.splits if_splits
             dest!: remove_matching_eq simp: old_entry_def [abs_def] subseq_filter_conj)
  show "\<exists>news. pendingUnlinks st' = pendingUnlinks st @ news \<and> (\<forall>e \<in> set news. \<not> old_entry st e)"
    if "ty \<noteq> SYNC_FILTER_REQUEST"
    using assms that unfolding RememberSyncRequest_def
    by (auto split: option.splits SyncRequestType.splits if_splits simp: old_entry_def)
qed

lemma remember_all_old:
  assumes "remember_all E rs st = Inr st'"
  shows "checkpoint_cycle_ctr st' = checkpoint_cycle_ctr st \<and>
    subseq (filter (old_entry st) (pendingUnlinks st')) (filter (old_entry st) (pendingUnlinks st)) \<and>
    ((\<forall>r \<in> set rs. snd r \<noteq> SYNC_FILTER_REQUEST) \<longrightarrow>
       (\<exists>news. pendingUnlinks st' = pendingUnlinks st @ news \<and> (\<forall>e \<in> set news. \<not> old_entry st e)))"
  using assms
proof (induction rs arbitrary: st)
  case Nil
  then show ?case by simp
next
  case (Cons r rs)
  then obtain s where s: "RememberSyncRequest E (fst r) (snd r) st = Inr s"
    and r: "remember_all E rs s = Inr st'"
    by (auto simp: and_then_Inr_iff)
  note one = RememberSyncRequest_old [OF s]
  note ih = Cons.IH [OF r]
  have oe: "old_entry s = old_entry st" using one(1) by (rule old_entry_cong)
  have c: "checkpoint_cycle_ctr st' = checkpoint_cycle_ctr st" using ih one(1) by simp
  have q: "subseq (filter (old_entry st) (pendingUnlinks st')) (filter (old_entry st) (pendingUnlinks st))"
    using ih [THEN conjunct2, THEN conjunct1] one(2) unfolding oe
    by (rule subseq_order.trans)
  have n: "\<exists>news. pendingUnlinks st' = pendingUnlinks st @ news \<and> (\<forall>e \<in> set news. \<not> old_entry st e)"
    if nf: "\<forall>r \<in> set (r # rs). snd r \<noteq> SYNC_FILTER_REQUEST"
  proof -
    from nf have "snd r \<noteq> SYNC_FILTER_REQUEST" by simp
    from one(3) [OF this] obtain n1 where n1: "pendingUnlinks s = pendingUnlinks st @ n1"
      "\<forall>e \<in> set n1. \<not> old_entry st e" by (elim exE conjE)
    from nf have "\<forall>r \<in> set rs. snd r \<noteq> SYNC_FILTER_REQUEST" by simp
    with ih obtain n2 where n2: "pendingUnlinks st' = pendingUnlinks s @ n2"
      "\<forall>e \<in> set n2. \<not> old_entry s e" by (elim conjE impE exE)
    show ?thesis
      using n1 n2 oe by (intro exI [of _ "n1 @ n2"]) auto
  qed
  from c q n show ?case by (intro conjI impI)
qed

lemma AbsorbSyncRequests_old:
  assumes "AbsorbSyncRequests E st = Inr st'"
  shows "checkpoint_cycle_ctr st' = checkpoint_cycle_ctr st"
    "subseq (filter (old_entry st) (pendingUnlinks st')) (filter (old_entry st) (pendingUnlinks st))"
    "\<forall>n t. (t, SYNC_FILTER_REQUEST) \<notin> set (absorb_oracle E n) \<Longrightarrow>
       \<exists>news. pendingUnlinks st' = pendingUnlinks st @ news \<and> (\<forall>e \<in> set news. \<not> old_entry st e)"
proof -
  let ?s = "st\<lparr>absorb_calls := absorb_calls st + 1\<rparr>"
  have r: "remember_all E (absorb_oracle E (absorb_calls st)) ?s = Inr st'"
    using assms by (simp add: AbsorbSyncRequests_def)
  have oe: "old_entry ?s = old_entry st" by (rule old_entry_cong) simp
  note all = remember_all_old [OF r, unfolded oe]
  from all show "checkpoint_cycle_ctr st' = checkpoint_cycle_ctr st" by simp
  from all show "subseq (filter (old_entry st) (pendingUnlinks st'))
      (filter (old_entry st) (pendingUnlinks st))" by simp
  show "\<exists>news. pendingUnlinks st' = pendingUnlinks st @ news \<and> (\<forall>e \<in> set news. \<not> old_entry st e)"
    if nf: "\<forall>n t. (t, SYNC_FILTER_REQUEST) \<notin> set (absorb_oracle E n)"
  proof -
    have "\<forall>r \<in> set (absorb_oracle E (absorb_calls st)). snd r \<noteq> SYNC_FILTER_REQUEST"
    proof
      fix r assume "r \<in> set (absorb_oracle E (absorb_calls st))"
      with nf show "snd r \<noteq> SYNC_FILTER_REQUEST" by (cases r) auto
    qed
    with all show ?thesis by simp
  qed
qed

lemma unlink_one_effect:
  assumes "unlink_one E c entry st = Inr st'" "pendingUnlinks st = entry # rest"
  shows "checkpoint_cycle_ctr st' = checkpoint_cycle_ctr st"
    "unlink_calls st' = unlink_calls st @ [pu_tag entry]"
    "server_log st' = server_log st @ unlink_warnings E (length (unlink_calls st)) [entry]"
    "subseq (filter (old_entry st) (pendingUnlinks st')) (filter (old_entry st) rest)"
    "\<forall>n t. (t, SYNC_FILTER_REQUEST) \<notin> set (absorb_oracle E n) \<Longrightarrow>
       \<exists>news. pendingUnlinks st' = rest @ news \<and> (\<forall>e \<in> set news. \<not> old_entry st e)"
proof -
  obtain u where u: "sync_unlinkfiletag (syncsw E (handler (pu_tag entry))) = Some u"
    using assms(1) by (auto simp: unlink_one_def split: option.splits)
  define s3 where "s3 = (let r = u (length (unlink_calls st)) (pu_tag entry);
               st1 = st\<lparr>unlink_calls := unlink_calls st @ [pu_tag entry]\<rparr>;
               st2 = (if fst r < 0 \<and> snd r \<noteq> ENOENT
                      then st1\<lparr>server_log := server_log st1 @
                             [(WARNING, ''could not remove file %s: %m'')]\<rparr>
                      else st1)
           in st2\<lparr>pendingUnlinks := tl (pendingUnlinks st2)\<rparr>)"
  have s3: "checkpoint_cycle_ctr s3 = checkpoint_cycle_ctr st"
    "unlink_calls s3 = unlink_calls st @ [pu_tag entry]"
    "server_log s3 = server_log st @ unlink_warnings E (length (unlink_calls st)) [entry]"
    "pendingUnlinks s3 = rest"
    using assms(2) u by (simp_all add: s3_def Let_def)
  have oe: "old_entry s3 = old_entry st" using s3(1) by (rule old_entry_cong)
  have cases: "st' = s3 \<or> AbsorbSyncRequests E s3 = Inr st'"
    using assms(1) u by (auto simp: unlink_one_def s3_def Let_def split: if_splits)
  have fr: "requests_masked st' = requests_masked s3"
    using cases AbsorbSyncRequests_masked [of E s3] by auto
  show "checkpoint_cycle_ctr st' = checkpoint_cycle_ctr st"
    using requests_masked_fields(4) [OF fr] s3(1) by simp
  show "unlink_calls st' = unlink_calls st @ [pu_tag entry]"
    using requests_masked_fields(17) [OF fr] s3(2) by simp
  show "server_log st' = server_log st @ unlink_warnings E (length (unlink_calls st)) [entry]"
    using requests_masked_fields(19) [OF fr] s3(3) by simp
  show "subseq (filter (old_entry st) (pendingUnlinks st')) (filter (old_entry st) rest)"
    using cases
  proof
    assume "st' = s3"
    then show ?thesis using s3(4) by simp
  next
    assume "AbsorbSyncRequests E s3 = Inr st'"
    from AbsorbSyncRequests_old(2) [OF this] show ?thesis unfolding oe s3(4) .
  qed
  show "\<exists>news. pendingUnlinks st' = rest @ news \<and> (\<forall>e \<in> set news. \<not> old_entry st e)"
    if nf: "\<forall>n t. (t, SYNC_FILTER_REQUEST) \<notin> set (absorb_oracle E n)"
    using cases
  proof
    assume "st' = s3"
    then show ?thesis using s3(4) by (intro exI [of _ "[]"]) simp
  next
    assume "AbsorbSyncRequests E s3 = Inr st'"
    from AbsorbSyncRequests_old(3) [OF this nf] show ?thesis unfolding oe s3(4) .
  qed
qed

lemma unlink_warnings_append:
  "unlink_warnings E n (xs @ ys) = unlink_warnings E n xs @ unlink_warnings E (n + length xs) ys"
  by (induction xs arbitrary: n) auto

lemma unlink_loop_walk:
  "unlink_loop E c st = Inr st' \<Longrightarrow>
     checkpoint_cycle_ctr st' = checkpoint_cycle_ctr st \<and>
     (pendingUnlinks st' = [] \<or> pu_cycle_ctr (hd (pendingUnlinks st')) = checkpoint_cycle_ctr st) \<and>
     (\<exists>vs. unlink_calls st' = unlink_calls st @ map pu_tag vs \<and>
           server_log st' = server_log st @ unlink_warnings E (length (unlink_calls st)) vs \<and>
           subseq (vs @ filter (old_entry st) (pendingUnlinks st'))
             (filter (old_entry st) (pendingUnlinks st)))"
proof (induction E c st arbitrary: st' rule: unlink_loop.induct)
  case (1 E c st)
  show ?case
  proof (cases "pendingUnlinks st")
    case Nil
    with "1.prems" have "st' = st" by (subst (asm) unlink_loop.simps) simp
    then show ?thesis using Nil by simp
  next
    case (Cons entry rest)
    show ?thesis
    proof (cases "pu_cycle_ctr entry = checkpoint_cycle_ctr st")
      case True
      with "1.prems" Cons have "st' = st" by (subst (asm) unlink_loop.simps) simp
      then show ?thesis using Cons True by simp
    next
      case False
      from "1.prems" Cons False obtain s1 where one: "unlink_one E c entry st = Inr s1"
        and loop: "unlink_loop E (if c - 1 \<le> 0 then UNLINKS_PER_ABSORB else c - 1) s1 = Inr st'"
        by (subst (asm) unlink_loop.simps) (auto split: sum.splits)
      note ih = "1.IH" [OF Cons False one loop]
      note eff = unlink_one_effect [OF one Cons]
      have oe: "old_entry s1 = old_entry st" using eff(1) by (rule old_entry_cong)
      obtain vs where vs: "unlink_calls st' = unlink_calls s1 @ map pu_tag vs"
        "server_log st' = server_log s1 @ unlink_warnings E (length (unlink_calls s1)) vs"
        "subseq (vs @ filter (old_entry s1) (pendingUnlinks st'))
             (filter (old_entry s1) (pendingUnlinks s1))"
        using ih by (elim conjE exE)
      have a: "unlink_calls st' = unlink_calls st @ map pu_tag (entry # vs)"
        using vs(1) eff(2) by simp
      have b: "server_log st' =
          server_log st @ unlink_warnings E (length (unlink_calls st)) (entry # vs)"
        using vs(2) eff(2,3) by simp
      have "subseq (vs @ filter (old_entry st) (pendingUnlinks st')) (filter (old_entry st) rest)"
        using vs(3) eff(4) unfolding oe by (rule subseq_order.trans)
      then have d: "subseq ((entry # vs) @ filter (old_entry st) (pendingUnlinks st'))
             (filter (old_entry st) (pendingUnlinks st))"
        using Cons False by (simp add: old_entry_def)
      from ih eff(1) have e: "checkpoint_cycle_ctr st' = checkpoint_cycle_ctr st"
        "pendingUnlinks st' = [] \<or> pu_cycle_ctr (hd (pendingUnlinks st')) = checkpoint_cycle_ctr st"
        by simp_all
      from a b d e show ?thesis by (intro conjI exI [of _ "entry # vs"])
    qed
  qed
qed

lemma unlink_loop_exact:
  "unlink_loop E c st = Inr st' \<Longrightarrow>
   \<forall>n t. (t, SYNC_FILTER_REQUEST) \<notin> set (absorb_oracle E n) \<Longrightarrow>
     unlink_calls st' =
       unlink_calls st @ map pu_tag (takeWhile (old_entry st) (pendingUnlinks st)) \<and>
     server_log st' =
       server_log st @ unlink_warnings E (length (unlink_calls st))
                         (takeWhile (old_entry st) (pendingUnlinks st)) \<and>
     (\<exists>news. pendingUnlinks st' = dropWhile (old_entry st) (pendingUnlinks st) @ news \<and>
             (\<forall>e \<in> set news. \<not> old_entry st e))"
proof (induction E c st arbitrary: st' rule: unlink_loop.induct)
  case (1 E c st)
  show ?case
  proof (cases "pendingUnlinks st")
    case Nil
    with "1.prems"(1) have "st' = st" by (subst (asm) unlink_loop.simps) simp
    then show ?thesis using Nil by simp
  next
    case (Cons entry rest)
    show ?thesis
    proof (cases "pu_cycle_ctr entry = checkpoint_cycle_ctr st")
      case True
      with "1.prems"(1) Cons have "st' = st" by (subst (asm) unlink_loop.simps) simp
      then show ?thesis using Cons True by (simp add: old_entry_def)
    next
      case False
      from "1.prems"(1) Cons False obtain s1 where one: "unlink_one E c entry st = Inr s1"
        and loop: "unlink_loop E (if c - 1 \<le> 0 then UNLINKS_PER_ABSORB else c - 1) s1 = Inr st'"
        by (subst (asm) unlink_loop.simps) (auto split: sum.splits)
      note ih = "1.IH" [OF Cons False one loop "1.prems"(2)]
      note eff = unlink_one_effect [OF one Cons]
      have oe: "old_entry s1 = old_entry st" using eff(1) by (rule old_entry_cong)
      obtain n1 where n1: "pendingUnlinks s1 = rest @ n1" "\<forall>e \<in> set n1. \<not> old_entry st e"
        using eff(5) [OF "1.prems"(2)] by (elim exE conjE)
      have tw: "takeWhile (old_entry st) (pendingUnlinks s1) = takeWhile (old_entry st) rest"
        and dw: "dropWhile (old_entry st) (pendingUnlinks s1) = dropWhile (old_entry st) rest @ n1"
        using n1 by (simp_all add: takeWhile_new dropWhile_new)
      have old: "old_entry st entry" using False by (simp add: old_entry_def)
      obtain n2 where n2: "pendingUnlinks st' = dropWhile (old_entry st) rest @ n1 @ n2"
        "\<forall>e \<in> set n2. \<not> old_entry st e"
        using ih unfolding oe dw by (elim conjE exE) auto
      have a: "unlink_calls st' =
          unlink_calls st @ map pu_tag (takeWhile (old_entry st) (pendingUnlinks st))"
        using ih eff(2) old Cons unfolding oe tw by simp
      have b: "server_log st' =
          server_log st @ unlink_warnings E (length (unlink_calls st))
                         (takeWhile (old_entry st) (pendingUnlinks st))"
        using ih eff(2,3) old Cons unfolding oe tw by simp
      have d: "\<exists>news. pendingUnlinks st' = dropWhile (old_entry st) (pendingUnlinks st) @ news \<and>
             (\<forall>e \<in> set news. \<not> old_entry st e)"
        using n1(2) n2 old Cons by (intro exI [of _ "n1 @ n2"]) auto
      from a b d show ?thesis by (intro conjI)
    qed
  qed
qed

text \<open>
  C6. When \<^verbatim>\<open>SyncPostCheckpoint\<close> returns, the checkpoint counter is unchanged and the
  list is empty or begins with an entry of the current cycle. The handler's unlink
  function was called once for each entry \<open>vs\<close> that the walk found at the head, in
  order; a warning was logged for exactly those calls that failed with an error other
  than \<^verbatim>\<open>ENOENT\<close>; the entries unlinked are entries of the list that were not of the
  current cycle, and none of them is left in the list, whatever its unlink returned.
  When no filter request is absorbed during the walk, the entries unlinked are exactly
  those before the first entry of the current cycle, and the list left is the rest
  followed by the entries absorbed.
\<close>

theorem SyncPostCheckpoint_walk:
  assumes "SyncPostCheckpoint E st = Inr st'"
  shows "checkpoint_cycle_ctr st' = checkpoint_cycle_ctr st \<and>
     (pendingUnlinks st' = [] \<or>
      pu_cycle_ctr (hd (pendingUnlinks st')) = checkpoint_cycle_ctr st) \<and>
     (\<exists>vs. unlink_calls st' = unlink_calls st @ map pu_tag vs \<and>
           server_log st' = server_log st @ unlink_warnings E (length (unlink_calls st)) vs \<and>
           subseq (vs @ filter (old_entry st) (pendingUnlinks st'))
             (filter (old_entry st) (pendingUnlinks st))) \<and>
     ((\<forall>n t. (t, SYNC_FILTER_REQUEST) \<notin> set (absorb_oracle E n)) \<longrightarrow>
        unlink_calls st' =
          unlink_calls st @ map pu_tag (takeWhile (old_entry st) (pendingUnlinks st)) \<and>
        server_log st' =
          server_log st @ unlink_warnings E (length (unlink_calls st))
                            (takeWhile (old_entry st) (pendingUnlinks st)) \<and>
        (\<exists>news. pendingUnlinks st' = dropWhile (old_entry st) (pendingUnlinks st) @ news \<and>
                (\<forall>e \<in> set news. pu_cycle_ctr e = checkpoint_cycle_ctr st)))"
proof -
  have l: "unlink_loop E UNLINKS_PER_ABSORB st = Inr st'"
    using assms by (simp add: SyncPostCheckpoint_def)
  note w = unlink_loop_walk [OF l]
  have "unlink_calls st' =
          unlink_calls st @ map pu_tag (takeWhile (old_entry st) (pendingUnlinks st)) \<and>
        server_log st' =
          server_log st @ unlink_warnings E (length (unlink_calls st))
                            (takeWhile (old_entry st) (pendingUnlinks st)) \<and>
        (\<exists>news. pendingUnlinks st' = dropWhile (old_entry st) (pendingUnlinks st) @ news \<and>
                (\<forall>e \<in> set news. pu_cycle_ctr e = checkpoint_cycle_ctr st))"
    if "\<forall>n t. (t, SYNC_FILTER_REQUEST) \<notin> set (absorb_oracle E n)"
    using unlink_loop_exact [OF l that] by (simp add: old_entry_def)
  with w show ?thesis by (intro conjI impI) simp_all
qed

lemmas unlink_eval =
  SyncPostCheckpoint_def unlink_loop.simps unlink_one_def UNLINKS_PER_ABSORB_def
  AbsorbSyncRequests_def RememberSyncRequest_def SyncPreCheckpoint_def syncsw_def ENOENT_def
  checkpointer_def InitSync_def startup_def tag1_def tag2_def tag3_def quiet_env_def
  sync_succeeds_def Let_def

lemma after_checkpoint_eval:
  "SyncPostCheckpoint unlink_env after_checkpoint =
     Inr (after_checkpoint\<lparr>pendingUnlinks :=
              [\<lparr>pu_tag = tag3, pu_cycle_ctr = 1\<rparr>, \<lparr>pu_tag = tag3\<lparr>segno := 1\<rparr>, pu_cycle_ctr = 1\<rparr>],
            unlink_calls := map pu_tag dropped_segments, absorb_calls := 1,
            server_log := [(WARNING, ''could not remove file %s: %m'')]\<rparr>)"
  by (simp add: unlink_eval after_checkpoint_def unlink_env_def dropped_segments_def)

theorem SyncPostCheckpoint_purged_counterexample:
  "\<lparr>pu_tag = tag3, pu_cycle_ctr = 0\<rparr>
     \<in> set (takeWhile (old_entry before_purge) (pendingUnlinks before_purge)) \<and>
   SyncPostCheckpoint purge_env before_purge =
     Inr (before_purge\<lparr>pendingUnlinks := [], unlink_calls := map pu_tag dropped_segments,
            absorb_calls := 1\<rparr>) \<and>
   tag3 \<notin> set (map pu_tag dropped_segments)"
  by (simp add: unlink_eval before_purge_def purge_env_def dropped_segments_def old_entry_def
        filter_matches_def)

theorem SyncPostCheckpoint_walk_witness:
  "SyncPostCheckpoint unlink_env after_checkpoint =
     Inr (after_checkpoint\<lparr>pendingUnlinks :=
              [\<lparr>pu_tag = tag3, pu_cycle_ctr = 1\<rparr>, \<lparr>pu_tag = tag3\<lparr>segno := 1\<rparr>, pu_cycle_ctr = 1\<rparr>],
            unlink_calls := map pu_tag dropped_segments, absorb_calls := 1,
            server_log := [(WARNING, ''could not remove file %s: %m'')]\<rparr>) \<and>
   takeWhile (old_entry after_checkpoint) (pendingUnlinks after_checkpoint) = dropped_segments \<and>
   dropWhile (old_entry after_checkpoint) (pendingUnlinks after_checkpoint) =
     [\<lparr>pu_tag = tag3, pu_cycle_ctr = 1\<rparr>] \<and>
   unlink_warnings unlink_env 0 dropped_segments = [(WARNING, ''could not remove file %s: %m'')]"
proof -
  have nf: "\<forall>n t. (t, SYNC_FILTER_REQUEST) \<notin> set (absorb_oracle unlink_env n)"
    by (simp add: unlink_env_def)
  have tw: "takeWhile (old_entry after_checkpoint) (pendingUnlinks after_checkpoint) =
      dropped_segments"
    and dw: "dropWhile (old_entry after_checkpoint) (pendingUnlinks after_checkpoint) =
      [\<lparr>pu_tag = tag3, pu_cycle_ctr = 1\<rparr>]"
    by (simp_all add: old_entry_def after_checkpoint_def dropped_segments_def)
  note inst = SyncPostCheckpoint_walk [OF after_checkpoint_eval, THEN conjunct2, THEN conjunct2,
      THEN conjunct2, THEN mp, OF nf, THEN conjunct2, THEN conjunct1]
  have "unlink_warnings unlink_env 0 dropped_segments =
      [(WARNING, ''could not remove file %s: %m'')]"
    using inst unfolding tw by (simp add: after_checkpoint_def unlink_eval)
  with after_checkpoint_eval tw dw show ?thesis by (intro conjI)
qed

section \<open>The walk when no filter request is absorbed\<close>


section \<open>The statistics of the background writer\<close>

text \<open>
  C10. With the statistics system up and the header of \<^verbatim>\<open>PendingBgWriterStats\<close> zero (as
  it is at start and after every call): the structure is all zeroes exactly when the
  three counters are zero; then \<^verbatim>\<open>pgstat_send_bgwriter\<close> sends nothing and changes
  nothing; otherwise it hands exactly one message to \<^verbatim>\<open>pgstat_send\<close>, carrying the three
  pending counters, and leaves \<^verbatim>\<open>PendingBgWriterStats\<close> all zeroes. A message is sent if
  and only if the structure is not all zeroes.
\<close>

theorem pgstat_send_bgwriter_sends:
  assumes "pgstat_is_up st" and "m_hdr (PendingBgWriterStats st) = m_hdr all_zeroes"
  shows "\<exists>st'. pgstat_send_bgwriter P st = Inr st' \<and>
     (pgstat_send_calls st' \<noteq> pgstat_send_calls st \<longleftrightarrow> PendingBgWriterStats st \<noteq> all_zeroes) \<and>
     (PendingBgWriterStats st = all_zeroes \<longleftrightarrow>
        m_buf_written_clean (PendingBgWriterStats st) = 0 \<and>
        m_maxwritten_clean (PendingBgWriterStats st) = 0 \<and>
        m_buf_alloc (PendingBgWriterStats st) = 0) \<and>
     (if m_buf_written_clean (PendingBgWriterStats st) = 0 \<and>
         m_maxwritten_clean (PendingBgWriterStats st) = 0 \<and>
         m_buf_alloc (PendingBgWriterStats st) = 0
      then st' = st
      else (\<exists>msg. pgstat_send_calls st' = pgstat_send_calls st @ [msg] \<and>
              m_buf_written_clean msg = m_buf_written_clean (PendingBgWriterStats st) \<and>
              m_maxwritten_clean msg = m_maxwritten_clean (PendingBgWriterStats st) \<and>
              m_buf_alloc msg = m_buf_alloc (PendingBgWriterStats st) \<and>
              m_hdr msg = pgstat_setheader P (PGSTAT_MTYPE_BGWRITER P)
                            (m_hdr (PendingBgWriterStats st))) \<and>
           PendingBgWriterStats st' = all_zeroes \<and> pgstat_is_up st') \<and>
     m_hdr (PendingBgWriterStats st') = m_hdr all_zeroes"
proof -
  let ?p = "PendingBgWriterStats st"
  have z: "?p = all_zeroes \<longleftrightarrow>
      m_buf_written_clean ?p = 0 \<and> m_maxwritten_clean ?p = 0 \<and> m_buf_alloc ?p = 0"
    using assms(2) by (cases ?p) (auto simp: all_zeroes_def)
  show ?thesis
  proof (cases "?p = all_zeroes")
    case True
    then have "pgstat_send_bgwriter P st = Inr st"
      using assms(1) by (simp add: pgstat_send_bgwriter_def)
    then show ?thesis using True z assms(2) by simp
  next
    case False
    let ?msg = "?p\<lparr>m_hdr := pgstat_setheader P (PGSTAT_MTYPE_BGWRITER P) (m_hdr ?p)\<rparr>"
    let ?st' = "st\<lparr>PendingBgWriterStats := all_zeroes,
                    pgstat_send_calls := pgstat_send_calls st @ [?msg]\<rparr>"
    have r: "pgstat_send_bgwriter P st = Inr ?st'"
      using assms(1) False by (simp add: pgstat_send_bgwriter_def Let_def)
    have nz: "\<not> (m_buf_written_clean ?p = 0 \<and> m_maxwritten_clean ?p = 0 \<and> m_buf_alloc ?p = 0)"
      using False z by simp
    show ?thesis
      using r False nz assms(1) by (intro exI [of _ ?st']) (auto simp: all_zeroes_def)
  qed
qed

theorem pgstat_send_bgwriter_sends_witness:
  "pgstat_is_up bgwriter_busy \<and>
   m_hdr (PendingBgWriterStats bgwriter_busy) = m_hdr all_zeroes \<and>
   pgstat_send_bgwriter pgstat_c bgwriter_busy =
     Inr (bgwriter_busy\<lparr>PendingBgWriterStats := all_zeroes,
            pgstat_send_calls :=
              [\<lparr>m_hdr = \<lparr>m_type = 4, m_size = 0\<rparr>, m_buf_written_clean = 2,
                m_maxwritten_clean = 0, m_buf_alloc = 7\<rparr>]\<rparr>) \<and>
   pgstat_send_bgwriter pgstat_c
     (bgwriter_busy\<lparr>PendingBgWriterStats := all_zeroes,
            pgstat_send_calls :=
              [\<lparr>m_hdr = \<lparr>m_type = 4, m_size = 0\<rparr>, m_buf_written_clean = 2,
                m_maxwritten_clean = 0, m_buf_alloc = 7\<rparr>]\<rparr>) =
     Inr (bgwriter_busy\<lparr>PendingBgWriterStats := all_zeroes,
            pgstat_send_calls :=
              [\<lparr>m_hdr = \<lparr>m_type = 4, m_size = 0\<rparr>, m_buf_written_clean = 2,
                m_maxwritten_clean = 0, m_buf_alloc = 7\<rparr>]\<rparr>)"
proof -
  have up: "pgstat_is_up bgwriter_busy"
    and hdr: "m_hdr (PendingBgWriterStats bgwriter_busy) = m_hdr all_zeroes"
    by (simp_all add: bgwriter_busy_def all_zeroes_def)
  from pgstat_send_bgwriter_sends [OF up hdr, of pgstat_c]
  obtain st' where r: "pgstat_send_bgwriter pgstat_c bgwriter_busy = Inr st'"
    and e: "PendingBgWriterStats st' = all_zeroes"
    by (auto simp: bgwriter_busy_def all_zeroes_def split: if_splits)
  have a: "pgstat_send_bgwriter pgstat_c bgwriter_busy =
     Inr (bgwriter_busy\<lparr>PendingBgWriterStats := all_zeroes,
            pgstat_send_calls :=
              [\<lparr>m_hdr = \<lparr>m_type = 4, m_size = 0\<rparr>, m_buf_written_clean = 2,
                m_maxwritten_clean = 0, m_buf_alloc = 7\<rparr>]\<rparr>)"
    by (simp add: pgstat_send_bgwriter_def bgwriter_busy_def pgstat_c_def all_zeroes_def Let_def)
  have b: "pgstat_send_bgwriter pgstat_c st' = Inr st'"
    using e r a by (simp add: pgstat_send_bgwriter_def bgwriter_busy_def)
  from up hdr a b r show ?thesis by simp
qed

section \<open>A pass leaves only entries of the current cycle\<close>

lemma tracked_simps [simp]:
  "tracked ts (st\<lparr>pendingUnlinks := b\<rparr>) = tracked ts st"
  "tracked ts (st\<lparr>checkpoint_cycle_ctr := c\<rparr>) = tracked ts st"
  "tracked ts (st\<lparr>sync_in_progress := d\<rparr>) = tracked ts st"
  "tracked ts (st\<lparr>absorb_counter := g\<rparr>) = tracked ts st"
  "tracked ts (st\<lparr>pgsw := h\<rparr>) = tracked ts st"
  "tracked ts (st\<lparr>processed := i\<rparr>) = tracked ts st"
  "tracked ts (st\<lparr>longest := j\<rparr>) = tracked ts st"
  "tracked ts (st\<lparr>total_elapsed := k\<rparr>) = tracked ts st"
  "tracked ts (st\<lparr>ckpt_sync_rels := i\<rparr>) = tracked ts st"
  "tracked ts (st\<lparr>ckpt_longest_sync := j\<rparr>) = tracked ts st"
  "tracked ts (st\<lparr>ckpt_agg_sync_time := k\<rparr>) = tracked ts st"
  "tracked ts (st\<lparr>sync_calls := l\<rparr>) = tracked ts st"
  "tracked ts (st\<lparr>unlink_calls := u\<rparr>) = tracked ts st"
  "tracked ts (st\<lparr>absorb_calls := m\<rparr>) = tracked ts st"
  "tracked ts (st\<lparr>clock_reads := n\<rparr>) = tracked ts st"
  "tracked ts (st\<lparr>server_log := p\<rparr>) = tracked ts st"
  by (simp_all add: tracked_def table_def)

lemma tracked_mono: "tracked ts st \<Longrightarrow> set ts \<subseteq> set ts' \<Longrightarrow> tracked ts' st"
  unfolding tracked_def by blast

lemma RememberSyncRequest_distinct:
  "distinct (map pf_tag (table st)) \<Longrightarrow>
     distinct (map pf_tag (table (state_of (RememberSyncRequest E ftag ty st))))"
  unfolding RememberSyncRequest_def
  by (auto simp: table_def map_tag_store hash_find_None_iff
           split: option.splits SyncRequestType.splits
           dest!: cancel_matching_tags)

lemma RememberSyncRequest_entries:
  "\<forall>e' \<in> set (table (state_of (RememberSyncRequest E ftag ty st))).
     pf_cycle_ctr e' = sync_cycle_ctr st \<or>
     (\<exists>e \<in> set (table st). pf_tag e = pf_tag e' \<and> pf_cycle_ctr e = pf_cycle_ctr e')"
  unfolding RememberSyncRequest_def
  by (auto simp: table_def hash_store_def
           split: option.splits SyncRequestType.splits if_splits
           dest!: cancel_matching_eq hash_find_Some_tag) blast+


lemma RememberSyncRequest_tracked:
  assumes "tracked ts st"
  shows "tracked ts (state_of (RememberSyncRequest E ftag ty st))"
proof -
  let ?s = "state_of (RememberSyncRequest E ftag ty st)"
  note f = requests_masked_fields [OF RememberSyncRequest_masked [of E ftag ty st]]
  have d: "distinct (map pf_tag (table ?s))"
    using assms by (intro RememberSyncRequest_distinct) (simp add: tracked_def)
  have "pf_cycle_ctr e' = sync_cycle_ctr ?s \<or> pf_tag e' \<in> set ts \<or>
        pf_tag e' \<in> if_hash_entry ` set (inflightSyncs ?s) \<or>
        pf_tag e' \<in> if_hash_entry ` set (retrySyncs ?s)" if "e' \<in> set (table ?s)" for e'
  proof -
    from RememberSyncRequest_entries [of E ftag ty st] that
    consider "pf_cycle_ctr e' = sync_cycle_ctr st"
      | e where "e \<in> set (table st)" "pf_tag e = pf_tag e'" "pf_cycle_ctr e = pf_cycle_ctr e'"
      by blast
    then show ?thesis
    proof cases
      case 1
      then show ?thesis by (simp add: f(3))
    next
      case 2
      with assms have "pf_cycle_ctr e = sync_cycle_ctr st \<or> pf_tag e \<in> set ts \<or>
        pf_tag e \<in> if_hash_entry ` set (inflightSyncs st) \<or>
        pf_tag e \<in> if_hash_entry ` set (retrySyncs st)"
        unfolding tracked_def by blast
      then show ?thesis unfolding f(1,2,3) 2(2,3) .
    qed
  qed
  with d show ?thesis unfolding tracked_def by blast
qed

lemma remember_all_tracked:
  "tracked ts st \<Longrightarrow> tracked ts (state_of (remember_all E rs st))"
proof (induction rs arbitrary: st)
  case Nil
  then show ?case by simp
next
  case (Cons r rs)
  show ?case
    unfolding remember_all.simps
    using Cons.prems
    by (intro and_then_inv [where P = "tracked ts"] RememberSyncRequest_tracked Cons.IH)
qed

lemma AbsorbSyncRequests_tracked:
  "tracked ts st \<Longrightarrow> tracked ts (state_of (AbsorbSyncRequests E st))"
  unfolding AbsorbSyncRequests_def by (rule remember_all_tracked) simp

lemma absorb_tick_tracked:
  assumes "tracked ts st"
  shows "tracked ts (state_of (absorb_tick E st))"
proof (cases "absorb_counter st - 1 \<le> 0")
  case False
  with assms show ?thesis by (simp add: absorb_tick_def Let_def)
next
  case True
  have "tracked ts (state_of (and_then (AbsorbSyncRequests E (st\<lparr>absorb_counter := absorb_counter st - 1\<rparr>))
             (\<lambda>s. Inr (s\<lparr>absorb_counter := FSYNCS_PER_ABSORB\<rparr>))))"
    using assms by (intro and_then_inv [where P = "tracked ts"] AbsorbSyncRequests_tracked) simp_all
  with True show ?thesis by (simp add: absorb_tick_def Let_def)
qed

text \<open>Taking an entry out of the table keeps the rest tracked, whatever tracked it.\<close>

lemma tracked_remove:
  assumes "tracked (t # ts) st" "pendingOps st = Some ops" "hash_remove t ops = Some ops'"
  shows "tracked ts (st\<lparr>pendingOps := Some ops'\<rparr>)"
proof -
  have ops': "ops' = filter (\<lambda>x. pf_tag x \<noteq> t) ops"
    using assms(3) by (auto simp: hash_remove_def split: option.splits)
  have t: "table st = ops" using assms(2) by (simp add: table_def)
  show ?thesis
    using assms(1) unfolding tracked_def t
    by (auto simp: table_def ops' distinct_map_filter)
qed

lemma tracked_inflight:
  "tracked (if_hash_entry e # ts) st \<Longrightarrow> if_hash_entry e' = if_hash_entry e \<Longrightarrow>
     tracked ts (st\<lparr>inflightSyncs := inflightSyncs st @ [e']\<rparr>)"
  unfolding tracked_def by (auto simp: table_def)

lemma tracked_retry:
  "tracked (if_hash_entry e # ts) st \<Longrightarrow> if_hash_entry e' = if_hash_entry e \<Longrightarrow>
     tracked ts (st\<lparr>retrySyncs := retrySyncs st @ [e']\<rparr>)"
  unfolding tracked_def by (auto simp: table_def)

lemma tracked_done:
  "tracked ts st \<Longrightarrow>
     tracked (if_hash_entry e # ts) (st\<lparr>inflightSyncs := remove1 e (inflightSyncs st)\<rparr>)"
proof -
  have "x \<in> set (inflightSyncs st) \<Longrightarrow> if_hash_entry x \<noteq> if_hash_entry e \<Longrightarrow>
      x \<in> set (remove1 e (inflightSyncs st))" for x
    by (cases "x = e") auto
  then show "tracked ts st \<Longrightarrow>
     tracked (if_hash_entry e # ts) (st\<lparr>inflightSyncs := remove1 e (inflightSyncs st)\<rparr>)"
    unfolding tracked_def by (auto simp: table_def)
qed

lemma tracked_pop:
  "tracked ts st \<Longrightarrow> retrySyncs st = e # rest \<Longrightarrow>
     tracked (if_hash_entry e # ts) (st\<lparr>retrySyncs := rest\<rparr>)"
  unfolding tracked_def by (auto simp: table_def)

lemma SyncRequestCompleted_tracked:
  assumes "SyncRequestCompleted E e ok err st = Inr st'" "tracked ts st"
  shows "tracked ts st'"
proof -
  let ?s = "st\<lparr>inflightSyncs := remove1 e (inflightSyncs st)\<rparr>"
  have s: "tracked (if_hash_entry e # ts) ?s" using assms(2) by (rule tracked_done)
  show ?thesis
  proof (cases ok)
    case False
    with assms(1) have "st' = ?s\<lparr>retrySyncs := retrySyncs ?s @ [e\<lparr>if_retry_count := if_retry_count e + 1\<rparr>],
                   server_log := server_log ?s @
                        [(DEBUG1, ''could not fsync file %s but retrying: %m'')]\<rparr>"
      by (auto simp: SyncRequestCompleted_def Let_def split: if_splits)
    then show ?thesis
      using tracked_retry [OF s, of "e\<lparr>if_retry_count := if_retry_count e + 1\<rparr>"] by simp
  next
    case True
    define s2 where "s2 =
       (let elapsed = clock E (clock_reads ?s) - if_start_time e;
             st1 = ?s\<lparr>clock_reads := clock_reads ?s + 1,
                      longest := (if elapsed > longest ?s then elapsed else longest ?s),
                      total_elapsed := total_elapsed ?s + elapsed,
                      processed := processed ?s + 1\<rparr>
        in if log_checkpoints st1
           then st1\<lparr>server_log := server_log st1 @
                  [(DEBUG1, ''checkpoint sync: number=%d file=%s time=%.3f ms'')]\<rparr>
           else st1)"
    have t2: "tracked (if_hash_entry e # ts) s2"
      using s by (simp add: s2_def Let_def)
    have r: "SyncRequestCompleted E e ok err st =
        (case pendingOps s2 of
              None \<Rightarrow> Inl (Crash ''pendingOps'', s2)
            | Some ops \<Rightarrow>
                (case hash_remove (if_hash_entry e) ops of
                   None \<Rightarrow> Inl (Elog ERROR ''pendingOps corrupted'', s2)
                 | Some ops' \<Rightarrow> Inr (s2\<lparr>pendingOps := Some ops'\<rparr>)))"
      using True by (simp add: SyncRequestCompleted_def s2_def Let_def split: option.splits)
    from assms(1) obtain ops ops' where o: "pendingOps s2 = Some ops"
      "hash_remove (if_hash_entry e) ops = Some ops'" "st' = s2\<lparr>pendingOps := Some ops'\<rparr>"
      unfolding r by (auto split: option.splits)
    from tracked_remove [OF t2 o(1,2)] o(3) show ?thesis by simp
  qed
qed

lemma complete_ios_tracked:
  "complete_ios E n st = Inr st' \<Longrightarrow> tracked ts st \<Longrightarrow> tracked ts st'"
proof (induction n arbitrary: st)
  case 0
  then show ?case by simp
next
  case (Suc n)
  show ?case
  proof (cases "pgsw st")
    case None
    with Suc.prems show ?thesis by simp
  next
    case (Some ios)
    show ?thesis
    proof (cases ios)
      case Nil
      with Some Suc.prems show ?thesis by simp
    next
      case (Cons io ios')
      with Some Suc.prems(1) obtain m where
        m: "SyncRequestCompleted E (fst io) (fst (snd io)) (snd (snd io)) (st\<lparr>pgsw := Some ios'\<rparr>) = Inr m"
        and r: "complete_ios E n m = Inr st'"
        by (auto simp: and_then_Inr_iff)
      have "tracked ts (st\<lparr>pgsw := Some ios'\<rparr>)" using Suc.prems(2) by simp
      from Suc.IH [OF r SyncRequestCompleted_tracked [OF m this]] show ?thesis .
    qed
  qed
qed

lemma finish_submission_tracked:
  "finish_submission E e out st = Inr st' \<Longrightarrow> tracked ts st \<Longrightarrow> tracked ts st'"
  unfolding finish_submission_def
  by (auto split: if_splits option.splits dest: SyncRequestCompleted_tracked)

lemma run_sync_handler_tracked:
  assumes "run_sync_handler E f e st = Inr st'" "tracked ts st"
  shows "tracked ts st'"
proof -
  from assms(1) obtain m where
    m: "complete_ios E (so_drained (f (length (sync_calls st)) e))
          (st\<lparr>sync_calls := sync_calls st @ [e]\<rparr>) = Inr m"
    and r: "finish_submission E e (f (length (sync_calls st)) e) m = Inr st'"
    by (auto simp: run_sync_handler_def Let_def and_then_Inr_iff)
  have "tracked ts (st\<lparr>sync_calls := sync_calls st @ [e]\<rparr>)" using assms(2) by simp
  from finish_submission_tracked [OF r complete_ios_tracked [OF m this]] show ?thesis .
qed

text \<open>A submission takes over the tracking of its table entry.\<close>

lemma call_syncfiletag_tracked:
  assumes "call_syncfiletag E e st = Inr st'" "tracked (if_hash_entry e # ts) st"
  shows "tracked ts st'"
proof -
  let ?e = "e\<lparr>if_start_time := clock E (clock_reads st)\<rparr>"
  let ?s = "st\<lparr>inflightSyncs := inflightSyncs st @ [?e], clock_reads := clock_reads st + 1\<rparr>"
  have t: "tracked ts ?s"
    using tracked_inflight [OF assms(2), of ?e] by simp
  from assms(1) obtain f where "run_sync_handler E f ?e ?s = Inr st'"
    by (auto simp: call_syncfiletag_def Let_def split: option.splits)
  from run_sync_handler_tracked [OF this t] show ?thesis .
qed

lemma wait_all_tracked:
  "pg_streaming_write_wait_all E st = Inr st' \<Longrightarrow> tracked ts st \<Longrightarrow> tracked ts st'"
  unfolding pg_streaming_write_wait_all_def
  by (auto split: option.splits dest: complete_ios_tracked)

lemma retry_one_tracked:
  assumes "retry_one E e st = Inr st'" "tracked (if_hash_entry e # ts) st"
  shows "tracked ts st'"
proof -
  from assms(1) obtain ops he where o: "pendingOps st = Some ops"
    "hash_find (if_hash_entry e) ops = Some he"
    by (auto simp: retry_one_def split: option.splits)
  then have tag: "pf_tag he = if_hash_entry e" using hash_find_Some_tag by blast
  show ?thesis
  proof (cases "pf_canceled he")
    case True
    with assms(1) o tag obtain ops' where "hash_remove (if_hash_entry e) ops = Some ops'"
      "st' = st\<lparr>pendingOps := Some ops'\<rparr>"
      by (auto simp: retry_one_def split: option.splits)
    with tracked_remove [OF assms(2) o(1)] show ?thesis by simp
  next
    case False
    with assms(1) o have "call_syncfiletag E e st = Inr st'"
      by (auto simp: retry_one_def split: if_splits)
    from call_syncfiletag_tracked [OF this assms(2)] show ?thesis .
  qed
qed

lemma retry_loop_tracked:
  "retry_loop E st = Inr st' \<Longrightarrow> tracked ts st \<Longrightarrow> tracked ts st'"
proof (induction E st arbitrary: st' rule: retry_loop.induct)
  case (1 E st)
  show ?case
  proof (cases "retrySyncs st")
    case Nil
    with "1.prems" show ?thesis by (subst (asm) retry_loop.simps) simp
  next
    case (Cons e rest)
    with "1.prems"(1) obtain m where m: "retry_one E e (st\<lparr>retrySyncs := rest\<rparr>) = Inr m"
      and r: "retry_loop E m = Inr st'"
      by (subst (asm) retry_loop.simps) (auto split: sum.splits)
    from retry_one_tracked [OF m tracked_pop [OF "1.prems"(2) Cons]]
    have "tracked ts m" .
    from "1.IH" [OF Cons m r this] show ?thesis .
  qed
qed

lemma RetrySyncRequests_tracked:
  assumes "RetrySyncRequests E st = Inr st'" "tracked ts st"
  shows "tracked ts st'"
proof (cases "retrySyncs st = []")
  case True
  with assms show ?thesis by (simp add: RetrySyncRequests_def)
next
  case False
  with assms(1) obtain m where m: "AbsorbSyncRequests E st = Inr m"
    and r: "retry_loop E (m\<lparr>absorb_counter := FSYNCS_PER_ABSORB\<rparr>) = Inr st'"
    by (auto simp: RetrySyncRequests_def and_then_Inr_iff)
  from AbsorbSyncRequests_tracked [OF assms(2), of E] m
  have "tracked ts (m\<lparr>absorb_counter := FSYNCS_PER_ABSORB\<rparr>)" by simp
  from retry_loop_tracked [OF r this] show ?thesis .
qed

lemma retry_bank_tracked:
  "retry_bank E n st = Inr st' \<Longrightarrow> tracked ts st \<Longrightarrow> tracked ts st'"
proof (induction E n st arbitrary: st' rule: retry_bank.induct)
  case (1 E n st)
  show ?case
  proof (cases "n < 5")
    case False
    with "1.prems" show ?thesis by (subst (asm) retry_bank.simps) simp
  next
    case True
    with "1.prems"(1) obtain m where m: "RetrySyncRequests E st = Inr m"
      and r: "retry_bank E (n + 1) m = Inr st'"
      by (subst (asm) retry_bank.simps) (auto split: sum.splits)
    from "1.IH" [OF True m r RetrySyncRequests_tracked [OF m "1.prems"(2)]] show ?thesis .
  qed
qed

lemma sync_or_remove_tracked:
  assumes "sync_or_remove E t st = Inr st'" "tracked (t # ts) st"
  shows "tracked ts st'"
proof -
  from assms(1) obtain ops entry where o: "pendingOps st = Some ops"
    "hash_find t ops = Some entry"
    by (auto simp: sync_or_remove_def split: option.splits)
  then have tag: "pf_tag entry = t" using hash_find_Some_tag by blast
  show ?thesis
  proof (cases "\<not> enableFsync st \<or> pf_canceled entry")
    case True
    with assms(1) o tag obtain ops' where "hash_remove t ops = Some ops'"
      "st' = st\<lparr>pendingOps := Some ops'\<rparr>"
      by (auto simp: sync_or_remove_def split: option.splits)
    with tracked_remove [OF assms(2) o(1)] show ?thesis by simp
  next
    case False
    let ?e = "\<lparr>if_tag = pf_tag entry, if_hash_entry = pf_tag entry,
                       if_handler_data = 0, if_path = [], if_retry_count = 0,
                       if_start_time = 0\<rparr>"
    from False assms(1) o have c: "call_syncfiletag E ?e st = Inr st'"
      by (auto simp: sync_or_remove_def split: if_splits)
    have "tracked (if_hash_entry ?e # ts) st" using assms(2) tag by simp
    from call_syncfiletag_tracked [OF c this] show ?thesis .
  qed
qed

lemma tracked_skip:
  assumes "tracked (t # ts) st"
    and "\<And>e. hash_find t (table st) = Some e \<Longrightarrow> pf_cycle_ctr e = sync_cycle_ctr st"
  shows "tracked ts st"
proof -
  have "pf_cycle_ctr e = sync_cycle_ctr st" if "e \<in> set (table st)" "pf_tag e = t" for e
  proof -
    from that have "t \<in> pf_tag ` set (table st)" by auto
    then obtain e' where e': "hash_find t (table st) = Some e'"
      using hash_find_None_iff [of t "table st"] by (cases "hash_find t (table st)") auto
    then have "pf_tag e' = t" "e' \<in> set (table st)" using hash_find_Some_tag by blast+
    with that assms(1) have "e' = e"
      unfolding tracked_def by (auto simp: distinct_map dest: inj_onD)
    with assms(2) [OF e'] show ?thesis by simp
  qed
  with assms(1) show ?thesis unfolding tracked_def by auto
qed

lemma sync_loop_body_tracked:
  assumes "sync_loop_body E t st = Inr st'" "tracked (t # ts) st"
  shows "tracked ts st'"
proof -
  from assms(1) obtain ops where ops: "pendingOps st = Some ops"
    by (auto simp: sync_loop_body_def split: option.splits)
  then have tab: "table st = ops" by (simp add: table_def)
  show ?thesis
  proof (cases "hash_find t ops")
    case None
    with assms(1) ops have "st' = st" by (simp add: sync_loop_body_def)
    with tracked_skip [OF assms(2)] None tab show ?thesis by simp
  next
    case (Some entry)
    show ?thesis
    proof (cases "pf_cycle_ctr entry = sync_cycle_ctr st")
      case True
      with assms(1) ops Some have "st' = st" by (simp add: sync_loop_body_def)
      with tracked_skip [OF assms(2)] Some tab True show ?thesis by simp
    next
      case False
      with assms(1) ops Some obtain m where m: "absorb_tick E st = Inr m"
        and r: "sync_or_remove E t m = Inr st'"
        by (auto simp: sync_loop_body_def and_then_Inr_iff split: if_splits)
      from absorb_tick_tracked [OF assms(2), of E] m have "tracked (t # ts) m" by simp
      from sync_or_remove_tracked [OF r this] show ?thesis .
    qed
  qed
qed

lemma sync_loop_tracked:
  "sync_loop E ts st = Inr st' \<Longrightarrow> tracked (ts @ us) st \<Longrightarrow> tracked us st'"
proof (induction ts arbitrary: st)
  case Nil
  then show ?case by simp
next
  case (Cons t ts)
  from Cons.prems(1) obtain m where m: "sync_loop_body E t st = Inr m"
    and r: "sync_loop E ts m = Inr st'"
    by (auto split: sum.splits)
  from Cons.prems(2) have "tracked (t # ts @ us) st" by simp
  from Cons.IH [OF r sync_loop_body_tracked [OF m this]] show ?case .
qed

lemma tracked_all:
  "distinct (map pf_tag (table st)) \<Longrightarrow> tracked (map pf_tag (table st)) st"
  unfolding tracked_def by simp

lemma tracked_distinct: "tracked ts st \<Longrightarrow> distinct (map pf_tag (table st))"
  unfolding tracked_def by simp

lemma tracked_all_current:
  "tracked [] st \<Longrightarrow> inflightSyncs st = [] \<Longrightarrow> retrySyncs st = [] \<Longrightarrow> all_current st"
  unfolding tracked_def all_current_def by simp

lemma settled_simps [simp]:
  "settled (st\<lparr>pendingUnlinks := b\<rparr>) = settled st"
  "settled (st\<lparr>checkpoint_cycle_ctr := c\<rparr>) = settled st"
  "settled (st\<lparr>unlink_calls := u\<rparr>) = settled st"
  "settled (st\<lparr>absorb_calls := m\<rparr>) = settled st"
  "settled (st\<lparr>server_log := p\<rparr>) = settled st"
  by (simp_all add: settled_def all_current_def table_def)

lemma AbsorbSyncRequests_distinct:
  "distinct (map pf_tag (table st)) \<Longrightarrow>
     distinct (map pf_tag (table (state_of (AbsorbSyncRequests E st))))"
  by (rule tracked_distinct [OF AbsorbSyncRequests_tracked [OF tracked_all]])

lemma settled_InitSync: "settled (InitSync p c startup)"
  by (simp add: settled_def InitSync_def startup_def all_current_def table_def)

lemma RememberSyncRequest_settled:
  assumes "settled st"
  shows "settled (state_of (RememberSyncRequest E ftag ty st))"
proof -
  note f = requests_masked_fields(5) [OF RememberSyncRequest_masked [of E ftag ty st]]
  from assms show ?thesis
    unfolding settled_def f
    using RememberSyncRequest_all_current [of st E ftag ty]
      RememberSyncRequest_distinct [of st E ftag ty] by blast
qed

lemma AbsorbSyncRequests_settled:
  assumes "settled st"
  shows "settled (state_of (AbsorbSyncRequests E st))"
proof -
  note f = requests_masked_fields(5) [OF AbsorbSyncRequests_masked [of E st]]
  from assms show ?thesis
    unfolding settled_def f
    using AbsorbSyncRequests_all_current [of st E] AbsorbSyncRequests_distinct [of st E]
    by blast
qed

lemma SyncPreCheckpoint_settled: "settled st \<Longrightarrow> settled (SyncPreCheckpoint st)"
  by (simp add: SyncPreCheckpoint_def)

lemma unlink_one_settled:
  assumes "settled st"
  shows "settled (state_of (unlink_one E c entry st))"
proof (cases "sync_unlinkfiletag (syncsw E (handler (pu_tag entry)))")
  case None
  with assms show ?thesis by (simp add: unlink_one_def)
next
  case (Some u)
  define s3 where "s3 = (let r = u (length (unlink_calls st)) (pu_tag entry);
               st1 = st\<lparr>unlink_calls := unlink_calls st @ [pu_tag entry]\<rparr>;
               st2 = (if fst r < 0 \<and> snd r \<noteq> ENOENT
                      then st1\<lparr>server_log := server_log st1 @
                             [(WARNING, ''could not remove file %s: %m'')]\<rparr>
                      else st1)
           in st2\<lparr>pendingUnlinks := tl (pendingUnlinks st2)\<rparr>)"
  have s3: "settled s3" using assms by (simp add: s3_def Let_def)
  have "unlink_one E c entry st = (if c - 1 \<le> 0 then AbsorbSyncRequests E s3 else Inr s3)"
    using Some by (simp add: unlink_one_def s3_def Let_def)
  then show ?thesis
    using s3 AbsorbSyncRequests_settled [OF s3, of E] by simp
qed

lemma unlink_loop_settled:
  "settled st \<Longrightarrow> settled (state_of (unlink_loop E c st))"
proof (induction E c st rule: unlink_loop.induct)
  case (1 E c st)
  show ?case
  proof (cases "pendingUnlinks st")
    case Nil
    with "1.prems" show ?thesis by (subst unlink_loop.simps) simp
  next
    case (Cons entry rest)
    show ?thesis
    proof (cases "pu_cycle_ctr entry = checkpoint_cycle_ctr st")
      case True
      with "1.prems" Cons show ?thesis by (subst unlink_loop.simps) simp
    next
      case False
      note one = unlink_one_settled [OF "1.prems", of E c entry]
      show ?thesis
      proof (cases "unlink_one E c entry st")
        case (Inl f)
        with one Cons False show ?thesis by (subst unlink_loop.simps) simp
      next
        case (Inr s1)
        with one have "settled s1" by simp
        from "1.IH" [OF Cons False Inr this] Cons False Inr show ?thesis
          by (subst unlink_loop.simps) simp
      qed
    qed
  qed
qed

lemma SyncPostCheckpoint_settled:
  "settled st \<Longrightarrow> settled (state_of (SyncPostCheckpoint E st))"
  unfolding SyncPostCheckpoint_def by (rule unlink_loop_settled)

text \<open>
  A pass that returns has flushed or dropped every entry it found: the entries it
  leaves were entered during the pass.
\<close>

lemma ProcessSyncRequests_all_current:
  assumes "ProcessSyncRequests E st = Inr st'" "all_current st"
    "distinct (map pf_tag (table st))"
  shows "all_current st' \<and> distinct (map pf_tag (table st'))"
proof -
  from assms(1) obtain s5 where pass: "sync_pass E st = Inr s5" and fin: "finish_pass s5 = Inr st'"
    by (auto simp: ProcessSyncRequests_def and_then_Inr_iff)
  from pass obtain ops where ops: "pendingOps st = Some ops"
    by (auto simp: sync_pass_def split: option.splits)
  from ops show ?thesis
  proof (cases rule: sync_pass_cases [where E = E])
    case (absorb x)
    with pass show ?thesis by simp
  next
    case (stale s1)
    with pass show ?thesis by simp
  next
    case (scan s1 s2)
    have d1: "distinct (map pf_tag (table s1))"
      using AbsorbSyncRequests_distinct [OF assms(3), of E] scan(1) by simp
    note b = begin_pass_Inr [OF scan(2)]
    have tab: "table s2 = table s1" using b by (simp add: table_def)
    have "tracked (map pf_tag (table s2)) s2"
      using d1 unfolding tab [symmetric] by (rule tracked_all)
    then have t2: "tracked (hash_seq_tags s2 @ []) s2"
      by (simp add: hash_seq_tags_def table_def split: option.splits)
    from pass obtain s3 s4 where s3: "sync_loop E (hash_seq_tags s2) s2 = Inr s3"
      and s4: "pg_streaming_write_wait_all E s3 = Inr s4"
      and s5: "retry_bank E 0 s4 = Inr s5"
      unfolding scan(3) by (auto simp: and_then_Inr_iff)
    have t5: "tracked [] s5"
      by (rule retry_bank_tracked [OF s5 wait_all_tracked [OF s4 sync_loop_tracked [OF s3 t2]]])
    from fin have e: "inflightSyncs s5 = []" "retrySyncs s5 = []"
      and st': "st' = s5\<lparr>pgsw := None, ckpt_sync_rels := processed s5,
                   ckpt_longest_sync := longest s5, ckpt_agg_sync_time := total_elapsed s5,
                   sync_in_progress := False\<rparr>"
      by (auto simp: finish_pass_def split: if_splits)
    from tracked_all_current [OF t5 e] tracked_distinct [OF t5] show ?thesis
      unfolding st' by (simp add: all_current_def table_def)
  qed
qed

lemma ProcessSyncRequests_settled:
  assumes "settled st"
  shows "settled (state_of (ProcessSyncRequests E st))"
proof (cases "ProcessSyncRequests E st")
  case (Inr st')
  then obtain s5 where pass: "sync_pass E st = Inr s5"
    by (auto simp: ProcessSyncRequests_def and_then_Inr_iff)
  then obtain ops where ops: "pendingOps st = Some ops"
    by (auto simp: sync_pass_def split: option.splits)
  have "\<not> sync_in_progress st"
    using ops
  proof (cases rule: sync_pass_cases [where E = E])
    case (absorb x)
    with pass show ?thesis by simp
  next
    case (stale s1)
    with pass show ?thesis by simp
  next
    case (scan s1 s2)
    from begin_pass_Inr [OF scan(2)]
      requests_masked_fields(5) [OF AbsorbSyncRequests_masked [of E st]] scan(1)
    show ?thesis by simp
  qed
  with assms ProcessSyncRequests_all_current [OF Inr] Inr show ?thesis
    by (simp add: settled_def)
next
  case (Inl x)
  show ?thesis
  proof (cases "sync_pass E st")
    case (Inr s5)
    with sync_pass_frame [of E st] have "sync_in_progress s5" by simp
    moreover from Inl Inr have "state_of (ProcessSyncRequests E st) = s5"
      by (auto simp: ProcessSyncRequests_def finish_pass_def split: if_splits)
    ultimately show ?thesis by (simp add: settled_def)
  next
    case pl: (Inl y)
    then have eq: "state_of (ProcessSyncRequests E st) = state_of (sync_pass E st)"
      by (simp add: ProcessSyncRequests_def)
    show ?thesis
    proof (cases "pendingOps st")
      case None
      with assms show ?thesis unfolding eq by (simp add: sync_pass_def)
    next
      case (Some ops)
      from Some show ?thesis
      proof (cases rule: sync_pass_cases [where E = E])
        case (absorb x)
        with AbsorbSyncRequests_settled [OF assms, of E] show ?thesis unfolding eq by simp
      next
        case (stale s1)
        then show ?thesis unfolding eq by (simp add: settled_def)
      next
        case (scan s1 s2)
        from begin_pass_Inr [OF scan(2)]
          pass_masked_fields(3) [OF scan_and_retry_pass_masked [of E "hash_seq_tags s2" s2]]
        show ?thesis unfolding eq scan(3) by (simp add: settled_def)
      qed
    qed
  qed
qed

lemma ProcessSyncRequests_settled_no_assert:
  assumes "settled st"
  shows "raises_only (\<lambda>f. f \<noteq> cycle_assertion) (ProcessSyncRequests E st)"
proof (cases "sync_in_progress st")
  case False
  with assms have "all_current st" by (simp add: settled_def)
  then show ?thesis by (rule ProcessSyncRequests_no_assert)
next
  case True
  have i: "inner_failure f \<Longrightarrow> f \<noteq> cycle_assertion" for f
    by (simp add: inner_failure_def)
  show ?thesis
  proof (cases "pendingOps st")
    case None
    then show ?thesis
      by (simp add: ProcessSyncRequests_def sync_pass_def cycle_assertion_def)
  next
    case (Some ops)
    from Some show ?thesis
    proof (cases rule: sync_pass_cases [where E = E])
      case (absorb x)
      with AbsorbSyncRequests_raises [of E st] i show ?thesis
        by (cases x) (auto simp: ProcessSyncRequests_def)
    next
      case (stale s1)
      then show ?thesis by (simp add: ProcessSyncRequests_def cycle_assertion_def)
    next
      case (scan s1 s2)
      from begin_pass_Inr [OF scan(2)]
        requests_masked_fields(5) [OF AbsorbSyncRequests_masked [of E st]] scan(1) True
      show ?thesis by simp
    qed
  qed
qed

section \<open>An unlink request that arrives during a checkpoint\<close>





section \<open>A scan submits or removes every entry it finds\<close>

lemma accounted_simps [simp]:
  "accounted base ts (st\<lparr>pendingUnlinks := b\<rparr>) = accounted base ts st"
  "accounted base ts (st\<lparr>inflightSyncs := q\<rparr>) = accounted base ts st"
  "accounted base ts (st\<lparr>retrySyncs := r\<rparr>) = accounted base ts st"
  "accounted base ts (st\<lparr>checkpoint_cycle_ctr := c\<rparr>) = accounted base ts st"
  "accounted base ts (st\<lparr>sync_in_progress := d\<rparr>) = accounted base ts st"
  "accounted base ts (st\<lparr>absorb_counter := g\<rparr>) = accounted base ts st"
  "accounted base ts (st\<lparr>pgsw := h\<rparr>) = accounted base ts st"
  "accounted base ts (st\<lparr>processed := i\<rparr>) = accounted base ts st"
  "accounted base ts (st\<lparr>longest := j\<rparr>) = accounted base ts st"
  "accounted base ts (st\<lparr>total_elapsed := k\<rparr>) = accounted base ts st"
  "accounted base ts (st\<lparr>ckpt_sync_rels := i\<rparr>) = accounted base ts st"
  "accounted base ts (st\<lparr>ckpt_longest_sync := j\<rparr>) = accounted base ts st"
  "accounted base ts (st\<lparr>ckpt_agg_sync_time := k\<rparr>) = accounted base ts st"
  "accounted base ts (st\<lparr>unlink_calls := u\<rparr>) = accounted base ts st"
  "accounted base ts (st\<lparr>absorb_calls := m\<rparr>) = accounted base ts st"
  "accounted base ts (st\<lparr>clock_reads := n\<rparr>) = accounted base ts st"
  "accounted base ts (st\<lparr>server_log := p\<rparr>) = accounted base ts st"
  by (simp_all add: accounted_def table_def)

lemma accounted_mono:
  "accounted base ts st \<Longrightarrow> set ts \<subseteq> set ts' \<Longrightarrow> accounted base ts' st"
  unfolding accounted_def by blast

lemma accounted_start:
  "distinct (map pf_tag (table st)) \<Longrightarrow> accounted (sync_calls st) (map pf_tag (table st)) st"
  unfolding accounted_def by simp

lemma RememberSyncRequest_accounted:
  assumes "accounted base ts st"
  shows "accounted base ts (state_of (RememberSyncRequest E ftag ty st))"
proof -
  let ?s = "state_of (RememberSyncRequest E ftag ty st)"
  note f = requests_masked_fields [OF RememberSyncRequest_masked [of E ftag ty st]]
  from assms obtain cs where cs: "sync_calls st = base @ cs"
    and tr: "\<forall>e \<in> set (table st).
           pf_cycle_ctr e = sync_cycle_ctr st \<or> pf_tag e \<in> set ts \<or>
           pf_tag e \<in> if_hash_entry ` set cs"
    unfolding accounted_def by blast
  have d: "distinct (map pf_tag (table ?s))"
    using assms by (intro RememberSyncRequest_distinct) (simp add: accounted_def)
  have "pf_cycle_ctr e' = sync_cycle_ctr ?s \<or> pf_tag e' \<in> set ts \<or>
        pf_tag e' \<in> if_hash_entry ` set cs" if "e' \<in> set (table ?s)" for e'
  proof -
    from RememberSyncRequest_entries [of E ftag ty st] that
    consider "pf_cycle_ctr e' = sync_cycle_ctr st"
      | e where "e \<in> set (table st)" "pf_tag e = pf_tag e'" "pf_cycle_ctr e = pf_cycle_ctr e'"
      by blast
    then show ?thesis
    proof cases
      case 1
      then show ?thesis by (simp add: f(3))
    next
      case 2
      with tr have "pf_cycle_ctr e = sync_cycle_ctr st \<or> pf_tag e \<in> set ts \<or>
        pf_tag e \<in> if_hash_entry ` set cs" by blast
      then show ?thesis unfolding f(3) 2(2,3) .
    qed
  qed
  with d cs show ?thesis unfolding accounted_def f(16) by blast
qed

lemma remember_all_accounted:
  "accounted base ts st \<Longrightarrow> accounted base ts (state_of (remember_all E rs st))"
proof (induction rs arbitrary: st)
  case Nil
  then show ?case by simp
next
  case (Cons r rs)
  show ?case
    unfolding remember_all.simps
    using Cons.prems
    by (intro and_then_inv [where P = "accounted base ts"] RememberSyncRequest_accounted Cons.IH)
qed

lemma AbsorbSyncRequests_accounted:
  "accounted base ts st \<Longrightarrow> accounted base ts (state_of (AbsorbSyncRequests E st))"
  unfolding AbsorbSyncRequests_def by (rule remember_all_accounted) simp

lemma absorb_tick_accounted:
  assumes "accounted base ts st"
  shows "accounted base ts (state_of (absorb_tick E st))"
proof (cases "absorb_counter st - 1 \<le> 0")
  case False
  with assms show ?thesis by (simp add: absorb_tick_def Let_def)
next
  case True
  have "accounted base ts (state_of (and_then (AbsorbSyncRequests E (st\<lparr>absorb_counter := absorb_counter st - 1\<rparr>))
             (\<lambda>s. Inr (s\<lparr>absorb_counter := FSYNCS_PER_ABSORB\<rparr>))))"
    using assms
    by (intro and_then_inv [where P = "accounted base ts"] AbsorbSyncRequests_accounted) simp_all
  with True show ?thesis by (simp add: absorb_tick_def Let_def)
qed

lemma accounted_remove:
  assumes "accounted base (t # ts) st" "pendingOps st = Some ops" "hash_remove t ops = Some ops'"
  shows "accounted base ts (st\<lparr>pendingOps := Some ops'\<rparr>)"
proof -
  have ops': "ops' = filter (\<lambda>x. pf_tag x \<noteq> t) ops"
    using assms(3) by (auto simp: hash_remove_def split: option.splits)
  have t: "table st = ops" using assms(2) by (simp add: table_def)
  show ?thesis
    using assms(1) unfolding accounted_def t
    by (auto simp: table_def ops' distinct_map_filter)
qed

lemma accounted_shrink:
  assumes "accounted base ts st" "pendingOps st = Some ops" "hash_remove t ops = Some ops'"
  shows "accounted base ts (st\<lparr>pendingOps := Some ops'\<rparr>)"
  by (rule accounted_remove [OF accounted_mono [OF assms(1)] assms(2,3)]) auto

lemma accounted_call:
  assumes "accounted base (if_hash_entry e # ts) st"
  shows "accounted base ts (st\<lparr>sync_calls := sync_calls st @ [e]\<rparr>)"
proof -
  from assms obtain cs where d: "distinct (map pf_tag (table st))"
    and cs: "sync_calls st = base @ cs"
    and tr: "\<forall>x \<in> set (table st).
           pf_cycle_ctr x = sync_cycle_ctr st \<or> pf_tag x \<in> set (if_hash_entry e # ts) \<or>
           pf_tag x \<in> if_hash_entry ` set cs"
    unfolding accounted_def by blast
  have "\<forall>x \<in> set (table st).
           pf_cycle_ctr x = sync_cycle_ctr st \<or> pf_tag x \<in> set ts \<or>
           pf_tag x \<in> if_hash_entry ` set (cs @ [e])"
    using tr by auto
  with d cs show ?thesis
    unfolding accounted_def by (intro conjI exI [of _ "cs @ [e]"]) (simp_all add: table_def)
qed

lemma SyncRequestCompleted_accounted:
  assumes "SyncRequestCompleted E e ok err st = Inr st'" "accounted base ts st"
  shows "accounted base ts st'"
proof -
  let ?s = "st\<lparr>inflightSyncs := remove1 e (inflightSyncs st)\<rparr>"
  show ?thesis
  proof (cases ok)
    case False
    with assms(1) have "st' = ?s\<lparr>retrySyncs := retrySyncs ?s @ [e\<lparr>if_retry_count := if_retry_count e + 1\<rparr>],
                   server_log := server_log ?s @
                        [(DEBUG1, ''could not fsync file %s but retrying: %m'')]\<rparr>"
      by (auto simp: SyncRequestCompleted_def Let_def split: if_splits)
    then show ?thesis using assms(2) by simp
  next
    case True
    define s2 where "s2 =
       (let elapsed = clock E (clock_reads ?s) - if_start_time e;
             st1 = ?s\<lparr>clock_reads := clock_reads ?s + 1,
                      longest := (if elapsed > longest ?s then elapsed else longest ?s),
                      total_elapsed := total_elapsed ?s + elapsed,
                      processed := processed ?s + 1\<rparr>
        in if log_checkpoints st1
           then st1\<lparr>server_log := server_log st1 @
                  [(DEBUG1, ''checkpoint sync: number=%d file=%s time=%.3f ms'')]\<rparr>
           else st1)"
    have t2: "accounted base ts s2"
      using assms(2) by (simp add: s2_def Let_def)
    have r: "SyncRequestCompleted E e ok err st =
        (case pendingOps s2 of
              None \<Rightarrow> Inl (Crash ''pendingOps'', s2)
            | Some ops \<Rightarrow>
                (case hash_remove (if_hash_entry e) ops of
                   None \<Rightarrow> Inl (Elog ERROR ''pendingOps corrupted'', s2)
                 | Some ops' \<Rightarrow> Inr (s2\<lparr>pendingOps := Some ops'\<rparr>)))"
      using True by (simp add: SyncRequestCompleted_def s2_def Let_def split: option.splits)
    from assms(1) obtain ops ops' where o: "pendingOps s2 = Some ops"
      "hash_remove (if_hash_entry e) ops = Some ops'" "st' = s2\<lparr>pendingOps := Some ops'\<rparr>"
      unfolding r by (auto split: option.splits)
    from accounted_shrink [OF t2 o(1,2)] o(3) show ?thesis by simp
  qed
qed

lemma complete_ios_accounted:
  "complete_ios E n st = Inr st' \<Longrightarrow> accounted base ts st \<Longrightarrow> accounted base ts st'"
proof (induction n arbitrary: st)
  case 0
  then show ?case by simp
next
  case (Suc n)
  show ?case
  proof (cases "pgsw st")
    case None
    with Suc.prems show ?thesis by simp
  next
    case (Some ios)
    show ?thesis
    proof (cases ios)
      case Nil
      with Some Suc.prems show ?thesis by simp
    next
      case (Cons io ios')
      with Some Suc.prems(1) obtain m where
        m: "SyncRequestCompleted E (fst io) (fst (snd io)) (snd (snd io)) (st\<lparr>pgsw := Some ios'\<rparr>) = Inr m"
        and r: "complete_ios E n m = Inr st'"
        by (auto simp: and_then_Inr_iff)
      have "accounted base ts (st\<lparr>pgsw := Some ios'\<rparr>)" using Suc.prems(2) by simp
      from Suc.IH [OF r SyncRequestCompleted_accounted [OF m this]] show ?thesis .
    qed
  qed
qed

lemma finish_submission_accounted:
  "finish_submission E e out st = Inr st' \<Longrightarrow> accounted base ts st \<Longrightarrow> accounted base ts st'"
  unfolding finish_submission_def
  by (auto split: if_splits option.splits dest: SyncRequestCompleted_accounted)

text \<open>The call of the sync function accounts for the table entry of the submission.\<close>

lemma run_sync_handler_accounted:
  assumes "run_sync_handler E f e st = Inr st'" "accounted base (if_hash_entry e # ts) st"
  shows "accounted base ts st'"
proof -
  from assms(1) obtain m where
    m: "complete_ios E (so_drained (f (length (sync_calls st)) e))
          (st\<lparr>sync_calls := sync_calls st @ [e]\<rparr>) = Inr m"
    and r: "finish_submission E e (f (length (sync_calls st)) e) m = Inr st'"
    by (auto simp: run_sync_handler_def Let_def and_then_Inr_iff)
  from finish_submission_accounted [OF r complete_ios_accounted [OF m accounted_call [OF assms(2)]]]
  show ?thesis .
qed

lemma call_syncfiletag_accounted:
  assumes "call_syncfiletag E e st = Inr st'" "accounted base (if_hash_entry e # ts) st"
  shows "accounted base ts st'"
proof -
  let ?e = "e\<lparr>if_start_time := clock E (clock_reads st)\<rparr>"
  let ?s = "st\<lparr>inflightSyncs := inflightSyncs st @ [?e], clock_reads := clock_reads st + 1\<rparr>"
  have t: "accounted base (if_hash_entry ?e # ts) ?s"
    using assms(2) by simp
  from assms(1) obtain f where "run_sync_handler E f ?e ?s = Inr st'"
    by (auto simp: call_syncfiletag_def Let_def split: option.splits)
  from run_sync_handler_accounted [OF this t] show ?thesis .
qed

lemma sync_or_remove_accounted:
  assumes "sync_or_remove E t st = Inr st'" "accounted base (t # ts) st"
  shows "accounted base ts st'"
proof -
  from assms(1) obtain ops entry where o: "pendingOps st = Some ops"
    "hash_find t ops = Some entry"
    by (auto simp: sync_or_remove_def split: option.splits)
  then have tag: "pf_tag entry = t" using hash_find_Some_tag by blast
  show ?thesis
  proof (cases "\<not> enableFsync st \<or> pf_canceled entry")
    case True
    with assms(1) o tag obtain ops' where "hash_remove t ops = Some ops'"
      "st' = st\<lparr>pendingOps := Some ops'\<rparr>"
      by (auto simp: sync_or_remove_def split: option.splits)
    with accounted_remove [OF assms(2) o(1)] show ?thesis by simp
  next
    case False
    let ?e = "\<lparr>if_tag = pf_tag entry, if_hash_entry = pf_tag entry,
                       if_handler_data = 0, if_path = [], if_retry_count = 0,
                       if_start_time = 0\<rparr>"
    from False assms(1) o have c: "call_syncfiletag E ?e st = Inr st'"
      by (auto simp: sync_or_remove_def split: if_splits)
    have "accounted base (if_hash_entry ?e # ts) st" using assms(2) tag by simp
    from call_syncfiletag_accounted [OF c this] show ?thesis .
  qed
qed

lemma accounted_skip:
  assumes "accounted base (t # ts) st"
    and "\<And>e. hash_find t (table st) = Some e \<Longrightarrow> pf_cycle_ctr e = sync_cycle_ctr st"
  shows "accounted base ts st"
proof -
  have "pf_cycle_ctr e = sync_cycle_ctr st" if "e \<in> set (table st)" "pf_tag e = t" for e
  proof -
    from that have "t \<in> pf_tag ` set (table st)" by auto
    then obtain e' where e': "hash_find t (table st) = Some e'"
      using hash_find_None_iff [of t "table st"] by (cases "hash_find t (table st)") auto
    then have "pf_tag e' = t" "e' \<in> set (table st)" using hash_find_Some_tag by blast+
    with that assms(1) have "e' = e"
      unfolding accounted_def by (auto simp: distinct_map dest: inj_onD)
    with assms(2) [OF e'] show ?thesis by simp
  qed
  with assms(1) show ?thesis unfolding accounted_def by auto
qed

lemma sync_loop_body_accounted:
  assumes "sync_loop_body E t st = Inr st'" "accounted base (t # ts) st"
  shows "accounted base ts st'"
proof -
  from assms(1) obtain ops where ops: "pendingOps st = Some ops"
    by (auto simp: sync_loop_body_def split: option.splits)
  then have tab: "table st = ops" by (simp add: table_def)
  show ?thesis
  proof (cases "hash_find t ops")
    case None
    with assms(1) ops have "st' = st" by (simp add: sync_loop_body_def)
    with accounted_skip [OF assms(2)] None tab show ?thesis by simp
  next
    case (Some entry)
    show ?thesis
    proof (cases "pf_cycle_ctr entry = sync_cycle_ctr st")
      case True
      with assms(1) ops Some have "st' = st" by (simp add: sync_loop_body_def)
      with accounted_skip [OF assms(2)] Some tab True show ?thesis by simp
    next
      case False
      with assms(1) ops Some obtain m where m: "absorb_tick E st = Inr m"
        and r: "sync_or_remove E t m = Inr st'"
        by (auto simp: sync_loop_body_def and_then_Inr_iff split: if_splits)
      from absorb_tick_accounted [OF assms(2), of E] m have "accounted base (t # ts) m" by simp
      from sync_or_remove_accounted [OF r this] show ?thesis .
    qed
  qed
qed

lemma sync_loop_accounted:
  "sync_loop E ts st = Inr st' \<Longrightarrow> accounted base (ts @ us) st \<Longrightarrow> accounted base us st'"
proof (induction ts arbitrary: st)
  case Nil
  then show ?case by simp
next
  case (Cons t ts)
  from Cons.prems(1) obtain m where m: "sync_loop_body E t st = Inr m"
    and r: "sync_loop E ts m = Inr st'"
    by (auto split: sum.splits)
  from Cons.prems(2) have "accounted base (t # ts @ us) st" by simp
  from Cons.IH [OF r sync_loop_body_accounted [OF m this]] show ?case .
qed

lemma distinct_count_le_1: "distinct xs \<Longrightarrow> count_list xs t \<le> 1"
  by (induction xs) (auto simp: count_list_0_iff)

lemma count_le_1_distinct:
  assumes "\<And>t. count_list xs t \<le> 1"
  shows "distinct xs"
  using assms
proof (induction xs)
  case Nil
  then show ?case by simp
next
  case (Cons x xs)
  from Cons.prems [of x] have "count_list xs x = 0" by simp
  then have x: "x \<notin> set xs" by (simp add: count_list_0_iff)
  have "count_list xs t \<le> 1" for t
    using Cons.prems [of t] by (simp split: if_splits)
  from Cons.IH [OF this] x show ?case by simp
qed

text \<open>
  The scan of a table with one entry per tag: every entry left that does not carry
  the current counter was submitted, and no tag was submitted twice.
\<close>

lemma sync_loop_submits:
  assumes "sync_loop E (hash_seq_tags st) st = Inr st'" "distinct (map pf_tag (table st))"
  shows "\<exists>cs. sync_calls st' = sync_calls st @ cs \<and>
          distinct (map if_hash_entry cs) \<and>
          if_hash_entry ` set cs \<subseteq> pf_tag ` set (table st) \<and>
          (\<forall>e \<in> set (table st').
             pf_cycle_ctr e = sync_cycle_ctr st' \<or> pf_tag e \<in> if_hash_entry ` set cs)"
proof -
  have ts: "hash_seq_tags st = map pf_tag (table st)"
    by (simp add: hash_seq_tags_def table_def split: option.splits)
  have "accounted (sync_calls st) (hash_seq_tags st @ []) st"
    using accounted_start [OF assms(2)] by (simp add: ts)
  from sync_loop_accounted [OF assms(1) this]
  obtain cs where cs: "sync_calls st' = sync_calls st @ cs"
    "\<forall>e \<in> set (table st').
       pf_cycle_ctr e = sync_cycle_ctr st' \<or> pf_tag e \<in> if_hash_entry ` set cs"
    unfolding accounted_def by auto
  from sync_loop_sync_calls [of E "hash_seq_tags st" st] assms(1) cs(1)
  have le: "\<forall>t. count_list (map if_hash_entry cs) t \<le> count_list (map pf_tag (table st)) t"
    by (simp add: ts)
  have one: "count_list (map pf_tag (table st)) t \<le> 1" for t
    using assms(2) by (rule distinct_count_le_1)
  have d: "distinct (map if_hash_entry cs)"
  proof (rule count_le_1_distinct)
    fix t
    from le have "count_list (map if_hash_entry cs) t \<le> count_list (map pf_tag (table st)) t"
      by (rule spec)
    then show "count_list (map if_hash_entry cs) t \<le> 1"
      using one [of t] by (rule le_trans)
  qed
  have sub: "if_hash_entry ` set cs \<subseteq> pf_tag ` set (table st)"
  proof
    fix t assume "t \<in> if_hash_entry ` set cs"
    then have "count_list (map if_hash_entry cs) t \<noteq> 0" by (simp add: count_list_0_iff)
    with le have "count_list (map pf_tag (table st)) t \<noteq> 0"
      by (metis le_zero_eq)
    then show "t \<in> pf_tag ` set (table st)" by (simp add: count_list_0_iff)
  qed
  from cs d sub show ?thesis by (intro exI [of _ cs] conjI)
qed

text \<open>
  \<^verbatim>\<open>ProcessSyncRequests\<close> is the scan of the table as the first absorb leaves it, with
  the counter advanced, followed by the wait, the retries and the final checks.
\<close>

lemma ProcessSyncRequests_scan:
  assumes "pendingOps st = Some ops" "AbsorbSyncRequests E st = Inr s1" "\<not> sync_in_progress st"
  shows "\<exists>s2. begin_pass s1 = Inr s2 \<and> sync_cycle_ctr s2 = sync_cycle_ctr st + 1 \<and>
           table s2 = table s1 \<and> hash_seq_tags s2 = map pf_tag (table s1) \<and>
           (all_current st \<longrightarrow> (\<forall>e \<in> set (table s2). pf_cycle_ctr e + 1 = sync_cycle_ctr s2)) \<and>
           ProcessSyncRequests E st =
             and_then
               (and_then (sync_loop E (hash_seq_tags s2) s2)
                  (\<lambda>s3. and_then (pg_streaming_write_wait_all E s3) (retry_bank E 0)))
               finish_pass"
proof -
  note f = requests_masked_fields(3,5) [OF AbsorbSyncRequests_masked [of E st]]
  from f(2) assms(2,3) have np: "\<not> sync_in_progress s1" by simp
  then obtain s2 where s2: "begin_pass s1 = Inr s2"
    by (simp add: begin_pass_def Let_def)
  note b = begin_pass_Inr [OF s2]
  have c: "sync_cycle_ctr s2 = sync_cycle_ctr st + 1" using b f(1) assms(2) by simp
  have t: "table s2 = table s1" using b by (simp add: table_def)
  have h: "hash_seq_tags s2 = map pf_tag (table s1)"
    unfolding t [symmetric] by (simp add: hash_seq_tags_def table_def split: option.splits)
  have e: "\<forall>e \<in> set (table s2). pf_cycle_ctr e + 1 = sync_cycle_ctr s2" if "all_current st"
  proof -
    from AbsorbSyncRequests_all_current [OF that, of E] assms(2) have "all_current s1" by simp
    then show ?thesis using b unfolding t by (simp add: all_current_def)
  qed
  have p: "ProcessSyncRequests E st =
             and_then
               (and_then (sync_loop E (hash_seq_tags s2) s2)
                  (\<lambda>s3. and_then (pg_streaming_write_wait_all E s3) (retry_bank E 0)))
               finish_pass"
    using assms(1,2) s2 by (simp add: ProcessSyncRequests_def sync_pass_def)
  from s2 c t h e p show ?thesis by (intro exI [of _ s2] conjI impI)
qed

lemma ProcessSyncRequests_pass:
  assumes "\<not> sync_in_progress st" "all_current st" "distinct (map pf_tag (table st))"
    "ProcessSyncRequests E st = Inr st'"
  shows "sync_cycle_ctr st' = sync_cycle_ctr st + 1" "all_current st'"
    "distinct (map pf_tag (table st'))" "inflightSyncs st' = []" "retrySyncs st' = []"
proof -
  from ProcessSyncRequests_all_current [OF assms(4,2,3)]
  show "all_current st'" "distinct (map pf_tag (table st'))" by simp_all
  from assms(4) obtain s5 where pass: "sync_pass E st = Inr s5" and fin: "finish_pass s5 = Inr st'"
    by (auto simp: ProcessSyncRequests_def and_then_Inr_iff)
  from fin have e: "inflightSyncs s5 = []" "retrySyncs s5 = []"
    and st': "st' = s5\<lparr>pgsw := None, ckpt_sync_rels := processed s5,
                   ckpt_longest_sync := longest s5, ckpt_agg_sync_time := total_elapsed s5,
                   sync_in_progress := False\<rparr>"
    by (auto simp: finish_pass_def split: if_splits)
  from e st' show "inflightSyncs st' = []" "retrySyncs st' = []" by simp_all
  from pass obtain ops where ops: "pendingOps st = Some ops"
    by (auto simp: sync_pass_def split: option.splits)
  from pass obtain s1 where s1: "AbsorbSyncRequests E st = Inr s1"
    using ops by (auto simp: sync_pass_def and_then_Inr_iff)
  from ProcessSyncRequests_scan [OF ops s1 assms(1)]
  obtain s2 where s2: "sync_cycle_ctr s2 = sync_cycle_ctr st + 1"
    "ProcessSyncRequests E st =
             and_then
               (and_then (sync_loop E (hash_seq_tags s2) s2)
                  (\<lambda>s3. and_then (pg_streaming_write_wait_all E s3) (retry_bank E 0)))
               finish_pass"
    by blast
  from assms(4) s2(2) fin obtain s5' where
    r: "and_then (sync_loop E (hash_seq_tags s2) s2)
          (\<lambda>s3. and_then (pg_streaming_write_wait_all E s3) (retry_bank E 0)) = Inr s5'"
    and fin': "finish_pass s5' = Inr st'"
    by (auto simp: and_then_Inr_iff)
  from pass_masked_fields(1) [OF scan_and_retry_pass_masked [of E "hash_seq_tags s2" s2]] r
  have "sync_cycle_ctr s5' = sync_cycle_ctr s2" by simp
  moreover from fin' have "sync_cycle_ctr st' = sync_cycle_ctr s5'"
    by (auto simp: finish_pass_def split: if_splits)
  ultimately show "sync_cycle_ctr st' = sync_cycle_ctr st + 1" using s2(1) by simp
qed

section \<open>The scan of the table, and the assertion\<close>

text \<open>
  C3. In the scan of \<^verbatim>\<open>ProcessSyncRequests\<close>: a visited entry that carries the
  current \<open>sync_cycle_ctr\<close> leaves the state as it is. When every entry carries the
  current counter or its predecessor, neither one visit nor the whole scan fails with
  the assertion \<open>(CycleCtr) (entry->cycle_ctr + 1) == sync_cycle_ctr\<close>. In a settled
  state (a pass has failed, or the table has one entry per tag and every entry carries
  the current counter) \<^verbatim>\<open>ProcessSyncRequests\<close> does not fail with the assertion and
  leaves a settled state. For any other visited entry, once the periodic absorb
  has returned state \<open>s1\<close>, the entry is still in the table; if fsync is disabled or
  the entry is canceled by then, the visit returns \<open>s1\<close> without the entry and without
  a call of the handler's sync function, and otherwise it is \<^verbatim>\<open>call_syncfiletag\<close> on a
  new in-flight entry that refers to this table entry, with exactly one call of the
  handler's sync function. Over the whole scan the calls of the sync function are for
  tags of the scan list, at most as often as the tag occurs there, each with a fresh
  in-flight entry. The state after \<^verbatim>\<open>InitSync\<close> is settled, and the other functions of
  sync.c leave a settled state settled.

  The loop is that of \<^verbatim>\<open>ProcessSyncRequests\<close>: when no pass has failed and the first
  absorb returns \<open>s1\<close>, the function is the scan over the tags of the table of \<open>s1\<close>,
  with \<open>sync_cycle_ctr\<close> advanced by one (so that every entry of a table whose entries
  were all current is eligible), followed by the wait, the retries and the final
  checks. A scan of a table with one entry per tag that returns has called the sync
  function at most once per tag, only for tags of the table, and for every entry it
  leaves in the table without the current counter. A pass that returns, entered with
  every entry current, has advanced the counter by one and leaves only entries that
  carry the new counter: every entry it found was submitted and flushed, or removed.
\<close>

theorem sync_loop_scan:
  "(\<forall>ops entry. pendingOps st = Some ops \<longrightarrow> hash_find t ops = Some entry \<longrightarrow>
      pf_cycle_ctr entry = sync_cycle_ctr st \<longrightarrow> sync_loop_body E t st = Inr st) \<and>
   (cycle_ok st \<longrightarrow>
      (\<forall>s. sync_loop_body E t st \<noteq>
             Inl (AssertFailed ''(CycleCtr) (entry->cycle_ctr + 1) == sync_cycle_ctr'', s)) \<and>
      (\<forall>s. sync_loop E ts st \<noteq>
             Inl (AssertFailed ''(CycleCtr) (entry->cycle_ctr + 1) == sync_cycle_ctr'', s))) \<and>
   (settled st \<longrightarrow>
      (\<forall>s. ProcessSyncRequests E st \<noteq>
             Inl (AssertFailed ''(CycleCtr) (entry->cycle_ctr + 1) == sync_cycle_ctr'', s)) \<and>
      settled (state_of (ProcessSyncRequests E st))) \<and>
   (\<forall>ops entry s1. pendingOps st = Some ops \<longrightarrow> hash_find t ops = Some entry \<longrightarrow>
      pf_cycle_ctr entry \<noteq> sync_cycle_ctr st \<longrightarrow> pf_cycle_ctr entry + 1 = sync_cycle_ctr st \<longrightarrow>
      absorb_tick E st = Inr s1 \<longrightarrow>
      (\<exists>ops1 entry1. pendingOps s1 = Some ops1 \<and> hash_find t ops1 = Some entry1 \<and>
           sync_loop_body E t st =
             (if \<not> enableFsync s1 \<or> pf_canceled entry1
              then Inr (s1\<lparr>pendingOps := Some (filter (\<lambda>x. pf_tag x \<noteq> t) ops1)\<rparr>)
              else call_syncfiletag E
                     \<lparr>if_tag = t, if_hash_entry = t, if_handler_data = 0, if_path = [],
                      if_retry_count = 0, if_start_time = 0\<rparr> s1) \<and>
           sync_calls (state_of (sync_loop_body E t st)) =
             (if \<not> enableFsync s1 \<or> pf_canceled entry1 then sync_calls st
              else sync_calls st @
                     [\<lparr>if_tag = t, if_hash_entry = t, if_handler_data = 0, if_path = [],
                       if_retry_count = 0, if_start_time = clock E (clock_reads s1)\<rparr>]))) \<and>
   (\<exists>cs. sync_calls (state_of (sync_loop E ts st)) = sync_calls st @ cs \<and>
        (\<forall>u. count_list (map if_hash_entry cs) u \<le> count_list ts u) \<and>
        (\<forall>c \<in> set cs. if_tag c = if_hash_entry c \<and> if_retry_count c = 0)) \<and>
   settled (InitSync p c startup) \<and>
   (settled st \<longrightarrow>
      settled (state_of (RememberSyncRequest E ftag ty st)) \<and>
      settled (state_of (AbsorbSyncRequests E st)) \<and>
      settled (SyncPreCheckpoint st) \<and>
      settled (state_of (SyncPostCheckpoint E st))) \<and>
   (\<forall>ops s1. pendingOps st = Some ops \<longrightarrow> AbsorbSyncRequests E st = Inr s1 \<longrightarrow>
      \<not> sync_in_progress st \<longrightarrow>
      (\<exists>s2. begin_pass s1 = Inr s2 \<and> sync_cycle_ctr s2 = sync_cycle_ctr st + 1 \<and>
           table s2 = table s1 \<and> hash_seq_tags s2 = map pf_tag (table s1) \<and>
           (all_current st \<longrightarrow> (\<forall>e \<in> set (table s2). pf_cycle_ctr e + 1 = sync_cycle_ctr s2)) \<and>
           ProcessSyncRequests E st =
             and_then
               (and_then (sync_loop E (hash_seq_tags s2) s2)
                  (\<lambda>s3. and_then (pg_streaming_write_wait_all E s3) (retry_bank E 0)))
               finish_pass)) \<and>
   (\<forall>st'. distinct (map pf_tag (table st)) \<longrightarrow> sync_loop E (hash_seq_tags st) st = Inr st' \<longrightarrow>
      (\<exists>cs. sync_calls st' = sync_calls st @ cs \<and>
          distinct (map if_hash_entry cs) \<and>
          if_hash_entry ` set cs \<subseteq> pf_tag ` set (table st) \<and>
          (\<forall>e \<in> set (table st').
             pf_cycle_ctr e = sync_cycle_ctr st' \<or> pf_tag e \<in> if_hash_entry ` set cs))) \<and>
   (\<forall>st'. \<not> sync_in_progress st \<longrightarrow> all_current st \<longrightarrow> distinct (map pf_tag (table st)) \<longrightarrow>
      ProcessSyncRequests E st = Inr st' \<longrightarrow>
      sync_cycle_ctr st' = sync_cycle_ctr st + 1 \<and> all_current st' \<and>
      distinct (map pf_tag (table st')) \<and> inflightSyncs st' = [] \<and> retrySyncs st' = [])"
proof (intro conjI allI impI)
  fix ops entry
  assume "pendingOps st = Some ops" "hash_find t ops = Some entry"
    "pf_cycle_ctr entry = sync_cycle_ctr st"
  then show "sync_loop_body E t st = Inr st"
    by (simp add: sync_loop_body_def)
next
  fix s
  assume "cycle_ok st"
  from sync_loop_body_no_assert [OF this, of E t]
  show "sync_loop_body E t st \<noteq>
          Inl (AssertFailed ''(CycleCtr) (entry->cycle_ctr + 1) == sync_cycle_ctr'', s)"
    by (auto simp: inner_failure_def cycle_assertion_def)
next
  fix s
  assume "cycle_ok st"
  from sync_loop_no_assert [OF this, of E ts]
  show "sync_loop E ts st \<noteq>
          Inl (AssertFailed ''(CycleCtr) (entry->cycle_ctr + 1) == sync_cycle_ctr'', s)"
    by (auto simp: inner_failure_def cycle_assertion_def)
next
  fix s
  assume "settled st"
  from ProcessSyncRequests_settled_no_assert [OF this, of E]
  show "ProcessSyncRequests E st \<noteq>
          Inl (AssertFailed ''(CycleCtr) (entry->cycle_ctr + 1) == sync_cycle_ctr'', s)"
    by (auto simp: cycle_assertion_def)
next
  assume "settled st"
  then show "settled (state_of (ProcessSyncRequests E st))"
    by (rule ProcessSyncRequests_settled)
next
  fix ops entry s1
  assume "pendingOps st = Some ops" "hash_find t ops = Some entry"
    "pf_cycle_ctr entry \<noteq> sync_cycle_ctr st" "pf_cycle_ctr entry + 1 = sync_cycle_ctr st"
    "absorb_tick E st = Inr s1"
  then show "\<exists>ops1 entry1. pendingOps s1 = Some ops1 \<and> hash_find t ops1 = Some entry1 \<and>
           sync_loop_body E t st =
             (if \<not> enableFsync s1 \<or> pf_canceled entry1
              then Inr (s1\<lparr>pendingOps := Some (filter (\<lambda>x. pf_tag x \<noteq> t) ops1)\<rparr>)
              else call_syncfiletag E
                     \<lparr>if_tag = t, if_hash_entry = t, if_handler_data = 0, if_path = [],
                      if_retry_count = 0, if_start_time = 0\<rparr> s1) \<and>
           sync_calls (state_of (sync_loop_body E t st)) =
             (if \<not> enableFsync s1 \<or> pf_canceled entry1 then sync_calls st
              else sync_calls st @
                     [\<lparr>if_tag = t, if_hash_entry = t, if_handler_data = 0, if_path = [],
                       if_retry_count = 0, if_start_time = clock E (clock_reads s1)\<rparr>])"
    by (rule sync_loop_body_eligible)
next
  show "\<exists>cs. sync_calls (state_of (sync_loop E ts st)) = sync_calls st @ cs \<and>
        (\<forall>u. count_list (map if_hash_entry cs) u \<le> count_list ts u) \<and>
        (\<forall>c \<in> set cs. if_tag c = if_hash_entry c \<and> if_retry_count c = 0)"
    by (rule sync_loop_sync_calls)
next
  show "settled (InitSync p c startup)" by (rule settled_InitSync)
next
  assume "settled st"
  then show "settled (state_of (RememberSyncRequest E ftag ty st))"
    by (rule RememberSyncRequest_settled)
next
  assume "settled st"
  then show "settled (state_of (AbsorbSyncRequests E st))"
    by (rule AbsorbSyncRequests_settled)
next
  assume "settled st"
  then show "settled (SyncPreCheckpoint st)" by (rule SyncPreCheckpoint_settled)
next
  assume "settled st"
  then show "settled (state_of (SyncPostCheckpoint E st))"
    by (rule SyncPostCheckpoint_settled)
next
  fix ops s1
  assume "pendingOps st = Some ops" "AbsorbSyncRequests E st = Inr s1" "\<not> sync_in_progress st"
  then show "\<exists>s2. begin_pass s1 = Inr s2 \<and> sync_cycle_ctr s2 = sync_cycle_ctr st + 1 \<and>
           table s2 = table s1 \<and> hash_seq_tags s2 = map pf_tag (table s1) \<and>
           (all_current st \<longrightarrow> (\<forall>e \<in> set (table s2). pf_cycle_ctr e + 1 = sync_cycle_ctr s2)) \<and>
           ProcessSyncRequests E st =
             and_then
               (and_then (sync_loop E (hash_seq_tags s2) s2)
                  (\<lambda>s3. and_then (pg_streaming_write_wait_all E s3) (retry_bank E 0)))
               finish_pass"
    by (rule ProcessSyncRequests_scan)
next
  fix st'
  assume d: "distinct (map pf_tag (table st))" and l: "sync_loop E (hash_seq_tags st) st = Inr st'"
  from sync_loop_submits [OF l d]
  show "\<exists>cs. sync_calls st' = sync_calls st @ cs \<and>
          distinct (map if_hash_entry cs) \<and>
          if_hash_entry ` set cs \<subseteq> pf_tag ` set (table st) \<and>
          (\<forall>e \<in> set (table st').
             pf_cycle_ctr e = sync_cycle_ctr st' \<or> pf_tag e \<in> if_hash_entry ` set cs)" .
next
  fix st'
  assume "\<not> sync_in_progress st" "all_current st" "distinct (map pf_tag (table st))"
    "ProcessSyncRequests E st = Inr st'"
  then show "sync_cycle_ctr st' = sync_cycle_ctr st + 1" by (rule ProcessSyncRequests_pass)
next
  fix st'
  assume "\<not> sync_in_progress st" "all_current st" "distinct (map pf_tag (table st))"
    "ProcessSyncRequests E st = Inr st'"
  then show "all_current st'" by (rule ProcessSyncRequests_pass)
next
  fix st'
  assume "\<not> sync_in_progress st" "all_current st" "distinct (map pf_tag (table st))"
    "ProcessSyncRequests E st = Inr st'"
  then show "distinct (map pf_tag (table st'))" by (rule ProcessSyncRequests_pass)
next
  fix st'
  assume "\<not> sync_in_progress st" "all_current st" "distinct (map pf_tag (table st))"
    "ProcessSyncRequests E st = Inr st'"
  then show "inflightSyncs st' = []" by (rule ProcessSyncRequests_pass)
next
  fix st'
  assume "\<not> sync_in_progress st" "all_current st" "distinct (map pf_tag (table st))"
    "ProcessSyncRequests E st = Inr st'"
  then show "retrySyncs st' = []" by (rule ProcessSyncRequests_pass)
qed

theorem sync_loop_scan_witness:
  "cycle_ok scanning \<and> settled two_requests \<and>
   settled (state_of (ProcessSyncRequests quiet_env two_requests)) \<and>
   sync_cycle_ctr (state_of (ProcessSyncRequests quiet_env two_requests)) =
     sync_cycle_ctr two_requests + 1 \<and>
   sync_loop_body quiet_env tag3 scanning = Inr scanning \<and>
   sync_loop_body quiet_env tag1 scanning =
     Inr (scanning\<lparr>pendingOps :=
            Some [\<lparr>pf_tag = tag2, pf_cycle_ctr = 0, pf_canceled = False\<rparr>,
                  \<lparr>pf_tag = tag3, pf_cycle_ctr = 1, pf_canceled = False\<rparr>],
            absorb_counter := 9\<rparr>) \<and>
   sync_loop quiet_env [tag1, tag2, tag3] scanning =
     Inr (scanning\<lparr>pendingOps := Some [\<lparr>pf_tag = tag3, pf_cycle_ctr = 1, pf_canceled = False\<rparr>],
            absorb_counter := 8, processed := 1, longest := 1000, total_elapsed := 1000,
            sync_calls :=
              [\<lparr>if_tag = tag2, if_hash_entry = tag2, if_handler_data = 0, if_path = [],
                if_retry_count = 0, if_start_time = 0\<rparr>],
            clock_reads := 2\<rparr>)"
proof -
  have c: "cycle_ok scanning"
    by (simp add: cycle_ok_def scanning_def table_def)
  have e: "sync_loop quiet_env [tag1, tag2, tag3] scanning =
     Inr (scanning\<lparr>pendingOps := Some [\<lparr>pf_tag = tag3, pf_cycle_ctr = 1, pf_canceled = False\<rparr>],
            absorb_counter := 8, processed := 1, longest := 1000, total_elapsed := 1000,
            sync_calls :=
              [\<lparr>if_tag = tag2, if_hash_entry = tag2, if_handler_data = 0, if_path = [],
                if_retry_count = 0, if_start_time = 0\<rparr>],
            clock_reads := 2\<rparr>)"
    by (simp add: pass_eval scanning_def)
  have t: "absorb_tick quiet_env scanning = Inr (scanning\<lparr>absorb_counter := 9\<rparr>)"
    by (simp add: absorb_tick_def scanning_def Let_def)
  note inst3 = sync_loop_scan [of scanning tag3 quiet_env "[tag1, tag2, tag3]"]
  note inst1 = sync_loop_scan [of scanning tag1 quiet_env "[tag1, tag2, tag3]"]
  have 3: "sync_loop_body quiet_env tag3 scanning = Inr scanning"
    using inst3 [THEN conjunct1, rule_format,
        of "[\<lparr>pf_tag = tag1, pf_cycle_ctr = 0, pf_canceled = True\<rparr>,
             \<lparr>pf_tag = tag2, pf_cycle_ctr = 0, pf_canceled = False\<rparr>,
             \<lparr>pf_tag = tag3, pf_cycle_ctr = 1, pf_canceled = False\<rparr>]"
           "\<lparr>pf_tag = tag3, pf_cycle_ctr = 1, pf_canceled = False\<rparr>"]
    by (simp add: scanning_def hash_find_def tag1_def tag2_def tag3_def)
  have 1: "sync_loop_body quiet_env tag1 scanning =
     Inr (scanning\<lparr>pendingOps :=
            Some [\<lparr>pf_tag = tag2, pf_cycle_ctr = 0, pf_canceled = False\<rparr>,
                  \<lparr>pf_tag = tag3, pf_cycle_ctr = 1, pf_canceled = False\<rparr>],
            absorb_counter := 9\<rparr>)"
    using inst1 [THEN conjunct2, THEN conjunct2, THEN conjunct2, THEN conjunct1, rule_format,
        of "[\<lparr>pf_tag = tag1, pf_cycle_ctr = 0, pf_canceled = True\<rparr>,
             \<lparr>pf_tag = tag2, pf_cycle_ctr = 0, pf_canceled = False\<rparr>,
             \<lparr>pf_tag = tag3, pf_cycle_ctr = 1, pf_canceled = False\<rparr>]"
           "\<lparr>pf_tag = tag1, pf_cycle_ctr = 0, pf_canceled = True\<rparr>"
           "scanning\<lparr>absorb_counter := 9\<rparr>"] t
    by (auto simp: scanning_def hash_find_def tag1_def tag2_def tag3_def)
  have s: "settled two_requests"
    by (simp add: settled_def all_current_def table_def two_requests_def checkpointer_def
          InitSync_def startup_def tag1_def tag2_def)
  have s': "settled (state_of (ProcessSyncRequests quiet_env two_requests))"
    using sync_loop_scan [of two_requests tag1 quiet_env "[]", THEN conjunct2, THEN conjunct2,
        THEN conjunct1, THEN mp, OF s] by (rule conjunct2)
  have np: "\<not> sync_in_progress two_requests" and ac: "all_current two_requests"
    and di: "distinct (map pf_tag (table two_requests))"
    by (simp_all add: all_current_def table_def two_requests_def checkpointer_def
          InitSync_def startup_def tag1_def tag2_def)
  have p: "sync_cycle_ctr (state_of (ProcessSyncRequests quiet_env two_requests)) =
     sync_cycle_ctr two_requests + 1"
    using sync_loop_scan [of two_requests tag1 quiet_env "[]", THEN conjunct2, THEN conjunct2,
        THEN conjunct2, THEN conjunct2, THEN conjunct2, THEN conjunct2, THEN conjunct2,
        THEN conjunct2, THEN conjunct2, rule_format, OF np ac di basic_flush_eval]
    by (simp add: basic_flush_eval)
  from c s s' p e 1 3 show ?thesis by (intro conjI)
qed

end
